(* ===== verification/Prelude.thy ===== *)
theory Prelude
  imports
    Complex_Main
    "HOL-Library.Word"
    "HOL-Library.AList"
    "HOL-Library.Monad_Syntax"
begin

section \<open>Prelude: machine integers, byte order, and the maps of the Rust library\<close>

text \<open>
  Shared vocabulary of the development. Machine integers are words at their width, so
  \<open>+\<close>, \<open>-\<close> and \<open>*\<close> wrap as Rust's operators do in a release build; the saturating
  and checked variants are defined here with their value under \<open>unat\<close>. A \<open>usize\<close>
  that counts elements in memory is a \<open>nat\<close>, an \<open>f64\<close> is a \<open>real\<close> (rounding, infinities
  and NaN are not modelled), a \<open>Vec\<close>, slice or fixed array is a list. A \<open>HashMap\<close> is an
  association list with distinct keys whose order stands for one iteration order of
  the table; a \<open>BTreeMap\<close> is an association list with strictly ascending keys. Both
  satisfy the map interface stated as the locale \<open>rust_map\<close>.
\<close>

named_theorems word_nat \<open>words read as naturals\<close>

type_synonym u8 = "8 word"
type_synonym u16 = "16 word"
type_synonym u32 = "32 word"
type_synonym u64 = "64 word"
type_synonym bytes = "u8 list"

subsection \<open>Saturating and checked arithmetic\<close>

definition sat_add :: "'a::len word \<Rightarrow> 'a word \<Rightarrow> 'a word" where
  "sat_add a b = (if unat a + unat b < 2 ^ LENGTH('a) then a + b else - 1)"

definition sat_sub :: "'a::len word \<Rightarrow> 'a word \<Rightarrow> 'a word" where
  "sat_sub a b = (if b \<le> a then a - b else 0)"

definition checked_add :: "'a::len word \<Rightarrow> 'a word \<Rightarrow> 'a word option" where
  "checked_add a b = (if unat a + unat b < 2 ^ LENGTH('a) then Some (a + b) else None)"

definition checked_sub :: "'a::len word \<Rightarrow> 'a word \<Rightarrow> 'a word option" where
  "checked_sub a b = (if b \<le> a then Some (a - b) else None)"

definition checked_mul :: "'a::len word \<Rightarrow> 'a word \<Rightarrow> 'a word option" where
  "checked_mul a b = (if unat a * unat b < 2 ^ LENGTH('a) then Some (a * b) else None)"

lemma unat_less_2p: "unat (a :: 'a::len word) < 2 ^ LENGTH('a)"
  by (rule unsigned_less)

lemma unat_sat_add [word_nat]:
  "unat (sat_add a (b :: 'a::len word)) = min (unat a + unat b) (2 ^ LENGTH('a) - 1)"
proof (cases "unat a + unat b < 2 ^ LENGTH('a)")
  case True
  then show ?thesis by (simp add: sat_add_def unat_word_ariths)
next
  case False
  moreover have "unat (- 1 :: 'a word) = 2 ^ LENGTH('a) - 1"
    by (simp add: unsigned_minus_1_eq_mask mask_eq_exp_minus_1)
  ultimately show ?thesis by (simp add: sat_add_def)
qed

lemma unat_sat_sub [word_nat]: "unat (sat_sub a (b :: 'a::len word)) = unat a - unat b"
  by (auto simp: sat_sub_def unat_sub word_le_nat_alt)

lemma sat_sub_le: "sat_sub a b \<le> (a :: 'a::len word)"
  by (simp add: word_le_nat_alt word_nat)

lemma sat_add_ge: "a \<le> sat_add a (b :: 'a::len word)"
  using unat_less_2p [of a] unfolding word_le_nat_alt unat_sat_add by linarith

lemma unat_checked_add: "checked_add a b = Some c \<Longrightarrow> unat c = unat a + unat b"
  by (auto simp: checked_add_def unat_word_ariths split: if_splits)

lemma unat_checked_mul: "checked_mul a b = Some c \<Longrightarrow> unat c = unat a * unat b"
  by (auto simp: checked_mul_def unat_word_ariths split: if_splits)

lemma unat_checked_sub: "checked_sub a b = Some c \<Longrightarrow> unat c = unat a - unat b \<and> unat b \<le> unat a"
  by (auto simp: checked_sub_def unat_sub word_le_nat_alt split: if_splits)

lemma unat_plus_exact:
  "unat a + unat b < 2 ^ LENGTH('a) \<Longrightarrow> unat (a + (b :: 'a::len word)) = unat a + unat b"
  by (simp add: unat_word_ariths)

lemma unat_of_nat_exact: "n < 2 ^ LENGTH('a) \<Longrightarrow> unat (of_nat n :: 'a::len word) = n"
  by (simp add: unat_of_nat)

lemma unat_u64_of_u32 [word_nat]: "unat (ucast (x :: u32) :: u64) = unat x"
  by (simp add: unsigned_ucast_eq take_bit_nat_eq_self_iff order_less_le_trans [OF unat_less_2p])

text \<open>The elements of the half-open range \<open>a..b\<close>, in ascending order.\<close>

definition word_range :: "'a::len word \<Rightarrow> 'a word \<Rightarrow> 'a word list" where
  "word_range a b = map of_nat [unat a ..< unat b]"

lemma set_word_range [simp]: "set (word_range a b) = {x. a \<le> x \<and> x < b}"
proof -
  have "x \<in> of_nat ` {unat a ..< unat b}" if "a \<le> x" and "x < b" for x
    using that by (intro image_eqI [of _ _ "unat x"]) (auto simp: word_le_nat_alt word_less_nat_alt)
  moreover have "a \<le> of_nat n \<and> of_nat n < b" if "unat a \<le> n" and "n < unat b" for n
  proof -
    have "n < 2 ^ LENGTH('a)" using that unat_less_2p [of b] by linarith
    then show ?thesis using that
      by (simp add: word_le_nat_alt word_less_nat_alt unat_of_nat_exact)
  qed
  ultimately show ?thesis by (auto simp: word_range_def)
qed

subsection \<open>Byte order\<close>

fun le_of_nat :: "nat \<Rightarrow> nat \<Rightarrow> bytes" where
  "le_of_nat 0 k = []"
| "le_of_nat (Suc n) k = of_nat (k mod 256) # le_of_nat n (k div 256)"

fun nat_of_le :: "bytes \<Rightarrow> nat" where
  "nat_of_le [] = 0"
| "nat_of_le (b # bs) = unat b + 256 * nat_of_le bs"

definition nat_of_be :: "bytes \<Rightarrow> nat" where
  "nat_of_be bs = nat_of_le (rev bs)"

definition be_of_nat :: "nat \<Rightarrow> nat \<Rightarrow> bytes" where
  "be_of_nat n k = rev (le_of_nat n k)"

lemma length_le_of_nat [simp]: "length (le_of_nat n k) = n"
  by (induction n arbitrary: k) auto

lemma length_be_of_nat [simp]: "length (be_of_nat n k) = n"
  by (simp add: be_of_nat_def)

lemma nat_of_le_of_nat: "nat_of_le (le_of_nat n k) = k mod 256 ^ n"
proof (induction n arbitrary: k)
  case (Suc n)
  have "unat (of_nat (k mod 256) :: u8) = k mod 256"
    by (simp add: unat_of_nat)
  then show ?case
    by (simp add: Suc mod_mult2_eq)
qed simp

lemma nat_of_be_of_nat: "nat_of_be (be_of_nat n k) = k mod 256 ^ n"
  by (simp add: nat_of_be_def be_of_nat_def nat_of_le_of_nat)

lemma nat_of_le_bound: "nat_of_le bs < 256 ^ length bs"
proof (induction bs)
  case (Cons b bs)
  have "unat b < 256" using unat_less_2p [of b] by simp
  moreover have "nat_of_le bs + 1 \<le> 256 ^ length bs" using Cons by simp
  ultimately show ?case by simp
qed simp

lemma le_roundtrip64 [simp]: "of_nat (nat_of_le (le_of_nat 8 (unat x))) = (x :: u64)"
  using unat_less_2p [of x] by (simp add: nat_of_le_of_nat)

lemma le_roundtrip32 [simp]: "of_nat (nat_of_le (le_of_nat 4 (unat x))) = (x :: u32)"
  using unat_less_2p [of x] by (simp add: nat_of_le_of_nat)

lemma le_roundtrip16 [simp]: "of_nat (nat_of_le (le_of_nat 2 (unat x))) = (x :: u16)"
  using unat_less_2p [of x] by (simp add: nat_of_le_of_nat)

lemma le_of_nat_inj:
  assumes "le_of_nat n a = le_of_nat n b" and "a < 256 ^ n" and "b < 256 ^ n"
  shows "a = b"
  using arg_cong [OF assms(1), of nat_of_le] assms(2,3) by (simp add: nat_of_le_of_nat)

subsection \<open>Slices and chunks\<close>

text \<open>Rust's \<open>slice::chunks(n)\<close>: consecutive pieces of length \<open>n\<close>, the last one shorter.\<close>

function chunks :: "nat \<Rightarrow> 'a list \<Rightarrow> 'a list list" where
  "chunks n xs = (if xs = [] \<or> n = 0 then [] else take n xs # chunks n (drop n xs))"
  by pat_completeness auto
termination
  by (relation "measure (\<lambda>(n, xs). length xs)") auto

declare chunks.simps [simp del]

lemma chunks_Nil [simp]: "chunks n [] = []"
  by (simp add: chunks.simps)

lemma concat_chunks: "0 < n \<Longrightarrow> concat (chunks n xs) = xs"
proof (induction n xs rule: chunks.induct)
  case (1 n xs)
  then show ?case by (cases "xs = []") (simp_all add: chunks.simps [of n xs])
qed

lemma chunks_length: "c \<in> set (chunks n xs) \<Longrightarrow> 0 < length c \<and> length c \<le> n"
proof (induction n xs rule: chunks.induct)
  case (1 n xs)
  show ?case
  proof (cases "xs = [] \<or> n = 0")
    case True
    with "1.prems" show ?thesis by (auto simp: chunks.simps [of n xs])
  next
    case False
    then have eq: "chunks n xs = take n xs # chunks n (drop n xs)"
      by (simp add: chunks.simps [of n xs])
    from "1.prems" eq consider "c = take n xs" | "c \<in> set (chunks n (drop n xs))" by auto
    then show ?thesis using "1.IH" False by cases auto
  qed
qed

subsection \<open>Maps\<close>

text \<open>
  The contract the clients of a Rust map rely on. \<open>entries\<close> is what iteration yields.
\<close>

locale rust_map =
  fixes get :: "'m \<Rightarrow> 'k \<Rightarrow> 'v option"
    and put :: "'k \<Rightarrow> 'v \<Rightarrow> 'm \<Rightarrow> 'm"
    and remove :: "'k \<Rightarrow> 'm \<Rightarrow> 'm"
    and entries :: "'m \<Rightarrow> ('k \<times> 'v) list"
    and ok :: "'m \<Rightarrow> bool"
  assumes get_put: "ok m \<Longrightarrow> get (put k v m) = (get m)(k \<mapsto> v)"
    and get_remove: "ok m \<Longrightarrow> get (remove k m) = (get m)(k := None)"
    and get_entries: "ok m \<Longrightarrow> get m = map_of (entries m)"
    and keys_distinct: "ok m \<Longrightarrow> distinct (map fst (entries m))"
    and ok_put: "ok m \<Longrightarrow> ok (put k v m)"
    and ok_remove: "ok m \<Longrightarrow> ok (remove k m)"
begin

lemma entries_iff: "ok m \<Longrightarrow> (k, v) \<in> set (entries m) \<longleftrightarrow> get m k = Some v"
  by (simp add: get_entries keys_distinct)

lemma keys_dom: "ok m \<Longrightarrow> set (map fst (entries m)) = dom (get m)"
  by (simp add: get_entries dom_map_of_conv_image_fst)

lemma len_keys: "ok m \<Longrightarrow> length (entries m) = card (dom (get m))"
  using distinct_card [OF keys_distinct, of m] by (simp add: keys_dom [symmetric])

lemma len_put:
  assumes "ok m"
  shows "length (entries (put k v m)) =
    (if get m k = None then Suc (length (entries m)) else length (entries m))"
proof -
  have fin: "finite (dom (get m))" using assms by (simp add: get_entries finite_dom_map_of)
  have "length (entries (put k v m)) = card (insert k (dom (get m)))"
    using assms by (simp add: len_keys ok_put get_put)
  with fin assms show ?thesis
    by (simp add: len_keys card_insert_if domIff)
qed

lemma len_remove:
  assumes "ok m"
  shows "length (entries (remove k m)) =
    (if get m k = None then length (entries m) else length (entries m) - 1)"
proof -
  have "length (entries (remove k m)) = card (dom (get m) - {k})"
    using assms by (simp add: len_keys ok_remove get_remove)
  with assms show ?thesis
    by (auto simp: len_keys domIff)
qed

text \<open>
  A measure summed over the entries (buffered bytes, say) changes by exactly the entry
  that a \<open>remove\<close> takes out or a \<open>put\<close> brings in.
\<close>

definition total :: "('v \<Rightarrow> nat) \<Rightarrow> 'm \<Rightarrow> nat" where
  "total f m = (\<Sum>(k, v) \<leftarrow> entries m. f v)"

lemma total_dom:
  assumes "ok m"
  shows "total f m = (\<Sum>k \<in> dom (get m). f (the (get m k)))"
proof -
  let ?es = "entries m"
  have d: "distinct ?es" using keys_distinct [OF assms] by (simp add: distinct_map)
  have "total f m = (\<Sum>e \<in> set ?es. f (snd e))"
    using d by (simp add: total_def sum_list_distinct_conv_sum_set case_prod_beta)
  also have "\<dots> = (\<Sum>k \<in> fst ` set ?es. f (the (get m k)))"
    using keys_distinct [OF assms] entries_iff [OF assms]
    by (intro sum.reindex_cong [symmetric, of fst])
       (auto simp: distinct_map entries_iff [OF assms])
  finally show ?thesis using keys_dom [OF assms] by simp
qed

lemma finite_get: "ok m \<Longrightarrow> finite (dom (get m))"
  by (simp add: get_entries finite_dom_map_of)

lemma total_remove:
  assumes "ok m" and "get m k = Some v"
  shows "total f m = f v + total f (remove k m)"
proof -
  have "(\<Sum>x \<in> dom (get m) - {k}. f (the (get (remove k m) x))) =
      (\<Sum>x \<in> dom (get m) - {k}. f (the (get m x)))"
    using assms by (intro sum.cong) (auto simp: get_remove)
  moreover have "k \<in> dom (get m)" using assms by auto
  ultimately show ?thesis
    using assms finite_get [OF assms(1)]
    by (simp add: total_dom ok_remove get_remove sum.remove [of _ k])
qed

lemma total_remove_absent:
  assumes "ok m" and "get m k = None"
  shows "total f (remove k m) = total f m"
proof -
  have "get (remove k m) = get m" using assms by (auto simp: get_remove)
  then show ?thesis using assms by (simp add: total_dom ok_remove)
qed

lemma total_put:
  assumes "ok m"
  shows "total f (put k v m) = f v + total f (remove k m)"
proof -
  have "remove k (put k v m) = remove k (put k v m) \<and> get (remove k (put k v m)) = get (remove k m)"
    using assms by (simp add: get_remove get_put ok_put)
  then have "total f (remove k (put k v m)) = total f (remove k m)"
    using assms by (simp add: total_dom ok_remove ok_put)
  then show ?thesis
    using assms total_remove [of "put k v m" k v f] by (simp add: ok_put get_put)
qed

lemma total_bound:
  assumes "ok m" and "\<And>k v. get m k = Some v \<Longrightarrow> f v \<le> b"
  shows "total f m \<le> length (entries m) * b"
proof -
  have "(\<Sum>k \<in> dom (get m). f (the (get m k))) \<le> of_nat (card (dom (get m))) * b"
    using assms(2) by (intro sum_bounded_above) auto
  then show ?thesis using assms(1) by (simp add: total_dom len_keys)
qed

end

text \<open>\<open>HashMap\<close>: \<^const>\<open>AList.update\<close> replaces in place or appends.\<close>

type_synonym ('k, 'v) hash_map = "('k \<times> 'v) list"

abbreviation hm_get :: "('k, 'v) hash_map \<Rightarrow> 'k \<Rightarrow> 'v option" where
  "hm_get m \<equiv> map_of m"

abbreviation hm_put :: "'k \<Rightarrow> 'v \<Rightarrow> ('k, 'v) hash_map \<Rightarrow> ('k, 'v) hash_map" where
  "hm_put k v m \<equiv> AList.update k v m"

abbreviation hm_remove :: "'k \<Rightarrow> ('k, 'v) hash_map \<Rightarrow> ('k, 'v) hash_map" where
  "hm_remove k m \<equiv> AList.delete k m"

definition hm_ok :: "('k, 'v) hash_map \<Rightarrow> bool" where
  "hm_ok m \<longleftrightarrow> distinct (map fst m)"

definition hm_has :: "('k, 'v) hash_map \<Rightarrow> 'k \<Rightarrow> bool" where
  "hm_has m k \<longleftrightarrow> hm_get m k \<noteq> None"

definition hm_retain :: "('k \<Rightarrow> 'v \<Rightarrow> bool) \<Rightarrow> ('k, 'v) hash_map \<Rightarrow> ('k, 'v) hash_map" where
  "hm_retain P m = filter (\<lambda>(k, v). P k v) m"

text \<open>\<open>if let Some(v) = m.get_mut(&k) { .. }\<close>\<close>

definition hm_modify :: "'k \<Rightarrow> ('v \<Rightarrow> 'v) \<Rightarrow> ('k, 'v) hash_map \<Rightarrow> ('k, 'v) hash_map" where
  "hm_modify k f m = map (\<lambda>(k', v). (k', if k' = k then f v else v)) m"

interpretation hm: rust_map hm_get hm_put hm_remove "\<lambda>m. m" hm_ok
proof unfold_locales
  fix m :: "('k, 'v) hash_map" and k v
  show "hm_get (hm_put k v m) = (hm_get m)(k \<mapsto> v)" by (simp add: update_conv')
  show "hm_get (hm_remove k m) = (hm_get m)(k := None)" by (simp add: delete_conv')
  show "hm_ok m \<Longrightarrow> distinct (map fst m)" by (simp add: hm_ok_def)
  show "hm_ok m \<Longrightarrow> hm_ok (hm_put k v m)" by (simp add: hm_ok_def distinct_update)
  show "hm_ok m \<Longrightarrow> hm_ok (hm_remove k m)" by (simp add: hm_ok_def distinct_delete)
qed simp

lemma hm_ok_Nil [simp]: "hm_ok []"
  by (simp add: hm_ok_def)

lemma hm_has_put [simp]: "hm_has (hm_put k v m) j \<longleftrightarrow> j = k \<or> hm_has m j"
  by (auto simp: hm_has_def update_conv')

lemma hm_has_remove [simp]: "hm_has (hm_remove k m) j \<longleftrightarrow> j \<noteq> k \<and> hm_has m j"
  by (auto simp: hm_has_def delete_conv')

lemma hm_keys_modify [simp]: "map fst (hm_modify k f m) = map fst m"
  by (induction m) (auto simp: hm_modify_def)

lemma hm_ok_modify [simp]: "hm_ok (hm_modify k f m) = hm_ok m"
  by (simp add: hm_ok_def)

lemma hm_get_modify [simp]:
  "hm_get (hm_modify k f m) j = (if j = k then map_option f (hm_get m k) else hm_get m j)"
  by (induction m) (auto simp: hm_modify_def)

lemma hm_has_modify [simp]: "hm_has (hm_modify k f m) j = hm_has m j"
  by (auto simp: hm_has_def)

lemma hm_ok_retain [simp]: "hm_ok m \<Longrightarrow> hm_ok (hm_retain P m)"
  by (induction m) (auto simp: hm_ok_def hm_retain_def)

lemma hm_get_retain:
  "hm_ok m \<Longrightarrow> hm_get (hm_retain P m) k =
     (case hm_get m k of None \<Rightarrow> None | Some v \<Rightarrow> if P k v then Some v else None)"
proof (induction m)
  case (Cons e m)
  obtain j w where e: "e = (j, w)" by (cases e)
  from Cons.prems e have ok: "hm_ok m" and nj: "hm_get m j = None"
    by (auto simp: hm_ok_def map_of_eq_None_iff)
  show ?case using Cons.IH [OF ok] nj e
    by (cases "j = k") (auto simp: hm_retain_def)
qed (simp add: hm_retain_def)

lemma hm_keys_retain: "set (map fst (hm_retain P m)) \<subseteq> set (map fst m)"
  by (auto simp: hm_retain_def)

text \<open>\<open>BTreeMap\<close>: insertion keeps the keys ascending.\<close>

type_synonym ('k, 'v) btree_map = "('k \<times> 'v) list"

definition bt_ok :: "('k::linorder, 'v) btree_map \<Rightarrow> bool" where
  "bt_ok m \<longleftrightarrow> sorted_wrt (<) (map fst m)"

fun bt_put :: "'k::linorder \<Rightarrow> 'v \<Rightarrow> ('k, 'v) btree_map \<Rightarrow> ('k, 'v) btree_map" where
  "bt_put k v [] = [(k, v)]"
| "bt_put k v ((j, w) # m) =
     (if k < j then (k, v) # (j, w) # m
      else if k = j then (k, v) # m
      else (j, w) # bt_put k v m)"

text \<open>\<open>split_off(&k)\<close>: the part at or above \<open>k\<close>.\<close>

definition bt_split_off :: "'k::linorder \<Rightarrow> ('k, 'v) btree_map \<Rightarrow> ('k, 'v) btree_map" where
  "bt_split_off k m = filter (\<lambda>(j, _). k \<le> j) m"

lemma bt_distinct: "bt_ok m \<Longrightarrow> distinct (map fst m)"
  by (simp add: bt_ok_def strict_sorted_iff)

lemma set_bt_put: "set (map fst (bt_put k v m)) = insert k (set (map fst m))"
proof (induction m)
  case (Cons e m)
  then show ?case by (cases e) auto
qed simp

lemma bt_get_above: "bt_ok ((j, w) # m) \<Longrightarrow> k < j \<Longrightarrow> map_of m k = None"
  by (force simp: bt_ok_def map_of_eq_None_iff)

lemma bt_get_put: "bt_ok m \<Longrightarrow> map_of (bt_put k v m) = (map_of m)(k \<mapsto> v)"
proof (induction m)
  case (Cons e m)
  obtain j w where e: "e = (j, w)" by (cases e)
  with Cons.prems have "bt_ok m" by (simp add: bt_ok_def)
  with Cons.IH e show ?case by (auto simp: fun_eq_iff)
qed simp

lemma bt_ok_put: "bt_ok m \<Longrightarrow> bt_ok (bt_put k v m)"
proof (induction m)
  case (Cons e m)
  obtain j w where e: "e = (j, w)" by (cases e)
  with Cons.prems have "bt_ok m" and above: "\<forall>i \<in> set (map fst m). j < i"
    by (auto simp: bt_ok_def)
  then have IH: "bt_ok (bt_put k v m)" using Cons.IH by simp
  have keys: "set (map fst (bt_put k v m)) = insert k (set (map fst m))" by (rule set_bt_put)
  have "bt_ok ((j, w) # bt_put k v m)" if "j < k"
    unfolding bt_ok_def list.map sorted_wrt.simps(2) keys
    using IH above that by (simp add: bt_ok_def)
  with Cons.prems above e show ?case
    by (auto simp: bt_ok_def)
qed (simp add: bt_ok_def)

lemma bt_ok_filter: "bt_ok m \<Longrightarrow> bt_ok (filter P m)"
  unfolding bt_ok_def by (induction m) auto

lemma bt_ok_remove: "bt_ok m \<Longrightarrow> bt_ok (AList.delete k m)"
  unfolding AList.delete_eq by (rule bt_ok_filter)

interpretation bt: rust_map map_of bt_put AList.delete "\<lambda>m. m" bt_ok
  by unfold_locales
    (simp_all add: bt_get_put delete_conv' bt_distinct bt_ok_put bt_ok_remove)

lemma bt_ok_Nil [simp]: "bt_ok []"
  by (simp add: bt_ok_def)

lemma bt_ok_split_off: "bt_ok m \<Longrightarrow> bt_ok (bt_split_off k m)"
  unfolding bt_split_off_def by (rule bt_ok_filter)

lemma bt_get_split_off: "map_of (bt_split_off k m) j = (if k \<le> j then map_of m j else None)"
  by (induction m) (auto simp: bt_split_off_def)

subsection \<open>Sets\<close>

text \<open>\<open>HashSet\<close> as a list without repetition.\<close>

definition hs_insert :: "'a \<Rightarrow> 'a list \<Rightarrow> 'a list" where
  "hs_insert x s = (if x \<in> set s then s else s @ [x])"

definition hs_remove :: "'a \<Rightarrow> 'a list \<Rightarrow> 'a list" where
  "hs_remove x s = filter (\<lambda>y. y \<noteq> x) s"

lemma set_hs_insert [simp]: "set (hs_insert x s) = insert x (set s)"
  by (auto simp: hs_insert_def)

lemma set_hs_remove [simp]: "set (hs_remove x s) = set s - {x}"
  by (auto simp: hs_remove_def)

lemma distinct_hs_insert [simp]: "distinct s \<Longrightarrow> distinct (hs_insert x s)"
  by (simp add: hs_insert_def)

lemma distinct_hs_remove [simp]: "distinct s \<Longrightarrow> distinct (hs_remove x s)"
  by (simp add: hs_remove_def)

lemma length_hs_insert: "length (hs_insert x s) = (if x \<in> set s then length s else Suc (length s))"
  by (simp add: hs_insert_def)

lemma length_hs_remove_le: "length (hs_remove x s) \<le> length s"
  by (simp add: hs_remove_def)

end
