(* ===== verification/Scale.thy ===== *)
theory Scale
  imports Prelude
begin

unbundle bit_operations_syntax

section \<open>SCALE encoding\<close>

text \<open>
  The wire types derive their encoding from the \<open>parity-scale-codec\<close> crate, which is not
  part of the repository. Its fixed-width integers and its compact length prefix are
  therefore parameters: the record \<open>scale\<close>, whose documented behaviour (decoding an
  encoding gives the value back and leaves the bytes after it) is the locale
  \<open>scale_codec\<close>. The layouts the derive macros document are composed from them here: an
  enum is its one-byte index and its fields in order, an \<open>Option\<close> a tag byte, an array
  its bytes, a \<open>Vec\<close> or \<open>String\<close> a compact length and its elements. A decoder returns the
  rest of its input, so decoders chain. \<open>scale_le\<close> is a concrete instance, the
  little-endian format SCALE specifies.
\<close>

record scale =
  enc_u16 :: "u16 \<Rightarrow> bytes"
  dec_u16 :: "bytes \<Rightarrow> (u16 \<times> bytes) option"
  enc_u32 :: "u32 \<Rightarrow> bytes"
  dec_u32 :: "bytes \<Rightarrow> (u32 \<times> bytes) option"
  enc_u64 :: "u64 \<Rightarrow> bytes"
  dec_u64 :: "bytes \<Rightarrow> (u64 \<times> bytes) option"
  enc_compact :: "u32 \<Rightarrow> bytes"
  dec_compact :: "bytes \<Rightarrow> (u32 \<times> bytes) option"

subsection \<open>The codec interface\<close>

fun dec_seq :: "(bytes \<Rightarrow> ('a \<times> bytes) option) \<Rightarrow> nat \<Rightarrow> bytes \<Rightarrow> ('a list \<times> bytes) option" where
  "dec_seq d 0 r = Some ([], r)"
| "dec_seq d (Suc n) r = do {
     (x, r) \<leftarrow> d r;
     (xs, r) \<leftarrow> dec_seq d n r;
     Some (x # xs, r)
   }"

definition enc_option :: "('a \<Rightarrow> bytes) \<Rightarrow> 'a option \<Rightarrow> bytes" where
  "enc_option e o' = (case o' of None \<Rightarrow> [0] | Some x \<Rightarrow> 1 # e x)"

fun dec_option :: "(bytes \<Rightarrow> ('a \<times> bytes) option) \<Rightarrow> bytes \<Rightarrow> ('a option \<times> bytes) option" where
  "dec_option d [] = None"
| "dec_option d (b # r) =
     (if b = 0 then Some (None, r)
      else if b = 1 then map_option (\<lambda>(x, r). (Some x, r)) (d r)
      else None)"

locale byte_codec =
  fixes enc :: "'a \<Rightarrow> bytes"
    and dec :: "bytes \<Rightarrow> ('a \<times> bytes) option"
    and wf :: "'a \<Rightarrow> bool"
  assumes dec_enc: "wf x \<Longrightarrow> dec (enc x @ r) = Some (x, r)"
begin

lemma dec_enc_all: "wf x \<Longrightarrow> dec (enc x) = Some (x, [])"
  using dec_enc [of x "[]"] by simp

lemma enc_inj: "wf x \<Longrightarrow> wf y \<Longrightarrow> enc x = enc y \<Longrightarrow> x = y"
  by (metis dec_enc_all option.inject prod.inject)

text \<open>No encoding is a proper prefix of another: concatenated fields split one way only.\<close>

lemma enc_prefix_free: "wf x \<Longrightarrow> wf y \<Longrightarrow> enc x @ r = enc y @ s \<Longrightarrow> x = y \<and> r = s"
  by (metis dec_enc option.inject prod.inject)

lemma dec_seq_enc: "list_all wf xs \<Longrightarrow> dec_seq dec (length xs) (concat (map enc xs) @ r) = Some (xs, r)"
  by (induction xs) (simp_all add: dec_enc)

lemma dec_option_enc:
  "pred_option wf v \<Longrightarrow> dec_option dec (enc_option enc v @ r) = Some (v, r)"
  by (cases v) (simp_all add: enc_option_def dec_enc)

end

subsection \<open>Bytes, flags, arrays\<close>

fun dec_byte :: "bytes \<Rightarrow> (u8 \<times> bytes) option" where
  "dec_byte [] = None"
| "dec_byte (b # r) = Some (b, r)"

definition enc_bool :: "bool \<Rightarrow> bytes" where
  "enc_bool b = [if b then 1 else 0]"

fun dec_bool :: "bytes \<Rightarrow> (bool \<times> bytes) option" where
  "dec_bool [] = None"
| "dec_bool (b # r) = (if b = 0 then Some (False, r) else if b = 1 then Some (True, r) else None)"

definition dec_array :: "nat \<Rightarrow> bytes \<Rightarrow> (bytes \<times> bytes) option" where
  "dec_array n r = (if length r < n then None else Some (take n r, drop n r))"

lemma dec_bool_enc [simp]: "dec_bool (enc_bool b @ r) = Some (b, r)"
  by (simp add: enc_bool_def)

lemma dec_array_app [simp]: "length x = n \<Longrightarrow> dec_array n (x @ r) = Some (x, r)"
  by (simp add: dec_array_def)

subsection \<open>Vectors and strings\<close>

definition enc_len :: "('s) scale_scheme \<Rightarrow> nat \<Rightarrow> bytes" where
  "enc_len sc n = enc_compact sc (of_nat n)"

definition enc_vec :: "'s scale_scheme \<Rightarrow> ('a \<Rightarrow> bytes) \<Rightarrow> 'a list \<Rightarrow> bytes" where
  "enc_vec sc e xs = enc_len sc (length xs) @ concat (map e xs)"

definition dec_vec :: "'s scale_scheme \<Rightarrow> (bytes \<Rightarrow> ('a \<times> bytes) option) \<Rightarrow> bytes \<Rightarrow> ('a list \<times> bytes) option" where
  "dec_vec sc d r = do { (n, r) \<leftarrow> dec_compact sc r; dec_seq d (unat n) r }"

definition enc_bytes :: "'s scale_scheme \<Rightarrow> bytes \<Rightarrow> bytes" where
  "enc_bytes sc bs = enc_len sc (length bs) @ bs"

definition dec_bytes :: "'s scale_scheme \<Rightarrow> bytes \<Rightarrow> (bytes \<times> bytes) option" where
  "dec_bytes sc r = do { (n, r) \<leftarrow> dec_compact sc r; dec_array (unat n) r }"

text \<open>A Rust \<open>String\<close> is its UTF-8 bytes; decoding one checks them (RFC 3629).\<close>

definition utf8_cont :: "u8 \<Rightarrow> bool" where
  "utf8_cont b \<longleftrightarrow> 0x80 \<le> b \<and> b \<le> 0xBF"

fun utf8_valid :: "bytes \<Rightarrow> bool" where
  "utf8_valid [] = True"
| "utf8_valid (a # r) =
     (if a < 0x80 then utf8_valid r
      else if 0xC2 \<le> a \<and> a \<le> 0xDF then
        (case r of b # r' \<Rightarrow> utf8_cont b \<and> utf8_valid r' | _ \<Rightarrow> False)
      else if 0xE0 \<le> a \<and> a \<le> 0xEF then
        (case r of b # c # r' \<Rightarrow> utf8_cont b \<and> utf8_cont c
            \<and> (a = 0xE0 \<longrightarrow> 0xA0 \<le> b) \<and> (a = 0xED \<longrightarrow> b \<le> 0x9F) \<and> utf8_valid r' | _ \<Rightarrow> False)
      else if 0xF0 \<le> a \<and> a \<le> 0xF4 then
        (case r of b # c # d # r' \<Rightarrow> utf8_cont b \<and> utf8_cont c \<and> utf8_cont d
            \<and> (a = 0xF0 \<longrightarrow> 0x90 \<le> b) \<and> (a = 0xF4 \<longrightarrow> b \<le> 0x8F) \<and> utf8_valid r' | _ \<Rightarrow> False)
      else False)"

definition dec_string :: "'s scale_scheme \<Rightarrow> bytes \<Rightarrow> (bytes \<times> bytes) option" where
  "dec_string sc r = do { (s, r) \<leftarrow> dec_bytes sc r; if utf8_valid s then Some (s, r) else None }"

definition wf_bytes :: "bytes \<Rightarrow> bool" where
  "wf_bytes bs \<longleftrightarrow> length bs < 2 ^ 32"

definition wf_string :: "bytes \<Rightarrow> bool" where
  "wf_string s \<longleftrightarrow> wf_bytes s \<and> utf8_valid s"

definition wf_vec :: "('a \<Rightarrow> bool) \<Rightarrow> 'a list \<Rightarrow> bool" where
  "wf_vec P xs \<longleftrightarrow> length xs < 2 ^ 32 \<and> list_all P xs"

subsection \<open>The documented behaviour of the primitives\<close>

locale scale_codec =
  fixes sc :: "'s scale_scheme"
  assumes u16: "dec_u16 sc (enc_u16 sc a @ r) = Some (a, r)"
    and u32: "dec_u32 sc (enc_u32 sc b @ r) = Some (b, r)"
    and u64: "dec_u64 sc (enc_u64 sc c @ r) = Some (c, r)"
    and compact: "dec_compact sc (enc_compact sc b @ r) = Some (b, r)"
begin

lemma dec_len: "n < 2 ^ 32 \<Longrightarrow>
    dec_compact sc (enc_len sc n @ r) = Some (of_nat n, r) \<and> unat (of_nat n :: u32) = n"
  by (simp add: enc_len_def compact unat_of_nat_exact)

lemma dec_bytes_enc: "wf_bytes bs \<Longrightarrow> dec_bytes sc (enc_bytes sc bs @ r) = Some (bs, r)"
  by (simp add: wf_bytes_def dec_bytes_def enc_bytes_def dec_len)

lemma dec_string_enc: "wf_string s \<Longrightarrow> dec_string sc (enc_bytes sc s @ r) = Some (s, r)"
  by (simp add: wf_string_def dec_string_def dec_bytes_enc)

lemma dec_vec_enc:
  assumes "byte_codec e d w" and "wf_vec w xs"
  shows "dec_vec sc d (enc_vec sc e xs @ r) = Some (xs, r)"
  using assms byte_codec.dec_seq_enc [OF assms(1)]
  by (simp add: wf_vec_def dec_vec_def enc_vec_def dec_len)

sublocale c16: byte_codec "enc_u16 sc" "dec_u16 sc" "\<lambda>_. True"
  by unfold_locales (rule u16)

sublocale c32: byte_codec "enc_u32 sc" "dec_u32 sc" "\<lambda>_. True"
  by unfold_locales (rule u32)

sublocale c64: byte_codec "enc_u64 sc" "dec_u64 sc" "\<lambda>_. True"
  by unfold_locales (rule u64)

sublocale cstr: byte_codec "enc_bytes sc" "dec_string sc" wf_string
  by unfold_locales (rule dec_string_enc)

sublocale cbytes: byte_codec "enc_bytes sc" "dec_bytes sc" wf_bytes
  by unfold_locales (rule dec_bytes_enc)

lemma dec_vec_u64: "length xs < 2 ^ 32 \<Longrightarrow>
    dec_vec sc (dec_u64 sc) (enc_vec sc (enc_u64 sc) xs @ r) = Some (xs, r)"
  by (rule dec_vec_enc [OF c64.byte_codec_axioms]) (simp add: wf_vec_def list_all_iff)

lemma dec_vec_array: "wf_vec (\<lambda>x. length x = n) xs \<Longrightarrow>
    dec_vec sc (dec_array n) (enc_vec sc (\<lambda>x. x) xs @ r) = Some (xs, r)"
  by (rule dec_vec_enc [OF byte_codec.intro]) simp_all

lemmas scale_laws = u16 u32 u64 compact dec_bytes_enc dec_string_enc dec_vec_u64 dec_vec_array
  cstr.dec_option_enc

end

subsection \<open>The format of the specification\<close>

definition dec_le :: "nat \<Rightarrow> bytes \<Rightarrow> ('a::len word \<times> bytes) option" where
  "dec_le n r = (if length r < n then None else Some (of_nat (nat_of_le (take n r)), drop n r))"

definition enc_compact_le :: "u32 \<Rightarrow> bytes" where
  "enc_compact_le w = (let n = unat w in
     if n < 2 ^ 6 then le_of_nat 1 (4 * n)
     else if n < 2 ^ 14 then le_of_nat 2 (4 * n + 1)
     else if n < 2 ^ 30 then le_of_nat 4 (4 * n + 2)
     else 3 # le_of_nat 4 n)"

definition dec_compact_le :: "bytes \<Rightarrow> (u32 \<times> bytes) option" where
  "dec_compact_le r = (case r of
       [] \<Rightarrow> None
     | b # r' \<Rightarrow>
        (if unat b mod 4 = 0 then Some (of_nat (unat b div 4), r')
         else if unat b mod 4 = 1 then
           (if length r < 2 then None else Some (of_nat (nat_of_le (take 2 r) div 4), drop 2 r))
         else if unat b mod 4 = 2 then
           (if length r < 4 then None else Some (of_nat (nat_of_le (take 4 r) div 4), drop 4 r))
         else if b = 3 then dec_le 4 r'
         else None))"

definition scale_le :: scale where
  "scale_le = \<lparr>
     enc_u16 = (\<lambda>w. le_of_nat 2 (unat w)), dec_u16 = dec_le 2,
     enc_u32 = (\<lambda>w. le_of_nat 4 (unat w)), dec_u32 = dec_le 4,
     enc_u64 = (\<lambda>w. le_of_nat 8 (unat w)), dec_u64 = dec_le 8,
     enc_compact = enc_compact_le, dec_compact = dec_compact_le\<rparr>"

lemma hd_le_mod4:
  assumes "0 < n" and "k mod 4 = m"
  shows "unat (hd (le_of_nat n k)) mod 4 = m"
proof -
  obtain n' where "n = Suc n'" using assms by (cases n) auto
  moreover have "unat (of_nat (k mod 256) :: u8) = k mod 256" by (simp add: unat_of_nat)
  moreover have "k mod 256 mod 4 = k mod 4" by (simp add: mod_mod_cancel)
  ultimately show ?thesis using assms by simp
qed

text \<open>A compact integer in the mode that uses \<open>n\<close> bytes with low bits \<open>m\<close>.\<close>

lemma compact_le_mode:
  assumes "0 < n" and "4 * k + m < 256 ^ n" and "m < 4"
  obtains b t where "le_of_nat n (4 * k + m) = b # t" and "unat b mod 4 = m"
    and "length t = n - 1" and "nat_of_le (b # t) div 4 = k"
proof -
  obtain b t where bt: "le_of_nat n (4 * k + m) = b # t"
    using assms(1) by (cases n) auto
  have "unat b mod 4 = m" using hd_le_mod4 [of n "4 * k + m" m] assms bt by simp
  moreover have "length t = n - 1" using length_le_of_nat [of n "4 * k + m"] bt by simp
  moreover have "nat_of_le (b # t) = 4 * k + m"
    using assms nat_of_le_of_nat [of n "4 * k + m"] by (simp add: bt [symmetric])
  ultimately show ?thesis using that bt assms by (simp del: nat_of_le.simps)
qed

lemma dec_compact_le_enc: "dec_compact_le (enc_compact_le w @ r) = Some (w, r)"
proof -
  let ?n = "unat w"
  have n32: "?n < 2 ^ 32" using unat_less_2p [of w] by simp
  consider "?n < 2 ^ 6" | "2 ^ 6 \<le> ?n" "?n < 2 ^ 14" | "2 ^ 14 \<le> ?n" "?n < 2 ^ 30" | "2 ^ 30 \<le> ?n"
    by linarith
  then show ?thesis
  proof cases
    case 1
    obtain b t where "le_of_nat 1 (4 * ?n + 0) = b # t" "unat b mod 4 = 0"
      "length t = 1 - 1" "nat_of_le (b # t) div 4 = ?n"
      by (rule compact_le_mode [of 1 ?n 0]) (use 1 in simp_all)
    then show ?thesis using 1 by (simp add: enc_compact_le_def dec_compact_le_def)
  next
    case 2
    obtain b t where bt: "le_of_nat 2 (4 * ?n + 1) = b # t" "unat b mod 4 = 1"
      "length t = 2 - 1" "nat_of_le (b # t) div 4 = ?n"
      by (rule compact_le_mode [of 2 ?n 1]) (use 2 in simp_all)
    then show ?thesis using 2
      by (simp add: enc_compact_le_def dec_compact_le_def del: le_of_nat.simps)
  next
    case 3
    obtain b t where bt: "le_of_nat 4 (4 * ?n + 2) = b # t" "unat b mod 4 = 2"
      "length t = 4 - 1" "nat_of_le (b # t) div 4 = ?n"
      by (rule compact_le_mode [of 4 ?n 2]) (use 3 in simp_all)
    then show ?thesis using 3
      by (simp add: enc_compact_le_def dec_compact_le_def del: le_of_nat.simps)
  next
    case 4
    then show ?thesis
      using le_roundtrip32 [of w]
      by (simp add: enc_compact_le_def dec_compact_le_def dec_le_def)
  qed
qed

interpretation scale_le: scale_codec scale_le
  by unfold_locales (simp_all add: scale_le_def dec_le_def dec_compact_le_enc)

end
