(* ===== verification/Crypto.thy ===== *)
theory Crypto
  imports Scale
begin

unbundle bit_operations_syntax

section \<open>Content addressing, signatures and sealing\<close>

text \<open>
  Models \<open>src/crates/unstation-core/src/crypto.rs\<close> and the identifier types. The
  primitives (BLAKE2b, schnorrkel, X25519, XChaCha20-Poly1305) come from crates outside
  the repository: they are the extra fields of the record \<open>libs\<close>. Nothing is assumed of
  them in the definitions; the predicates \<open>aead_ok\<close>, \<open>dh_ok\<close> and \<open>sign_ok\<close> state the documented
  behaviour that callers rely on, as hypotheses of the properties that need it. A nonce drawn from \<open>OsRng\<close> is an argument.
\<close>

type_synonym peer_id = bytes
type_synonym stream_id = bytes
type_synonym segment_id = bytes
type_synonym topic_id = bytes

record libs = scale +
  blake2b256 :: "bytes \<Rightarrow> bytes"
  pk_parses :: "bytes \<Rightarrow> bool"
  sig_parses :: "bytes \<Rightarrow> bool"
  sr_verify :: "bytes \<Rightarrow> bytes \<Rightarrow> bytes \<Rightarrow> bytes \<Rightarrow> bool"
  sr_sign :: "bytes \<Rightarrow> bytes \<Rightarrow> bytes \<Rightarrow> bytes"
  x25519_public :: "bytes \<Rightarrow> bytes"
  x25519_dh :: "bytes \<Rightarrow> bytes \<Rightarrow> bytes"
  aead_encrypt :: "bytes \<Rightarrow> bytes \<Rightarrow> bytes \<Rightarrow> bytes"
  aead_decrypt :: "bytes \<Rightarrow> bytes \<Rightarrow> bytes \<Rightarrow> bytes option"

abbreviation zeros32 :: bytes where
  "zeros32 \<equiv> replicate 32 0"

text \<open>ASCII bytes of a label, \<open>b"..."\<close> in the source.\<close>

definition ascii :: "string \<Rightarrow> bytes" where
  "ascii s = map (\<lambda>c. of_nat (of_char c)) s"

definition peer_from_u64 :: "u64 \<Rightarrow> peer_id" where
  "peer_from_u64 n = le_of_nat 8 (unat n) @ replicate 24 0"

definition segment_id_of :: "libs \<Rightarrow> bytes \<Rightarrow> segment_id" where
  "segment_id_of L bs = blake2b256 L bs"

definition verify_segment :: "libs \<Rightarrow> bytes \<Rightarrow> segment_id \<Rightarrow> bool" where
  "verify_segment L bs i \<longleftrightarrow> blake2b256 L bs = i"

definition MANIFEST_CONTEXT :: bytes where
  "MANIFEST_CONTEXT = ascii ''unstation-manifest''"

definition verify_sr25519_ctx :: "libs \<Rightarrow> bytes \<Rightarrow> bytes \<Rightarrow> bytes \<Rightarrow> bytes \<Rightarrow> bool" where
  "verify_sr25519_ctx L ctx pubkey msg sg =
     (if \<not> pk_parses L pubkey then False
      else if \<not> sig_parses L sg then False
      else sr_verify L ctx pubkey msg sg)"

definition verify_sr25519 :: "libs \<Rightarrow> bytes \<Rightarrow> bytes \<Rightarrow> bytes \<Rightarrow> bool" where
  "verify_sr25519 L pubkey msg sg = verify_sr25519_ctx L MANIFEST_CONTEXT pubkey msg sg"

definition sign_sr25519_ctx :: "libs \<Rightarrow> bytes \<Rightarrow> bytes \<Rightarrow> bytes \<Rightarrow> bytes" where
  "sign_sr25519_ctx L kp ctx msg = sr_sign L kp ctx msg"

definition sign_sr25519 :: "libs \<Rightarrow> bytes \<Rightarrow> bytes \<Rightarrow> bytes" where
  "sign_sr25519 L kp msg = sign_sr25519_ctx L kp MANIFEST_CONTEXT msg"

definition ENC_KDF_LABEL :: bytes where
  "ENC_KDF_LABEL = ascii ''unstation-x25519-enc-v1''"

definition SEAL_KDF_LABEL :: bytes where
  "SEAL_KDF_LABEL = ascii ''unstation-seal-v1''"

definition SEGMENT_KDF_LABEL :: bytes where
  "SEGMENT_KDF_LABEL = ascii ''unstation-segment-v1''"

definition enc_keypair_from_seed :: "libs \<Rightarrow> bytes \<Rightarrow> bytes \<times> bytes" where
  "enc_keypair_from_seed L seed =
     (let sk = blake2b256 L (ENC_KDF_LABEL @ seed) in (sk, x25519_public L sk))"

definition enc_public_from_seed :: "libs \<Rightarrow> bytes \<Rightarrow> bytes" where
  "enc_public_from_seed L seed = snd (enc_keypair_from_seed L seed)"

definition seal_key :: "libs \<Rightarrow> bytes \<Rightarrow> bytes" where
  "seal_key L shared = blake2b256 L (SEAL_KDF_LABEL @ shared)"

definition seal :: "libs \<Rightarrow> bytes \<Rightarrow> bytes \<Rightarrow> bytes \<Rightarrow> bytes \<Rightarrow> bytes" where
  "seal L nonce recipient_pub sender_secret plaintext =
     (let shared = x25519_dh L sender_secret recipient_pub
      in nonce @ aead_encrypt L (seal_key L shared) nonce plaintext)"

definition open_sealed :: "libs \<Rightarrow> bytes \<Rightarrow> bytes \<Rightarrow> bytes \<Rightarrow> bytes option" where
  "open_sealed L sender_pub recipient_secret sealed =
     (if length sealed < 24 + 16 then None
      else let shared = x25519_dh L recipient_secret sender_pub
           in aead_decrypt L (seal_key L shared) (take 24 sealed) (drop 24 sealed))"

definition segment_key :: "libs \<Rightarrow> bytes \<Rightarrow> bytes" where
  "segment_key L k = blake2b256 L (SEGMENT_KDF_LABEL @ k)"

definition seal_segment :: "libs \<Rightarrow> bytes \<Rightarrow> bytes \<Rightarrow> bytes \<Rightarrow> bytes" where
  "seal_segment L nonce k plaintext = nonce @ aead_encrypt L (segment_key L k) nonce plaintext"

definition open_segment :: "libs \<Rightarrow> bytes \<Rightarrow> bytes \<Rightarrow> bytes option" where
  "open_segment L k sealed =
     (if length sealed < 24 + 16 then None
      else aead_decrypt L (segment_key L k) (take 24 sealed) (drop 24 sealed))"

text \<open>\<open>format!("{x:02x}")\<close>\<close>

definition hex_digit :: "nat \<Rightarrow> char" where
  "hex_digit n = (if n < 10 then char_of (48 + n) else char_of (87 + n))"

definition hex_byte :: "u8 \<Rightarrow> string" where
  "hex_byte b = [hex_digit (unat b div 16), hex_digit (unat b mod 16)]"

definition hex32 :: "bytes \<Rightarrow> string" where
  "hex32 b = concat (map hex_byte b)"

subsection \<open>What the sealing functions rely on\<close>

text \<open>
  Authenticated encryption: a ciphertext opens under the key and nonce it was made with,
  and it is sixteen bytes (the tag) longer than the plaintext.
\<close>

definition aead_ok :: "libs \<Rightarrow> bool" where
  "aead_ok L \<longleftrightarrow>
     (\<forall>key nonce p. aead_decrypt L key nonce (aead_encrypt L key nonce p) = Some p
        \<and> length (aead_encrypt L key nonce p) = length p + 16)"

text \<open>Static Diffie-Hellman: both ends derive the same secret.\<close>

definition dh_ok :: "libs \<Rightarrow> bool" where
  "dh_ok L \<longleftrightarrow> (\<forall>a b. x25519_dh L a (x25519_public L b) = x25519_dh L b (x25519_public L a))"

text \<open>A signature made with the key of \<open>pk\<close> verifies under the same context.\<close>

definition sign_ok :: "libs \<Rightarrow> bytes \<Rightarrow> bytes \<Rightarrow> bool" where
  "sign_ok L kp pk \<longleftrightarrow> pk_parses L pk \<and>
     (\<forall>ctx m. sig_parses L (sr_sign L kp ctx m) \<and> sr_verify L ctx pk m (sr_sign L kp ctx m))"

subsection \<open>Toy primitives\<close>

text \<open>
  A concrete library with the documented laws: BLAKE2b replaced by a fixed-length
  rearrangement, the AEAD by a tagged identity, key agreement by a sum. It shows that the
  hypotheses of the properties can hold; no property depends on it.
\<close>

definition toy_hash :: "bytes \<Rightarrow> bytes" where
  "toy_hash bs = le_of_nat 32 (foldl (\<lambda>h b. h * 257 + unat b + 1) 7 bs)"

definition toy_decrypt :: "bytes \<Rightarrow> bytes \<Rightarrow> bytes \<Rightarrow> bytes option" where
  "toy_decrypt key nonce ct =
     (if 16 \<le> length ct \<and> drop (length ct - 16) ct = take 16 (key @ nonce @ replicate 16 0)
      then Some (take (length ct - 16) ct) else None)"

definition toy_libs :: libs where
  "toy_libs = scale.extend scale_le \<lparr>
     blake2b256 = toy_hash,
     pk_parses = (\<lambda>pk. length pk = 32),
     sig_parses = (\<lambda>s. length s = 64),
     sr_verify = (\<lambda>ctx pk m s. s = toy_hash (ctx @ pk) @ toy_hash m),
     sr_sign = (\<lambda>kp ctx m. toy_hash (ctx @ kp) @ toy_hash m),
     x25519_public = (\<lambda>sk. sk),
     x25519_dh = (\<lambda>a b. toy_hash (map2 (+) a b)),
     aead_encrypt = (\<lambda>key nonce p. p @ take 16 (key @ nonce @ replicate 16 0)),
     aead_decrypt = toy_decrypt\<rparr>"

lemma toy_aead_ok: "aead_ok toy_libs"
proof -
  have "length (take 16 (key @ nonce @ replicate 16 0)) = 16" for key nonce :: bytes
    by (simp del: take_append)
  moreover have "take (length p) (p @ q) = p" for p q :: bytes by simp
  ultimately show ?thesis
    by (simp add: aead_ok_def toy_libs_def toy_decrypt_def scale.defs del: take_append length_take)
qed

lemma toy_dh_ok: "dh_ok toy_libs"
proof -
  have "map2 (+) a b = map2 (+) b (a :: bytes)" for a b
    by (rule nth_equalityI) (simp_all add: add.commute)
  then show ?thesis by (simp add: dh_ok_def toy_libs_def scale.defs)
qed

lemma length_toy_hash [simp]: "length (toy_hash b) = 32"
  by (simp add: toy_hash_def)

lemma toy_sign_ok: "length pk = 32 \<Longrightarrow> sign_ok toy_libs pk pk"
  by (simp add: sign_ok_def toy_libs_def scale.defs)

interpretation toy_scale: scale_codec toy_libs
  by unfold_locales
    (simp_all add: toy_libs_def scale_le_def dec_le_def dec_compact_le_enc scale.defs)

subsection \<open>Sealing\<close>

lemma open_seal:
  assumes "aead_ok L" and "dh_ok L" and "length nonce = 24"
  shows "open_sealed L (x25519_public L a) b (seal L nonce (x25519_public L b) a msg) = Some msg"
proof -
  have "x25519_dh L b (x25519_public L a) = x25519_dh L a (x25519_public L b)"
    using assms(2) unfolding dh_ok_def by blast
  then show ?thesis
    using assms(1,3) by (simp add: open_sealed_def seal_def aead_ok_def Let_def)
qed

lemma length_seal: "aead_ok L \<Longrightarrow> length (seal L nonce pk a msg) = length nonce + length msg + 16"
  by (simp add: seal_def Let_def aead_ok_def)

text \<open>
  an envelope sealed to a recipient opens with the recipient's secret and the
  sender's public key, given a correct AEAD and a symmetric key agreement; an envelope
  shorter than nonce and tag never opens.
\<close>

theorem seal_open:
  assumes "aead_ok L" and "dh_ok L" and "length nonce = 24"
  shows "open_sealed L (x25519_public L a) b (seal L nonce (x25519_public L b) a msg) = Some msg
    \<and> open_sealed L pk b (take 39 (seal L nonce (x25519_public L b) a msg)) = None"
  by (intro conjI, rule open_seal [OF assms]) (simp add: open_sealed_def min_less_iff_disj)

theorem seal_open_witness:
  "open_sealed toy_libs (x25519_public toy_libs [1, 2]) [3, 4]
     (seal toy_libs (replicate 24 9) (x25519_public toy_libs [3, 4]) [1, 2] [118, 61, 48])
   = Some [118, 61, 48]"
  using seal_open [OF toy_aead_ok toy_dh_ok, of "replicate 24 9" "[1, 2]" "[3, 4]" "[118, 61, 48]" "[]"]
  by simp

text \<open>
  a segment sealed with the stream key opens with that key to the plaintext, and the
  content id of what the mesh carries is the hash of the ciphertext.
\<close>

theorem segment_seal_open:
  assumes "aead_ok L" and "length nonce = 24"
  shows "open_segment L k (seal_segment L nonce k frag) = Some frag
    \<and> verify_segment L (seal_segment L nonce k frag) (segment_id_of L (seal_segment L nonce k frag))
    \<and> length (seal_segment L nonce k frag) = length frag + 40"
  using assms by (simp add: open_segment_def seal_segment_def aead_ok_def verify_segment_def segment_id_of_def)

theorem segment_seal_open_witness:
  "open_segment toy_libs [7] (seal_segment toy_libs (replicate 24 1) [7] [10, 20]) = Some [10, 20]"
  using segment_seal_open [OF toy_aead_ok, of "replicate 24 1" "[7]" "[10, 20]"] by simp

subsection \<open>Identifiers\<close>

lemma hex_digit_inj: "a < 16 \<Longrightarrow> b < 16 \<Longrightarrow> hex_digit a = hex_digit b \<Longrightarrow> a = b"
  by (auto simp: hex_digit_def char_of_eq_iff take_bit_eq_mod split: if_splits)

lemma hex_byte_inj:
  assumes "hex_byte a = hex_byte b"
  shows "a = b"
proof -
  have "unat a < 256" and "unat b < 256" using unat_less_2p [of a] unat_less_2p [of b] by simp_all
  then have "unat a div 16 = unat b div 16" and "unat a mod 16 = unat b mod 16"
    using assms hex_digit_inj by (auto simp: hex_byte_def)
  then have "unat a = unat b" by (metis div_mult_mod_eq)
  then show ?thesis by (simp add: word_unat_eq_iff)
qed

lemma hex32_inj: "hex32 a = hex32 b \<Longrightarrow> a = b"
proof (induction a arbitrary: b)
  case Nil
  then show ?case by (cases b) (simp_all add: hex32_def hex_byte_def)
next
  case (Cons x a)
  then obtain y b' where b: "b = y # b'"
    by (cases b) (simp_all add: hex32_def hex_byte_def)
  with Cons.prems have "hex_byte x = hex_byte y" and "hex32 a = hex32 b'"
    by (simp_all add: hex32_def hex_byte_def)
  with Cons.IH b hex_byte_inj show ?case by simp
qed

lemma hex32_length: "length (hex32 b) = 2 * length b"
  by (induction b) (simp_all add: hex32_def hex_byte_def)

end
