(* ===== verification/Wire.thy ===== *)
theory Wire
  imports Crypto
begin

section \<open>The mesh wire protocol\<close>

text \<open>
  Models \<open>src/crates/unstation-core/src/protocol.rs\<close>, the presence records of
  \<open>signaling.rs\<close> and \<open>frame_segment_data\<close> of \<open>node.rs\<close>. Messages are encoded the way the
  derive macros document (index byte, fields in order) over the primitives of \<open>Scale\<close>;
  a decoder fails on a short input, an unknown index or an ill-formed field. The hand-rolled
  framing of segment chunks is proved equal to the derived encoding.
\<close>

record caps =
  upload_bps :: u64
  relay_cap :: bool

record presence_record =
  pr_peer_id :: bytes
  pr_publisher :: bytes
  pr_caps_upload_bps :: u64
  pr_ttl_s :: u32
  pr_manifest_cid :: "bytes option"
  pr_relay :: bool
  pr_enc_pub :: "bytes option"

record presence =
  p_peer_id :: peer_id
  p_publisher :: bytes
  p_caps_upload_bps :: u64
  p_ttl_s :: u32
  p_manifest_cid :: "bytes option"
  p_relay :: bool
  p_enc_pub :: bytes

definition record_of_presence :: "presence \<Rightarrow> presence_record" where
  "record_of_presence p = \<lparr>
     pr_peer_id = p_peer_id p, pr_publisher = p_publisher p,
     pr_caps_upload_bps = p_caps_upload_bps p, pr_ttl_s = p_ttl_s p,
     pr_manifest_cid = p_manifest_cid p, pr_relay = p_relay p,
     pr_enc_pub = (if p_enc_pub p \<noteq> zeros32 then Some (p_enc_pub p) else None)\<rparr>"

definition presence_of_record :: "presence_record \<Rightarrow> presence" where
  "presence_of_record r = \<lparr>
     p_peer_id = pr_peer_id r, p_publisher = pr_publisher r,
     p_caps_upload_bps = pr_caps_upload_bps r, p_ttl_s = pr_ttl_s r,
     p_manifest_cid = pr_manifest_cid r, p_relay = pr_relay r,
     p_enc_pub = (case pr_enc_pub r of Some k \<Rightarrow> k | None \<Rightarrow> zeros32)\<rparr>"

datatype mesh_msg =
  Hello (peer_id: bytes) (stream_id: bytes) (version: u16) (caps: caps) (base_seq: u64) (bitfield: bytes)
| BufferMap u64 bytes
| Want "u64 list" u32
| Have u64
| SegmentData (sd_seq: u64) (track_id: u16) (total_len: u32) (offset: u32) (payload: bytes)
| Cancel u64
| Choke
| Unchoke
| Ping u64 u64
| Pong u64 u64
| PeerGossip "bytes list"
| Subscribe
| Unsubscribe
| EdgeAnnounce u64 bytes bytes
| PresenceGossip "presence_record list"
| WantInit
| InitData bytes

subsection \<open>Records\<close>

definition enc_caps :: "'s scale_scheme \<Rightarrow> caps \<Rightarrow> bytes" where
  "enc_caps sc c = enc_u64 sc (upload_bps c) @ enc_bool (relay_cap c)"

definition dec_caps :: "'s scale_scheme \<Rightarrow> bytes \<Rightarrow> (caps \<times> bytes) option" where
  "dec_caps sc r = do {
     (u, r) \<leftarrow> dec_u64 sc r; (b, r) \<leftarrow> dec_bool r;
     Some (\<lparr>upload_bps = u, relay_cap = b\<rparr>, r) }"

definition enc_presence :: "'s scale_scheme \<Rightarrow> presence_record \<Rightarrow> bytes" where
  "enc_presence sc p =
     pr_peer_id p @ pr_publisher p @ enc_u64 sc (pr_caps_upload_bps p) @ enc_u32 sc (pr_ttl_s p)
     @ enc_option (enc_bytes sc) (pr_manifest_cid p) @ enc_bool (pr_relay p)
     @ enc_option (\<lambda>x. x) (pr_enc_pub p)"

definition dec_presence :: "'s scale_scheme \<Rightarrow> bytes \<Rightarrow> (presence_record \<times> bytes) option" where
  "dec_presence sc r = do {
     (pid, r) \<leftarrow> dec_array 32 r; (pub, r) \<leftarrow> dec_array 32 r;
     (cap, r) \<leftarrow> dec_u64 sc r; (ttl, r) \<leftarrow> dec_u32 sc r;
     (cid, r) \<leftarrow> dec_option (dec_string sc) r; (rel, r) \<leftarrow> dec_bool r;
     (ek, r) \<leftarrow> dec_option (dec_array 32) r;
     Some (\<lparr>pr_peer_id = pid, pr_publisher = pub, pr_caps_upload_bps = cap, pr_ttl_s = ttl,
            pr_manifest_cid = cid, pr_relay = rel, pr_enc_pub = ek\<rparr>, r) }"

definition wf_presence :: "presence_record \<Rightarrow> bool" where
  "wf_presence p \<longleftrightarrow> length (pr_peer_id p) = 32 \<and> length (pr_publisher p) = 32
     \<and> pred_option wf_string (pr_manifest_cid p)
     \<and> pred_option (\<lambda>k. length k = 32) (pr_enc_pub p)"

subsection \<open>Messages\<close>

definition enc_msg :: "'s scale_scheme \<Rightarrow> mesh_msg \<Rightarrow> bytes" where
  "enc_msg sc m = (case m of
     Hello pid sid v c b f \<Rightarrow>
       0 # pid @ sid @ enc_u16 sc v @ enc_caps sc c @ enc_u64 sc b @ enc_bytes sc f
   | BufferMap b f \<Rightarrow> 1 # enc_u64 sc b @ enc_bytes sc f
   | Want ss d \<Rightarrow> 2 # enc_vec sc (enc_u64 sc) ss @ enc_u32 sc d
   | Have s \<Rightarrow> 3 # enc_u64 sc s
   | SegmentData s t n off bs \<Rightarrow>
       4 # enc_u64 sc s @ enc_u16 sc t @ enc_u32 sc n @ enc_u32 sc off @ enc_bytes sc bs
   | Cancel s \<Rightarrow> 5 # enc_u64 sc s
   | Choke \<Rightarrow> [6]
   | Unchoke \<Rightarrow> [7]
   | Ping n t \<Rightarrow> 8 # enc_u64 sc n @ enc_u64 sc t
   | Pong n t \<Rightarrow> 9 # enc_u64 sc n @ enc_u64 sc t
   | PeerGossip ps \<Rightarrow> 10 # enc_vec sc (\<lambda>x. x) ps
   | Subscribe \<Rightarrow> [11]
   | Unsubscribe \<Rightarrow> [12]
   | EdgeAnnounce s i sg \<Rightarrow> 13 # enc_u64 sc s @ i @ sg
   | PresenceGossip rs \<Rightarrow> 14 # enc_vec sc (enc_presence sc) rs
   | WantInit \<Rightarrow> [15]
   | InitData bs \<Rightarrow> 16 # enc_bytes sc bs)"

definition dec_fields :: "'s scale_scheme \<Rightarrow> u8 \<Rightarrow> bytes \<Rightarrow> (mesh_msg \<times> bytes) option" where
  "dec_fields sc tag r =
    (if tag = 0 then do {
       (pid, r) \<leftarrow> dec_array 32 r; (sid, r) \<leftarrow> dec_array 32 r; (v, r) \<leftarrow> dec_u16 sc r;
       (c, r) \<leftarrow> dec_caps sc r; (b, r) \<leftarrow> dec_u64 sc r; (f, r) \<leftarrow> dec_bytes sc r;
       Some (Hello pid sid v c b f, r) }
     else if tag = 1 then do {
       (b, r) \<leftarrow> dec_u64 sc r; (f, r) \<leftarrow> dec_bytes sc r; Some (BufferMap b f, r) }
     else if tag = 2 then do {
       (ss, r) \<leftarrow> dec_vec sc (dec_u64 sc) r; (d, r) \<leftarrow> dec_u32 sc r; Some (Want ss d, r) }
     else if tag = 3 then do { (s, r) \<leftarrow> dec_u64 sc r; Some (Have s, r) }
     else if tag = 4 then do {
       (s, r) \<leftarrow> dec_u64 sc r; (t, r) \<leftarrow> dec_u16 sc r; (n, r) \<leftarrow> dec_u32 sc r;
       (off, r) \<leftarrow> dec_u32 sc r; (bs, r) \<leftarrow> dec_bytes sc r; Some (SegmentData s t n off bs, r) }
     else if tag = 5 then do { (s, r) \<leftarrow> dec_u64 sc r; Some (Cancel s, r) }
     else if tag = 6 then Some (Choke, r)
     else if tag = 7 then Some (Unchoke, r)
     else if tag = 8 then do { (n, r) \<leftarrow> dec_u64 sc r; (t, r) \<leftarrow> dec_u64 sc r; Some (Ping n t, r) }
     else if tag = 9 then do { (n, r) \<leftarrow> dec_u64 sc r; (t, r) \<leftarrow> dec_u64 sc r; Some (Pong n t, r) }
     else if tag = 10 then do { (ps, r) \<leftarrow> dec_vec sc (dec_array 32) r; Some (PeerGossip ps, r) }
     else if tag = 11 then Some (Subscribe, r)
     else if tag = 12 then Some (Unsubscribe, r)
     else if tag = 13 then do {
       (s, r) \<leftarrow> dec_u64 sc r; (i, r) \<leftarrow> dec_array 32 r; (sg, r) \<leftarrow> dec_array 64 r;
       Some (EdgeAnnounce s i sg, r) }
     else if tag = 14 then do {
       (rs, r) \<leftarrow> dec_vec sc (dec_presence sc) r; Some (PresenceGossip rs, r) }
     else if tag = 15 then Some (WantInit, r)
     else if tag = 16 then do { (bs, r) \<leftarrow> dec_bytes sc r; Some (InitData bs, r) }
     else None)"

text \<open>\<open>MeshMsg::decode(&mut &bytes[..])\<close>: bytes after the message are ignored.\<close>

definition dec_msg :: "'s scale_scheme \<Rightarrow> bytes \<Rightarrow> mesh_msg option" where
  "dec_msg sc bs = do { (tag, r) \<leftarrow> dec_byte bs; (m, _) \<leftarrow> dec_fields sc tag r; Some m }"

definition wf_msg :: "mesh_msg \<Rightarrow> bool" where
  "wf_msg m = (case m of
     Hello pid sid v c b f \<Rightarrow> length pid = 32 \<and> length sid = 32 \<and> wf_bytes f
   | BufferMap b f \<Rightarrow> wf_bytes f
   | Want ss d \<Rightarrow> length ss < 2 ^ 32
   | SegmentData s t n off bs \<Rightarrow> wf_bytes bs
   | PeerGossip ps \<Rightarrow> wf_vec (\<lambda>x. length x = 32) ps
   | EdgeAnnounce s i sg \<Rightarrow> length i = 32 \<and> length sg = 64
   | PresenceGossip rs \<Rightarrow> wf_vec wf_presence rs
   | InitData bs \<Rightarrow> wf_bytes bs
   | _ \<Rightarrow> True)"

text \<open>The framing the serving path writes by hand.\<close>

definition SEGMENT_DATA_TAG :: u8 where
  "SEGMENT_DATA_TAG = 4"

definition frame_segment_data :: "'s scale_scheme \<Rightarrow> u64 \<Rightarrow> u32 \<Rightarrow> u32 \<Rightarrow> bytes \<Rightarrow> bytes" where
  "frame_segment_data sc seq tot off chunk =
     [SEGMENT_DATA_TAG] @ enc_u64 sc seq @ enc_u16 sc 0 @ enc_u32 sc tot @ enc_u32 sc off
     @ enc_compact sc (of_nat (length chunk)) @ chunk"

subsection \<open>Round trips\<close>

context scale_codec
begin

lemma dec_caps_enc: "dec_caps sc (enc_caps sc c @ r) = Some (c, r)"
  by (simp add: dec_caps_def enc_caps_def scale_laws)

lemma dec_presence_enc: "wf_presence p \<Longrightarrow> dec_presence sc (enc_presence sc p @ r) = Some (p, r)"
  using byte_codec.dec_option_enc [of "\<lambda>x. x" "dec_array 32" "\<lambda>k. length k = 32" "pr_enc_pub p" r]
  by (simp add: wf_presence_def dec_presence_def enc_presence_def scale_laws byte_codec_def)

sublocale cpresence: byte_codec "enc_presence sc" "dec_presence sc" wf_presence
  by unfold_locales (rule dec_presence_enc)

lemma dec_msg_enc: "wf_msg m \<Longrightarrow> dec_msg sc (enc_msg sc m @ r) = Some m"
  by (cases m)
    (simp_all add: wf_msg_def dec_msg_def enc_msg_def dec_fields_def scale_laws dec_caps_enc
      dec_vec_enc [OF cpresence.byte_codec_axioms])

end

lemma presence_roundtrip: "length (p_enc_pub p) = 32 \<Longrightarrow> presence_of_record (record_of_presence p) = p"
  by (simp add: presence_of_record_def record_of_presence_def)

text \<open>The index of a message's variant, as the derived codec numbers the variants.\<close>

definition variant_tag :: "mesh_msg \<Rightarrow> u8" where
  "variant_tag m = (case m of Hello _ _ _ _ _ _ \<Rightarrow> 0 | BufferMap _ _ \<Rightarrow> 1 | Want _ _ \<Rightarrow> 2 | Have _ \<Rightarrow> 3
     | SegmentData _ _ _ _ _ \<Rightarrow> 4 | Cancel _ \<Rightarrow> 5 | Choke \<Rightarrow> 6 | Unchoke \<Rightarrow> 7 | Ping _ _ \<Rightarrow> 8
     | Pong _ _ \<Rightarrow> 9 | PeerGossip _ \<Rightarrow> 10 | Subscribe \<Rightarrow> 11 | Unsubscribe \<Rightarrow> 12
     | EdgeAnnounce _ _ _ \<Rightarrow> 13 | PresenceGossip _ \<Rightarrow> 14 | WantInit \<Rightarrow> 15 | InitData _ \<Rightarrow> 16)"

text \<open>
  The hand-rolled framing of a segment chunk is byte for byte the derived encoding of
  the \<open>SegmentData\<close> message (track 0), for every codec; and every message's encoding starts
  with its stable variant index.
\<close>

theorem frame_matches_derive:
  "frame_segment_data sc seq tot off chunk = enc_msg sc (SegmentData seq 0 tot off chunk)
   \<and> hd (enc_msg sc m) = variant_tag m"
  by (cases m)
    (simp_all add: frame_segment_data_def SEGMENT_DATA_TAG_def enc_msg_def enc_bytes_def enc_len_def
      variant_tag_def)

end
