(* ===== verification/Rendezvous.thy ===== *)
theory Rendezvous
  imports Wire
begin

section \<open>Topics, signalling messages and the in-memory statement store\<close>

text \<open>
  Models \<open>topic.rs\<close>, \<open>chat_codec.rs\<close> and \<open>statement_store_mem.rs\<close> of
  \<open>src/crates/unstation-core/src\<close>: how topics are derived from a stream or a peer, how an
  SDP signal is wrapped in the chat content the statement store carries, and the store's
  own operations. The injected clock is an argument.
\<close>

subsection \<open>Topics\<close>

definition discovery_topic :: "libs \<Rightarrow> stream_id \<Rightarrow> u32 \<Rightarrow> topic_id" where
  "discovery_topic L stream shard =
     blake2b256 L (ascii ''disc'' @ stream @ le_of_nat 4 (unat shard))"

definition signaling_topic :: "libs \<Rightarrow> stream_id \<Rightarrow> peer_id \<Rightarrow> topic_id" where
  "signaling_topic L stream peer = blake2b256 L (ascii ''sig'' @ stream @ peer)"

definition fast_signaling_topic :: "libs \<Rightarrow> stream_id \<Rightarrow> peer_id \<Rightarrow> topic_id" where
  "fast_signaling_topic L stream peer = blake2b256 L (ascii ''fastsig'' @ stream @ peer)"

definition edge_topic :: "libs \<Rightarrow> stream_id \<Rightarrow> topic_id" where
  "edge_topic L stream = blake2b256 L (ascii ''edge'' @ stream)"

definition durable_topic :: "libs \<Rightarrow> stream_id \<Rightarrow> topic_id" where
  "durable_topic L stream = blake2b256 L (ascii ''durable'' @ stream)"

definition volunteers_topic :: "libs \<Rightarrow> topic_id" where
  "volunteers_topic L = blake2b256 L (ascii ''unstation/volunteers/v1'')"

definition recruit_topic :: "libs \<Rightarrow> peer_id \<Rightarrow> topic_id" where
  "recruit_topic L volunteer = blake2b256 L (ascii ''recruit'' @ volunteer)"

definition shard_for :: "peer_id \<Rightarrow> u32 \<Rightarrow> u32" where
  "shard_for peer n_shards =
     (if n_shards \<le> 1 then 0 else of_nat (nat_of_le (take 4 peer)) mod n_shards)"

lemma shard_for_bound: "shard_for p n < max n 1"
proof (cases "n \<le> 1")
  case False
  then have "0 < n" by (simp add: word_neq_0_conv [symmetric]) auto
  then have "w mod n < n" for w :: u32 by (rule word_mod_less_divisor)
  then show ?thesis using False by (simp add: shard_for_def max_def)
qed (simp add: shard_for_def max_def)

text \<open>
  Every topic is the hash of a tagged concatenation. \<open>topic\<close> names the kinds of topic with
  their parameters, \<open>topic_id_of\<close> is the function that computes each.
\<close>

datatype topic = Discovery stream_id u32 | SignalingTopic stream_id peer_id | FastSignaling stream_id peer_id
  | EdgeTopic stream_id | DurableTopic stream_id | VolunteersTopic | RecruitTopic peer_id

fun topic_id_of :: "libs \<Rightarrow> topic \<Rightarrow> topic_id" where
  "topic_id_of L (Discovery s i) = discovery_topic L s i"
| "topic_id_of L (SignalingTopic s p) = signaling_topic L s p"
| "topic_id_of L (FastSignaling s p) = fast_signaling_topic L s p"
| "topic_id_of L (EdgeTopic s) = edge_topic L s"
| "topic_id_of L (DurableTopic s) = durable_topic L s"
| "topic_id_of L VolunteersTopic = volunteers_topic L"
| "topic_id_of L (RecruitTopic p) = recruit_topic L p"

fun topic_input :: "topic \<Rightarrow> bytes" where
  "topic_input (Discovery s i) = ascii ''disc'' @ s @ le_of_nat 4 (unat i)"
| "topic_input (SignalingTopic s p) = ascii ''sig'' @ s @ p"
| "topic_input (FastSignaling s p) = ascii ''fastsig'' @ s @ p"
| "topic_input (EdgeTopic s) = ascii ''edge'' @ s"
| "topic_input (DurableTopic s) = ascii ''durable'' @ s"
| "topic_input VolunteersTopic = ascii ''unstation/volunteers/v1''"
| "topic_input (RecruitTopic p) = ascii ''recruit'' @ p"

fun wf_topic :: "topic \<Rightarrow> bool" where
  "wf_topic (Discovery s i) = (length s = 32)"
| "wf_topic (SignalingTopic s p) = (length s = 32 \<and> length p = 32)"
| "wf_topic (FastSignaling s p) = (length s = 32 \<and> length p = 32)"
| "wf_topic (EdgeTopic s) = (length s = 32)"
| "wf_topic (DurableTopic s) = (length s = 32)"
| "wf_topic VolunteersTopic = True"
| "wf_topic (RecruitTopic p) = (length p = 32)"

lemma topic_id_of_hash: "topic_id_of L t = blake2b256 L (topic_input t)"
  by (cases t) (simp_all add: discovery_topic_def signaling_topic_def fast_signaling_topic_def edge_topic_def
      durable_topic_def volunteers_topic_def recruit_topic_def del: le_of_nat.simps)

lemma le4_inj: "le_of_nat 4 (unat i) = le_of_nat 4 (unat j) \<Longrightarrow> i = (j :: u32)"
  using le_of_nat_inj [of 4 "unat i" "unat j"] unat_less_2p [of i] unat_less_2p [of j]
  by (simp add: word_unat_eq_iff)

lemma length_ascii [simp]: "length (ascii s) = length s"
  by (simp add: ascii_def)

text \<open>The length of a topic's input tells its kind, but for the two kinds their tags tell apart.\<close>

fun topic_kind :: "topic \<Rightarrow> nat" where
  "topic_kind (Discovery s i) = 40"
| "topic_kind (SignalingTopic s p) = 67"
| "topic_kind (FastSignaling s p) = 71"
| "topic_kind (EdgeTopic s) = 36"
| "topic_kind (DurableTopic s) = 39"
| "topic_kind VolunteersTopic = 23"
| "topic_kind (RecruitTopic p) = 39"

lemma length_topic_input: "wf_topic t \<Longrightarrow> length (topic_input t) = topic_kind t"
  by (cases t) simp_all

lemma durable_vs_recruit: "ascii ''durable'' @ s \<noteq> ascii ''recruit'' @ p"
  by (simp add: ascii_def)

lemma topic_input_inj:
  assumes "wf_topic t" and "wf_topic t'" and "topic_input t = topic_input t'"
  shows "t = t'"
proof -
  have "topic_kind t = topic_kind t'" using assms length_topic_input by metis
  then show ?thesis
    using assms durable_vs_recruit durable_vs_recruit [symmetric]
    by (cases t; cases t') (auto simp del: le_of_nat.simps dest: le4_inj)
qed

text \<open>
  Topics are domain separated: over any set of well-formed topics on whose inputs the
  hash does not collide, distinct topics have distinct ids, whatever their kinds. A signal
  or an announcement posted for one purpose, stream, peer or shard is never read for another.
\<close>

theorem topics_separated:
  assumes "\<forall>t \<in> T. wf_topic t" and "inj_on (blake2b256 L) (topic_input ` T)"
  shows "inj_on (topic_id_of L) T"
proof (rule inj_onI)
  fix t t' assume t: "t \<in> T" "t' \<in> T" "topic_id_of L t = topic_id_of L t'"
  then have "topic_input t = topic_input t'"
    using assms(2) by (simp add: topic_id_of_hash inj_on_eq_iff)
  with assms(1) t(1,2) show "t = t'" using topic_input_inj by blast
qed

theorem topics_separated_witness:
  "durable_topic (toy_libs\<lparr>blake2b256 := \<lambda>x. x\<rparr>) (replicate 32 1) \<noteq> recruit_topic (toy_libs\<lparr>blake2b256 := \<lambda>x. x\<rparr>) (replicate 32 1)"
proof -
  have "inj_on (blake2b256 (toy_libs\<lparr>blake2b256 := \<lambda>x. x\<rparr>)) (topic_input ` {DurableTopic (replicate 32 1), RecruitTopic (replicate 32 1)})"
    by (rule inj_onI) simp
  from topics_separated [OF _ this] show ?thesis by (auto simp: inj_on_def)
qed

subsection \<open>Signals as chat content\<close>

datatype signal_msg =
  Offer bytes
| Answer bytes bytes
| IceCandidate bytes bytes
| Closed bytes

datatype purpose = AudioCall | VideoCall | StreamMesh

datatype chat_content =
  DataChannelOffer bytes purpose
| DataChannelAnswer bytes bytes
| DataChannelIceCandidate bytes bytes
| DataChannelClosed bytes

definition from_signal :: "signal_msg \<Rightarrow> chat_content" where
  "from_signal m = (case m of
     Offer sdp \<Rightarrow> DataChannelOffer sdp StreamMesh
   | Answer oid sdp \<Rightarrow> DataChannelAnswer oid sdp
   | IceCandidate oid sdp \<Rightarrow> DataChannelIceCandidate oid sdp
   | Closed oid \<Rightarrow> DataChannelClosed oid)"

definition to_signal :: "chat_content \<Rightarrow> signal_msg" where
  "to_signal c = (case c of
     DataChannelOffer sdp _ \<Rightarrow> Offer sdp
   | DataChannelAnswer oid sdp \<Rightarrow> Answer oid sdp
   | DataChannelIceCandidate oid sdp \<Rightarrow> IceCandidate oid sdp
   | DataChannelClosed oid \<Rightarrow> Closed oid)"

definition purpose_tag :: "purpose \<Rightarrow> u8" where
  "purpose_tag p = (case p of AudioCall \<Rightarrow> 0 | VideoCall \<Rightarrow> 1 | StreamMesh \<Rightarrow> 2)"

fun dec_purpose :: "bytes \<Rightarrow> (purpose \<times> bytes) option" where
  "dec_purpose [] = None"
| "dec_purpose (b # r) =
     (if b = 0 then Some (AudioCall, r) else if b = 1 then Some (VideoCall, r)
      else if b = 2 then Some (StreamMesh, r) else None)"

definition enc_chat :: "'s scale_scheme \<Rightarrow> chat_content \<Rightarrow> bytes" where
  "enc_chat sc c = (case c of
     DataChannelOffer sdp p \<Rightarrow> 8 # enc_bytes sc sdp @ [purpose_tag p]
   | DataChannelAnswer oid sdp \<Rightarrow> 9 # enc_bytes sc oid @ enc_bytes sc sdp
   | DataChannelIceCandidate oid sdp \<Rightarrow> 10 # enc_bytes sc oid @ enc_bytes sc sdp
   | DataChannelClosed oid \<Rightarrow> 11 # enc_bytes sc oid)"

definition dec_chat :: "'s scale_scheme \<Rightarrow> bytes \<Rightarrow> chat_content option" where
  "dec_chat sc bs = do {
     (tag, r) \<leftarrow> dec_byte bs;
     if tag = 8 then do {
       (sdp, r) \<leftarrow> dec_bytes sc r; (p, r) \<leftarrow> dec_purpose r; Some (DataChannelOffer sdp p) }
     else if tag = 9 then do {
       (oid, r) \<leftarrow> dec_string sc r; (sdp, r) \<leftarrow> dec_bytes sc r; Some (DataChannelAnswer oid sdp) }
     else if tag = 10 then do {
       (oid, r) \<leftarrow> dec_string sc r; (sdp, r) \<leftarrow> dec_bytes sc r; Some (DataChannelIceCandidate oid sdp) }
     else if tag = 11 then do { (oid, r) \<leftarrow> dec_string sc r; Some (DataChannelClosed oid) }
     else None }"

definition encode_signal :: "'s scale_scheme \<Rightarrow> signal_msg \<Rightarrow> bytes" where
  "encode_signal sc m = enc_chat sc (from_signal m)"

definition decode_signal :: "'s scale_scheme \<Rightarrow> bytes \<Rightarrow> signal_msg option" where
  "decode_signal sc bs = map_option to_signal (dec_chat sc bs)"

definition wf_signal :: "signal_msg \<Rightarrow> bool" where
  "wf_signal m = (case m of
     Offer sdp \<Rightarrow> wf_bytes sdp
   | Answer oid sdp \<Rightarrow> wf_string oid \<and> wf_bytes sdp
   | IceCandidate oid sdp \<Rightarrow> wf_string oid \<and> wf_bytes sdp
   | Closed oid \<Rightarrow> wf_string oid)"

lemma dec_purpose_tag: "dec_purpose (purpose_tag p # r) = Some (p, r)"
  by (cases p) (simp_all add: purpose_tag_def)

context scale_codec
begin

lemma decode_encode_signal: "wf_signal m \<Longrightarrow> decode_signal sc (encode_signal sc m) = Some m"
proof (cases m)
  case (Closed oid)
  moreover assume "wf_signal m"
  ultimately show ?thesis
    using dec_string_enc [of oid "[]"]
    by (simp add: wf_signal_def decode_signal_def encode_signal_def dec_chat_def enc_chat_def
        from_signal_def to_signal_def)
qed (use cbytes.dec_enc_all in \<open>simp_all add: wf_signal_def decode_signal_def encode_signal_def dec_chat_def
    enc_chat_def from_signal_def to_signal_def scale_laws dec_purpose_tag del: dec_purpose.simps\<close>)

end

text \<open>
  an SDP signal survives the chat envelope: what is encoded as data-channel content
  (index 8 to 11, offers with the stream-mesh purpose) decodes to the same signal.
\<close>

theorem signal_roundtrip:
  assumes "scale_codec sc" and "wf_signal m"
  shows "decode_signal sc (encode_signal sc m) = Some m
    \<and> hd (encode_signal sc m) =
        (case m of Offer _ \<Rightarrow> 8 | Answer _ _ \<Rightarrow> 9 | IceCandidate _ _ \<Rightarrow> 10 | Closed _ \<Rightarrow> 11)"
proof
  show "decode_signal sc (encode_signal sc m) = Some m"
    using scale_codec.decode_encode_signal [OF assms] .
  show "hd (encode_signal sc m) =
      (case m of Offer _ \<Rightarrow> 8 | Answer _ _ \<Rightarrow> 9 | IceCandidate _ _ \<Rightarrow> 10 | Closed _ \<Rightarrow> 11)"
    by (cases m) (simp_all add: encode_signal_def from_signal_def enc_chat_def)
qed

theorem signal_roundtrip_witness:
  "decode_signal scale_le (encode_signal scale_le (Answer [111, 49] [118, 61])) = Some (Answer [111, 49] [118, 61])"
  using signal_roundtrip [OF scale_le.scale_codec_axioms, of "Answer [111, 49] [118, 61]"]
  by (simp add: wf_signal_def wf_string_def wf_bytes_def)

subsection \<open>The statement store\<close>

record stored =
  st_topic :: topic_id
  st_signer :: peer_id
  st_data :: bytes
  st_expiry_ms :: u64

record mem_store =
  statements :: "stored list"
  writes :: u64

definition mem_publish :: "topic_id \<Rightarrow> peer_id \<Rightarrow> bytes \<Rightarrow> u64 \<Rightarrow> mem_store \<Rightarrow> mem_store" where
  "mem_publish tp sg d ex g =
     \<lparr>statements = statements g @ [\<lparr>st_topic = tp, st_signer = sg, st_data = d, st_expiry_ms = ex\<rparr>],
      writes = writes g + 1\<rparr>"

definition mem_read :: "topic_id \<Rightarrow> u64 \<Rightarrow> mem_store \<Rightarrow> (peer_id \<times> bytes) list" where
  "mem_read tp now g =
     map (\<lambda>s. (st_signer s, st_data s))
       (filter (\<lambda>s. st_topic s = tp \<and> now < st_expiry_ms s) (statements g))"

record statement_signaling =
  ss_stream :: stream_id
  ss_me :: peer_id
  ss_n_shards :: u32
  ss_ttl_s :: u32

definition ss_expiry :: "statement_signaling \<Rightarrow> u64 \<Rightarrow> u64" where
  "ss_expiry c now = now + ucast (ss_ttl_s c) * 1000"

definition publish_presence_now :: "libs \<Rightarrow> statement_signaling \<Rightarrow> u64 \<Rightarrow> u64 \<Rightarrow> mem_store \<Rightarrow> mem_store" where
  "publish_presence_now L c now cap g =
     (let rec = \<lparr>pr_peer_id = ss_me c, pr_publisher = ss_me c, pr_caps_upload_bps = cap,
                 pr_ttl_s = ss_ttl_s c, pr_manifest_cid = None, pr_relay = False, pr_enc_pub = None\<rparr>;
          tp = discovery_topic L (ss_stream c) (shard_for (ss_me c) (ss_n_shards c))
      in mem_publish tp (ss_me c) (enc_presence L rec) (ss_expiry c now) g)"

text \<open>The two nested loops of \<open>read_candidates\<close>; the flag is its early \<open>return\<close>.\<close>

definition new_candidate :: "libs \<Rightarrow> peer_id \<Rightarrow> peer_id list \<Rightarrow> bytes \<Rightarrow> presence option" where
  "new_candidate L me seen data =
     (case dec_presence L data of
        None \<Rightarrow> None
      | Some (rec, _) \<Rightarrow>
         (let p = presence_of_record rec in
          if p_peer_id p \<noteq> me \<and> p_peer_id p \<notin> set seen then Some p else None))"

fun scan_shard :: "libs \<Rightarrow> peer_id \<Rightarrow> nat \<Rightarrow> (peer_id \<times> bytes) list
    \<Rightarrow> peer_id list \<Rightarrow> presence list \<Rightarrow> bool \<times> peer_id list \<times> presence list" where
  "scan_shard L me mx [] seen out = (False, seen, out)"
| "scan_shard L me mx ((signer, data) # rest) seen out =
     (case new_candidate L me seen data of
        None \<Rightarrow> scan_shard L me mx rest seen out
      | Some p \<Rightarrow>
         (if mx \<le> length (out @ [p]) then (True, hs_insert (p_peer_id p) seen, out @ [p])
          else scan_shard L me mx rest (hs_insert (p_peer_id p) seen) (out @ [p])))"

fun scan_shards :: "libs \<Rightarrow> statement_signaling \<Rightarrow> u64 \<Rightarrow> nat \<Rightarrow> mem_store \<Rightarrow> u32 list
    \<Rightarrow> peer_id list \<Rightarrow> presence list \<Rightarrow> presence list" where
  "scan_shards L c now mx g [] seen out = out"
| "scan_shards L c now mx g (sh # shs) seen out =
     (case scan_shard L (ss_me c) mx (mem_read (discovery_topic L (ss_stream c) sh) now g) seen out of
        (full, seen', out') \<Rightarrow>
          if full then out' else scan_shards L c now mx g shs seen' out')"

definition read_candidates :: "libs \<Rightarrow> statement_signaling \<Rightarrow> u64 \<Rightarrow> nat \<Rightarrow> mem_store \<Rightarrow> presence list" where
  "read_candidates L c now mx g = scan_shards L c now mx g (word_range 0 (max (ss_n_shards c) 1)) [] []"

definition send_signal_now :: "libs \<Rightarrow> statement_signaling \<Rightarrow> u64 \<Rightarrow> peer_id \<Rightarrow> signal_msg \<Rightarrow> mem_store \<Rightarrow> mem_store" where
  "send_signal_now L c now to m g =
     mem_publish (signaling_topic L (ss_stream c) to) (ss_me c) (encode_signal L m) (ss_expiry c now) g"

definition read_signals :: "libs \<Rightarrow> statement_signaling \<Rightarrow> u64 \<Rightarrow> mem_store \<Rightarrow> (peer_id \<times> signal_msg) list" where
  "read_signals L c now g =
     List.map_filter (\<lambda>(signer, data). map_option (\<lambda>m. (signer, m)) (decode_signal L data))
       (mem_read (signaling_topic L (ss_stream c) (ss_me c)) now g)"

subsection \<open>Reading candidates\<close>

definition cand_inv :: "peer_id \<Rightarrow> peer_id list \<Rightarrow> presence list \<Rightarrow> bool" where
  "cand_inv me seen out \<longleftrightarrow> set seen = p_peer_id ` set out \<and> distinct (map p_peer_id out)
     \<and> me \<notin> p_peer_id ` set out"

lemma new_candidate_inv:
  "cand_inv me seen out \<Longrightarrow> new_candidate L me seen d = Some p \<Longrightarrow>
     cand_inv me (hs_insert (p_peer_id p) seen) (out @ [p])"
  by (auto simp: cand_inv_def new_candidate_def Let_def split: option.splits if_splits)

lemma new_candidate_finds:
  assumes "dec_presence L d = Some (rec, r)" and "pr_peer_id rec \<noteq> me" and "cand_inv me seen out"
  shows "case new_candidate L me seen d of
      None \<Rightarrow> pr_peer_id rec \<in> p_peer_id ` set out
    | Some p \<Rightarrow> p_peer_id p = pr_peer_id rec"
  using assms by (auto simp: cand_inv_def new_candidate_def presence_of_record_def Let_def)

lemma scan_shard_grows:
  "cand_inv me seen out \<Longrightarrow> scan_shard L me mx ds seen out = (b, seen', out') \<Longrightarrow>
     cand_inv me seen' out' \<and> set out \<subseteq> set out' \<and> (b \<longrightarrow> mx \<le> length out')"
proof (induction ds arbitrary: seen out)
  case (Cons e ds)
  obtain sg d where e: "e = (sg, d)" by (cases e)
  show ?case
  proof (cases "new_candidate L me seen d")
    case (Some p)
    from new_candidate_inv [OF Cons.prems(1) Some] Cons Some e show ?thesis
      by (fastforce split: if_splits)
  qed (use Cons e in auto)
qed simp

lemma scan_shard_finds:
  assumes "dec_presence L d = Some (rec, r)" and "pr_peer_id rec \<noteq> me"
  shows "(sg, d) \<in> set ds \<Longrightarrow> cand_inv me seen out \<Longrightarrow>
    scan_shard L me mx ds seen out = (False, seen', out') \<Longrightarrow> pr_peer_id rec \<in> p_peer_id ` set out'"
proof (induction ds arbitrary: seen out)
  case (Cons e ds)
  obtain sg' d' where e: "e = (sg', d')" by (cases e)
  define c where "c = new_candidate L me seen d'"
  obtain seen1 out1 where next1: "scan_shard L me mx ds seen1 out1 = (False, seen', out')"
    and inv1: "cand_inv me seen1 out1" and here: "d' = d \<Longrightarrow> pr_peer_id rec \<in> p_peer_id ` set out1"
  proof (cases c)
    case None
    then show ?thesis
      using Cons.prems that [of seen out] new_candidate_finds [OF assms Cons.prems(2)] e
      by (cases "d' = d") (auto simp: c_def)
  next
    case (Some p)
    then show ?thesis
      using Cons.prems that [of "hs_insert (p_peer_id p) seen" "out @ [p]"] e
        new_candidate_finds [OF assms Cons.prems(2)] new_candidate_inv [OF Cons.prems(2), of L d' p]
      by (cases "d' = d") (auto simp: c_def split: if_splits)
  qed
  show ?case
  proof (cases "(sg, d) \<in> set ds")
    case True
    then show ?thesis using Cons.IH inv1 next1 by blast
  next
    case False
    then have "d' = d" using Cons.prems(1) e by auto
    then show ?thesis using here scan_shard_grows [OF inv1 next1] by auto
  qed
qed simp

lemma scan_shards_grows:
  "cand_inv (ss_me c) seen out \<Longrightarrow>
     set out \<subseteq> set (scan_shards L c now mx g shs seen out)
     \<and> distinct (map p_peer_id (scan_shards L c now mx g shs seen out))
     \<and> ss_me c \<notin> p_peer_id ` set (scan_shards L c now mx g shs seen out)"
proof (induction shs arbitrary: seen out)
  case (Cons sh shs)
  obtain b seen' out' where s: "scan_shard L (ss_me c) mx
      (mem_read (discovery_topic L (ss_stream c) sh) now g) seen out = (b, seen', out')"
    by (metis prod_cases3)
  from scan_shard_grows [OF Cons.prems s] Cons.IH [of seen' out'] s show ?case
    by (auto simp: cand_inv_def)
qed (simp add: cand_inv_def)

lemma scan_shards_finds:
  assumes "dec_presence L d = Some (rec, r)" and "pr_peer_id rec \<noteq> ss_me c"
    and "(sg, d) \<in> set (mem_read (discovery_topic L (ss_stream c) sh) now g)"
  shows "cand_inv (ss_me c) seen out \<Longrightarrow> sh \<in> set shs \<Longrightarrow>
    length (scan_shards L c now mx g shs seen out) < mx \<Longrightarrow>
    pr_peer_id rec \<in> p_peer_id ` set (scan_shards L c now mx g shs seen out)"
proof (induction shs arbitrary: seen out)
  case (Cons sh' shs)
  obtain b seen' out' where s: "scan_shard L (ss_me c) mx
      (mem_read (discovery_topic L (ss_stream c) sh') now g) seen out = (b, seen', out')"
    by (metis prod_cases3)
  note g = scan_shard_grows [OF Cons.prems(1) s]
  have nb: "\<not> b" using g Cons.prems(3) s by (cases b) auto
  then have eq: "scan_shards L c now mx g (sh' # shs) seen out = scan_shards L c now mx g shs seen' out'"
    using s by simp
  show ?case
  proof (cases "sh = sh'")
    case True
    then have "pr_peer_id rec \<in> p_peer_id ` set out'"
      using scan_shard_finds [OF assms(1,2,3) Cons.prems(1)] s nb by auto
    then show ?thesis
      using scan_shards_grows [of c seen' out' L now mx g shs] g unfolding eq by blast
  next
    case False
    then show ?thesis using Cons.IH [of seen' out'] Cons.prems g unfolding eq by auto
  qed
qed simp

text \<open>
  C11: discovery is complete. After a peer announces itself on a stream, another peer that
  reads candidates with the same shard count before the announcement expires finds it,
  unless its result list was cut off at the requested maximum.
\<close>

theorem announced_peer_is_found:
  assumes "scale_codec L" and "length (ss_me a) = 32" and "ss_me a \<noteq> ss_me b"
    and "ss_stream b = ss_stream a" and "ss_n_shards b = ss_n_shards a"
    and "now < ss_expiry a t"
    and "length (read_candidates L b now mx (publish_presence_now L a t cap g)) < mx"
  shows "ss_me a \<in> p_peer_id ` set (read_candidates L b now mx (publish_presence_now L a t cap g))"
proof -
  let ?rec = "\<lparr>pr_peer_id = ss_me a, pr_publisher = ss_me a, pr_caps_upload_bps = cap,
     pr_ttl_s = ss_ttl_s a, pr_manifest_cid = None, pr_relay = False, pr_enc_pub = None\<rparr>"
  let ?sh = "shard_for (ss_me a) (ss_n_shards a)"
  let ?g = "publish_presence_now L a t cap g"
  have "dec_presence L (enc_presence L ?rec @ []) = Some (?rec, [])"
    by (rule scale_codec.dec_presence_enc [OF assms(1)]) (simp add: wf_presence_def assms(2))
  then have dec: "dec_presence L (enc_presence L ?rec) = Some (?rec, [])" by simp
  have mem: "(ss_me a, enc_presence L ?rec) \<in> set (mem_read (discovery_topic L (ss_stream b) ?sh) now ?g)"
    using assms(4,6) by (simp add: mem_read_def publish_presence_now_def mem_publish_def Let_def)
  have "?sh \<in> set (word_range 0 (max (ss_n_shards b) 1))"
    using shard_for_bound [of "ss_me a" "ss_n_shards a"] assms(5) by simp
  from scan_shards_finds [OF dec _ mem, of "[]" "[]", OF _ _ this] assms(3,7)
  show ?thesis by (simp add: read_candidates_def cand_inv_def)
qed

theorem announced_peer_is_found_witness:
  "let a = \<lparr>ss_stream = [], ss_me = replicate 32 5, ss_n_shards = 1, ss_ttl_s = 30\<rparr>;
       b = \<lparr>ss_stream = [], ss_me = [], ss_n_shards = 1, ss_ttl_s = 30\<rparr>;
       g = publish_presence_now toy_libs a 0 7 \<lparr>statements = [], writes = 0\<rparr>
   in ss_me a \<in> p_peer_id ` set (read_candidates toy_libs b 1000 4 g)"
proof -
  let ?a = "\<lparr>ss_stream = [], ss_me = replicate 32 5, ss_n_shards = 1, ss_ttl_s = 30\<rparr>"
  let ?b = "\<lparr>ss_stream = [], ss_me = [], ss_n_shards = 1, ss_ttl_s = 30\<rparr>"
  have len: "length (read_candidates toy_libs ?b 1000 4
      (publish_presence_now toy_libs ?a 0 7 \<lparr>statements = [], writes = 0\<rparr>)) < 4"
    by (simp add: read_candidates_def word_range_def publish_presence_now_def mem_publish_def
        mem_read_def Let_def split: option.split)
  show ?thesis
    unfolding Let_def
    by (rule announced_peer_is_found [OF toy_scale.scale_codec_axioms _ _ _ _ _ len])
      (simp_all add: ss_expiry_def)
qed

end
