(* ===== verification/Store.thy ===== *)
theory Store
  imports Rendezvous
begin

section \<open>The two-tier segment store\<close>

text \<open>
  Models \<open>src/crates/unstation-core/src/store.rs\<close>: a bounded memory tier over a
  content-addressed spill directory. The file system is explicit: \<open>disk\<close> maps a path
  (directory, file name) to its contents, and every operation that touches it takes and
  returns it. A write or unlink is best effort in the code; \<open>fault p = Some c\<close> says that
  the operation on \<open>p\<close> fails and leaves the contents \<open>c\<close>, \<open>None\<close> that it succeeds.
  The contract for the clients is the locale \<open>content_cache\<close>.
\<close>

type_synonym path = "string \<times> string"
type_synonym disk = "path \<Rightarrow> bytes option"
type_synonym io_fault = "path \<Rightarrow> bytes option option"

definition fs_write :: "io_fault \<Rightarrow> path \<Rightarrow> bytes \<Rightarrow> disk \<Rightarrow> disk" where
  "fs_write fault p b d = (case fault p of None \<Rightarrow> d(p \<mapsto> b) | Some c \<Rightarrow> d(p := c))"

definition fs_remove :: "io_fault \<Rightarrow> path \<Rightarrow> disk \<Rightarrow> disk" where
  "fs_remove fault p d = (case fault p of None \<Rightarrow> d(p := None) | Some c \<Rightarrow> d(p := c))"

datatype segment_location = Memory | Disk segment_id path | Absent

record segment_store =
  st_mem :: "(u64, bytes) btree_map"
  st_index :: "(u64, segment_id) btree_map"
  st_capacity :: nat
  st_dir :: "string option"

definition st_new :: "nat \<Rightarrow> segment_store" where
  "st_new cap = \<lparr>st_mem = [], st_index = [], st_capacity = cap, st_dir = None\<rparr>"

definition st_with_disk :: "nat \<Rightarrow> string \<Rightarrow> segment_store" where
  "st_with_disk cap dir = \<lparr>st_mem = [], st_index = [], st_capacity = cap, st_dir = Some dir\<rparr>"

definition st_path_for :: "segment_store \<Rightarrow> segment_id \<Rightarrow> path option" where
  "st_path_for st i = map_option (\<lambda>d. (d, hex32 i @ ''.seg'')) (st_dir st)"

definition st_has :: "u64 \<Rightarrow> segment_store \<Rightarrow> disk \<Rightarrow> bool" where
  "st_has seq st d =
     (if map_of (st_mem st) seq \<noteq> None then True
      else case (map_of (st_index st) seq, st_dir st) of
             (Some i, Some _) \<Rightarrow> (case st_path_for st i of Some p \<Rightarrow> d p \<noteq> None | None \<Rightarrow> False)
           | _ \<Rightarrow> False)"

definition st_spill :: "io_fault \<Rightarrow> u64 \<Rightarrow> bytes \<Rightarrow> segment_store \<Rightarrow> disk \<Rightarrow> disk" where
  "st_spill fault seq bs st d =
     (case map_of (st_index st) seq of
        None \<Rightarrow> d
      | Some i \<Rightarrow> (case st_path_for st i of None \<Rightarrow> d | Some p \<Rightarrow> fs_write fault p bs d))"

text \<open>The \<open>while\<close> loop of \<open>insert\<close>: the oldest key leaves the memory tier.\<close>

function st_evict :: "io_fault \<Rightarrow> segment_store \<Rightarrow> disk \<Rightarrow> segment_store \<times> disk" where
  "st_evict fault st d =
     (if length (st_mem st) \<le> st_capacity st then (st, d)
      else case st_mem st of
             [] \<Rightarrow> (st, d)
           | (oldest, b) # rest \<Rightarrow>
               (let st' = st\<lparr>st_mem := rest\<rparr>
                in st_evict fault st' (st_spill fault oldest b st' d)))"
  by pat_completeness auto
termination
  by (relation "measure (\<lambda>(_, st, _). length (st_mem st))") auto

declare st_evict.simps [simp del]

definition st_insert :: "io_fault \<Rightarrow> u64 \<Rightarrow> segment_id \<Rightarrow> bytes \<Rightarrow> segment_store \<Rightarrow> disk \<Rightarrow> segment_store \<times> disk" where
  "st_insert fault seq i bs st d =
     st_evict fault (st\<lparr>st_index := bt_put seq i (st_index st), st_mem := bt_put seq bs (st_mem st)\<rparr>) d"

definition st_get :: "u64 \<Rightarrow> segment_store \<Rightarrow> disk \<Rightarrow> bytes option" where
  "st_get seq st d =
     (case map_of (st_mem st) seq of
        Some b \<Rightarrow> Some b
      | None \<Rightarrow> do { i \<leftarrow> map_of (st_index st) seq; p \<leftarrow> st_path_for st i; d p })"

definition st_get_mem :: "u64 \<Rightarrow> segment_store \<Rightarrow> bytes option" where
  "st_get_mem seq st = map_of (st_mem st) seq"

definition st_location :: "u64 \<Rightarrow> segment_store \<Rightarrow> segment_location" where
  "st_location seq st =
     (if map_of (st_mem st) seq \<noteq> None then Memory
      else case do { i \<leftarrow> map_of (st_index st) seq; p \<leftarrow> st_path_for st i; Some (i, p) } of
             Some (i, p) \<Rightarrow> Disk i p
           | None \<Rightarrow> Absent)"

text \<open>The unlinking loop of \<open>prune_below\<close> over the dropped index entries.\<close>

fun st_unlink :: "io_fault \<Rightarrow> segment_store \<Rightarrow> segment_id list \<Rightarrow> disk \<Rightarrow> disk" where
  "st_unlink fault st [] d = d"
| "st_unlink fault st (i # ids) d =
     st_unlink fault st ids
       (if i \<in> set (map snd (st_index st)) then d
        else case st_path_for st i of Some p \<Rightarrow> fs_remove fault p d | None \<Rightarrow> d)"

definition st_prune_below :: "io_fault \<Rightarrow> u64 \<Rightarrow> segment_store \<Rightarrow> disk \<Rightarrow> segment_store \<times> disk" where
  "st_prune_below fault fl st d =
     (let kept = bt_split_off fl (st_index st);
          dropped = filter (\<lambda>(k, _). k < fl) (st_index st);
          st' = st\<lparr>st_mem := bt_split_off fl (st_mem st), st_index := kept\<rparr>
      in (st', if st_dir st \<noteq> None then st_unlink fault st' (map snd dropped) d else d))"

definition st_len :: "segment_store \<Rightarrow> nat" where
  "st_len st = length (st_index st)"

definition st_is_empty :: "segment_store \<Rightarrow> bool" where
  "st_is_empty st \<longleftrightarrow> st_index st = []"

subsection \<open>The eviction loop\<close>

lemma st_evict_mem:
  "st_mem (fst (st_evict f st d)) = drop (length (st_mem st) - st_capacity st) (st_mem st)
    \<and> st_index (fst (st_evict f st d)) = st_index st
    \<and> st_capacity (fst (st_evict f st d)) = st_capacity st
    \<and> st_dir (fst (st_evict f st d)) = st_dir st"
proof (induction f st d rule: st_evict.induct)
  case (1 f st d)
  show ?case
  proof (cases "length (st_mem st) \<le> st_capacity st")
    case True
    then show ?thesis by (simp add: st_evict.simps [of f st d])
  next
    case False
    then obtain k b rest where m: "st_mem st = (k, b) # rest" by (cases "st_mem st") auto
    let ?st = "st\<lparr>st_mem := rest\<rparr>"
    have eq: "st_evict f st d = st_evict f ?st (st_spill f k b ?st d)"
      using False m by (subst st_evict.simps) (simp add: Let_def)
    have "st_mem (fst (st_evict f ?st (st_spill f k b ?st d))) = drop (length rest - st_capacity st) rest"
      and rest: "st_index (fst (st_evict f ?st (st_spill f k b ?st d))) = st_index st"
      "st_capacity (fst (st_evict f ?st (st_spill f k b ?st d))) = st_capacity st"
      "st_dir (fst (st_evict f ?st (st_spill f k b ?st d))) = st_dir st"
      using "1.IH" [OF False m refl refl] by auto
    moreover have "drop (length (st_mem st) - st_capacity st) (st_mem st) = drop (length rest - st_capacity st) rest"
      using False m by (simp add: Suc_diff_le)
    ultimately show ?thesis using eq by simp
  qed
qed

lemma st_path_cong: "st_dir st = st_dir st' \<Longrightarrow> st_path_for st = st_path_for st'"
  by (simp add: st_path_for_def fun_eq_iff)

lemma st_path_inj: "st_path_for st i = Some p \<Longrightarrow> st_path_for st j = Some p \<Longrightarrow> i = j"
  by (auto simp: st_path_for_def dest: hex32_inj)

subsection \<open>Invariant\<close>

text \<open>
  Every indexed segment is readable from the tier it is in, and what is read hashes to
  the id it was stored under. Without a spill directory only the memory tier is readable.
\<close>

definition st_ok :: "libs \<Rightarrow> segment_store \<Rightarrow> disk \<Rightarrow> bool" where
  "st_ok L st d \<longleftrightarrow> bt_ok (st_mem st) \<and> bt_ok (st_index st)
     \<and> (\<forall>k b. map_of (st_mem st) k = Some b \<longrightarrow> map_of (st_index st) k = Some (segment_id_of L b))
     \<and> (\<forall>k i p. map_of (st_index st) k = Some i \<longrightarrow> map_of (st_mem st) k = None \<longrightarrow>
          st_path_for st i = Some p \<longrightarrow> (\<exists>b. d p = Some b \<and> segment_id_of L b = i))"

abbreviation no_fault :: io_fault where
  "no_fault \<equiv> \<lambda>_. None"

lemma st_spill_ok:
  assumes ok: "st_ok L st d" and m: "st_mem st = (k, b) # rest"
  shows "st_ok L (st\<lparr>st_mem := rest\<rparr>) (st_spill no_fault k b (st\<lparr>st_mem := rest\<rparr>) d)"
proof -
  let ?st = "st\<lparr>st_mem := rest\<rparr>"
  have P: "st_path_for ?st = st_path_for st" by (rule st_path_cong) simp
  have bt: "bt_ok rest" "bt_ok (st_index st)" and nk: "map_of rest k = None"
    using ok m bt_distinct [of "st_mem st"] by (auto simp: st_ok_def bt_ok_def map_of_eq_None_iff)
  have idx: "map_of (st_index st) k = Some (segment_id_of L b)" using ok m by (simp add: st_ok_def)
  have mem: "map_of (st_index st) j = Some (segment_id_of L c)" if "map_of rest j = Some c" for j c
  proof -
    have "j \<noteq> k" using nk that by auto
    with ok m that show ?thesis by (auto simp: st_ok_def)
  qed
  have disk: "\<exists>c. st_spill no_fault k b ?st d p = Some c \<and> segment_id_of L c = i"
    if j: "map_of (st_index st) j = Some i" "map_of rest j = None" "st_path_for st i = Some p" for j i p
  proof (cases "st_path_for st (segment_id_of L b) = Some p")
    case True
    then have "i = segment_id_of L b" using j(3) st_path_inj by blast
    with True idx P show ?thesis by (simp add: st_spill_def fs_write_def)
  next
    case False
    then have "j \<noteq> k" using idx j by auto
    then have "map_of (st_mem st) j = None" using m j by simp
    then have "\<exists>c. d p = Some c \<and> segment_id_of L c = i"
      using ok j unfolding st_ok_def by blast
    then show ?thesis using False idx P
      by (auto simp: st_spill_def fs_write_def split: option.split)
  qed
  show ?thesis using bt mem disk by (simp add: st_ok_def P)
qed

lemma st_evict_ok: "st_ok L st d \<Longrightarrow> case st_evict no_fault st d of (st', d') \<Rightarrow> st_ok L st' d'"
proof (induction no_fault st d rule: st_evict.induct)
  case (1 st d)
  show ?case
  proof (cases "length (st_mem st) \<le> st_capacity st")
    case True
    with "1.prems" show ?thesis by (simp add: st_evict.simps [of no_fault st d])
  next
    case False
    then obtain k b rest where m: "st_mem st = (k, b) # rest" by (cases "st_mem st") auto
    have "st_evict no_fault st d =
        st_evict no_fault (st\<lparr>st_mem := rest\<rparr>) (st_spill no_fault k b (st\<lparr>st_mem := rest\<rparr>) d)"
      using False m by (subst st_evict.simps) (simp add: Let_def)
    with "1.hyps" [OF False m refl refl] st_spill_ok [OF "1.prems" m] show ?thesis by simp
  qed
qed

lemma st_insert_ok:
  assumes "st_ok L st d"
  shows "case st_insert no_fault k (segment_id_of L b) b st d of (st', d') \<Rightarrow> st_ok L st' d'"
proof -
  let ?st = "st\<lparr>st_index := bt_put k (segment_id_of L b) (st_index st), st_mem := bt_put k b (st_mem st)\<rparr>"
  have "st_path_for ?st = st_path_for st" by (rule st_path_cong) simp
  then have "st_ok L ?st d"
    using assms by (auto simp: st_ok_def bt_ok_put bt.get_put split: if_splits)
  then show ?thesis unfolding st_insert_def by (rule st_evict_ok)
qed

text \<open>What \<open>prune_below\<close> leaves on disk: the files of ids that no retained entry names are gone.\<close>

lemma st_unlink_disk:
  "st_unlink no_fault st ids d p =
     (if \<exists>i \<in> set ids. i \<notin> set (map snd (st_index st)) \<and> st_path_for st i = Some p then None else d p)"
  by (induction ids arbitrary: d) (auto simp: fs_remove_def split: option.split)

lemma st_prune_fields:
  "st_mem (fst (st_prune_below f fl st d)) = bt_split_off fl (st_mem st)"
  "st_index (fst (st_prune_below f fl st d)) = bt_split_off fl (st_index st)"
  "st_capacity (fst (st_prune_below f fl st d)) = st_capacity st"
  "st_dir (fst (st_prune_below f fl st d)) = st_dir st"
  by (simp_all add: st_prune_below_def Let_def)

lemma st_prune_ok:
  assumes ok: "st_ok L st d"
  shows "case st_prune_below no_fault fl st d of (st', d') \<Rightarrow> st_ok L st' d'"
proof -
  let ?st = "fst (st_prune_below no_fault fl st d)" and ?d = "snd (st_prune_below no_fault fl st d)"
  have P: "st_path_for ?st = st_path_for st" by (rule st_path_cong) (simp add: st_prune_fields)
  have keep: "?d p = d p" if "map_of (st_index ?st) k = Some i" "st_path_for st i = Some p" for k i p
  proof -
    have "i \<in> set (map snd (st_index ?st))" using that(1) by (force dest: map_of_SomeD)
    moreover have "j = i" if "st_path_for st j = Some p" for j
      using that \<open>st_path_for st i = Some p\<close> st_path_inj by blast
    ultimately have "\<not> (\<exists>j \<in> ids. j \<notin> set (map snd (st_index ?st)) \<and> st_path_for ?st j = Some p)" for ids
      using P by metis
    then show ?thesis
      unfolding st_prune_below_def Let_def fst_conv snd_conv
      by (simp only: st_unlink_disk if_False split: if_split) simp
  qed
  have "st_ok L ?st ?d"
    using ok keep P
    by (auto simp: st_ok_def st_prune_fields bt_ok_split_off bt_get_split_off split: if_splits)
  then show ?thesis by (simp add: case_prod_beta)
qed

subsection \<open>The contract of a content-addressed cache\<close>

text \<open>
  A run of insertions and prunings, on an implementation or on the specification, which
  is a plain map from sequence numbers to contents.
\<close>

datatype ('s, 'c) cache_op = Insert 's 'c | Prune 's

fun run_cache :: "('s \<Rightarrow> 'c \<Rightarrow> 'st \<Rightarrow> 'st) \<Rightarrow> ('s \<Rightarrow> 'st \<Rightarrow> 'st) \<Rightarrow> ('s, 'c) cache_op list \<Rightarrow> 'st \<Rightarrow> 'st" where
  "run_cache ins prune [] st = st"
| "run_cache ins prune (Insert s c # ops) st = run_cache ins prune ops (ins s c st)"
| "run_cache ins prune (Prune s # ops) st = run_cache ins prune ops (prune s st)"

definition spec_cache :: "('s::linorder, 'c) cache_op list \<Rightarrow> 's \<rightharpoonup> 'c" where
  "spec_cache ops = run_cache (\<lambda>s c m. m(s \<mapsto> c)) (\<lambda>f m s. if f \<le> s then m s else None) ops Map.empty"

locale content_cache =
  fixes hash :: "'c \<Rightarrow> 'h"
    and index :: "'st \<Rightarrow> 's::linorder \<rightharpoonup> 'h"
    and get :: "'s \<Rightarrow> 'st \<Rightarrow> 'c option"
    and ins :: "'s \<Rightarrow> 'c \<Rightarrow> 'st \<Rightarrow> 'st"
    and prune :: "'s \<Rightarrow> 'st \<Rightarrow> 'st"
    and ok :: "'st \<Rightarrow> bool"
  assumes get_index: "ok st \<Longrightarrow> map_option hash (get s st) = index st s"
    and index_ins: "ok st \<Longrightarrow> index (ins s c st) = (index st)(s \<mapsto> hash c)"
    and index_prune: "ok st \<Longrightarrow> index (prune f st) = (\<lambda>s. if f \<le> s then index st s else None)"
    and ok_ins: "ok st \<Longrightarrow> ok (ins s c st)"
    and ok_prune: "ok st \<Longrightarrow> ok (prune f st)"
begin

lemma run_refines:
  "ok st \<Longrightarrow> index st = map_option hash \<circ> m \<Longrightarrow>
     ok (run_cache ins prune ops st) \<and> index (run_cache ins prune ops st) =
       map_option hash \<circ> run_cache (\<lambda>s c m. m(s \<mapsto> c)) (\<lambda>f m s. if f \<le> s then m s else None) ops m"
proof (induction ops arbitrary: st m)
  case (Cons x ops)
  show ?case
  proof (cases x)
    case (Insert s c)
    have "index (ins s c st) = map_option hash \<circ> m(s \<mapsto> c)"
      using Cons.prems by (simp add: index_ins fun_eq_iff)
    from Cons.IH [OF ok_ins [OF Cons.prems(1)] this] show ?thesis
      by (simp only: Insert run_cache.simps)
  next
    case (Prune f)
    have "index (prune f st) = map_option hash \<circ> (\<lambda>s. if f \<le> s then m s else None)"
      using Cons.prems by (simp add: index_prune fun_eq_iff)
    from Cons.IH [OF ok_prune [OF Cons.prems(1)] this] show ?thesis
      by (simp only: Prune run_cache.simps)
  qed
qed simp

lemma run_get:
  "ok st \<Longrightarrow> index st = Map.empty \<Longrightarrow>
     map_option hash (get s (run_cache ins prune ops st)) = map_option hash (spec_cache ops s)"
  using run_refines [of st Map.empty ops] by (simp add: get_index fun_eq_iff spec_cache_def)

end

text \<open>The spill directory in use: the contract holds of the whole store with its disk.\<close>

definition st_ins :: "libs \<Rightarrow> u64 \<Rightarrow> bytes \<Rightarrow> segment_store \<times> disk \<Rightarrow> segment_store \<times> disk" where
  "st_ins L s b = (\<lambda>(st, d). st_insert no_fault s (segment_id_of L b) b st d)"

definition st_prune :: "u64 \<Rightarrow> segment_store \<times> disk \<Rightarrow> segment_store \<times> disk" where
  "st_prune f = (\<lambda>(st, d). st_prune_below no_fault f st d)"

definition st_disk_ok :: "libs \<Rightarrow> segment_store \<times> disk \<Rightarrow> bool" where
  "st_disk_ok L = (\<lambda>(st, d). st_ok L st d \<and> st_dir st \<noteq> None \<and> length (st_mem st) \<le> st_capacity st)"

lemma st_insert_fields:
  "st_index (fst (st_insert f k i b st d)) = bt_put k i (st_index st)"
  "st_mem (fst (st_insert f k i b st d)) =
     drop (length (bt_put k b (st_mem st)) - st_capacity st) (bt_put k b (st_mem st))"
  "st_capacity (fst (st_insert f k i b st d)) = st_capacity st"
  "st_dir (fst (st_insert f k i b st d)) = st_dir st"
  using st_evict_mem [of f "st\<lparr>st_index := bt_put k i (st_index st), st_mem := bt_put k b (st_mem st)\<rparr>" d]
  by (simp_all add: st_insert_def)

lemma bt_split_off_len: "length (bt_split_off f m) \<le> length m"
  by (simp add: bt_split_off_def)

interpretation st: content_cache "segment_id_of L" "\<lambda>(st, d). map_of (st_index st)"
  "\<lambda>s (st, d). st_get s st d" "st_ins L" st_prune "st_disk_ok L" for L
proof unfold_locales
  fix s :: u64 and x :: "segment_store \<times> disk" and c f
  obtain st d where x: "x = (st, d)" by (cases x)
  assume ok: "st_disk_ok L x"
  then obtain dir where S: "st_ok L st d" "st_dir st = Some dir" "length (st_mem st) \<le> st_capacity st"
    using x by (auto simp: st_disk_ok_def)
  then have bt: "bt_ok (st_index st)" "bt_ok (st_mem st)" by (simp_all add: st_ok_def)
  have "map_option (segment_id_of L) (st_get s st d) = map_of (st_index st) s"
  proof (cases "map_of (st_mem st) s")
    case None
    then show ?thesis
    proof (cases "map_of (st_index st) s")
      case (Some i)
      obtain p where p: "st_path_for st i = Some p" using S(2) by (simp add: st_path_for_def)
      then obtain b where "d p = Some b" "segment_id_of L b = i"
        using S(1) None Some unfolding st_ok_def by blast
      with None Some p show ?thesis by (simp add: st_get_def)
    qed (simp add: st_get_def)
  next
    case (Some b)
    then show ?thesis using S(1) by (simp add: st_get_def st_ok_def)
  qed
  then show "map_option (segment_id_of L) (case x of (st, d) \<Rightarrow> st_get s st d) =
      (case x of (st, d) \<Rightarrow> map_of (st_index st)) s" using x by simp
  show "(case st_ins L s c x of (st, d) \<Rightarrow> map_of (st_index st)) =
      (case x of (st, d) \<Rightarrow> map_of (st_index st))(s \<mapsto> segment_id_of L c)"
    using x bt by (simp add: st_ins_def case_prod_beta st_insert_fields bt.get_put)
  show "(case st_prune f x of (st, d) \<Rightarrow> map_of (st_index st)) =
      (\<lambda>s. if f \<le> s then (case x of (st, d) \<Rightarrow> map_of (st_index st)) s else None)"
    using x by (simp add: st_prune_def case_prod_beta st_prune_fields bt_get_split_off fun_eq_iff)
  show "st_disk_ok L (st_ins L s c x)"
    using x S st_insert_ok [OF S(1), of s c]
    by (simp add: st_disk_ok_def st_ins_def case_prod_beta st_insert_fields)
  show "st_disk_ok L (st_prune f x)"
    using x S st_prune_ok [OF S(1), of f] bt_split_off_len [of f "st_mem st"]
    by (simp add: st_disk_ok_def st_prune_def case_prod_beta st_prune_fields)
qed

subsection \<open>Properties\<close>

lemma st_with_disk_fields [simp]:
  "st_index (st_with_disk cap dir) = []" "st_capacity (st_with_disk cap dir) = cap"
  by (simp_all add: st_with_disk_def)

lemma st_run_capacity:
  "st_capacity (fst (run_cache (st_ins L) st_prune ops x)) = st_capacity (fst x)"
proof (induction ops arbitrary: x)
  case (Cons y ops)
  then show ?case
    by (cases y) (simp_all add: st_ins_def st_prune_def case_prod_beta st_insert_fields st_prune_fields)
qed simp

lemma st_has_iff_get: "st_has s st d \<longleftrightarrow> st_get s st d \<noteq> None"
  by (auto simp: st_has_def st_get_def st_path_for_def split: option.splits)

lemma st_disk_ok_new [simp]: "st_disk_ok L (st_with_disk cap dir, d)"
  by (simp add: st_disk_ok_def st_with_disk_def st_ok_def)

text \<open>Bytes come from somewhere: what is held or spilled was inserted, or was on the disk before.\<close>

definition contents :: "('s, 'c) cache_op list \<Rightarrow> 'c set" where
  "contents ops = {c. \<exists>s. Insert s c \<in> set ops}"

definition st_within :: "bytes set \<Rightarrow> segment_store \<times> disk \<Rightarrow> bool" where
  "st_within B = (\<lambda>(st, d). snd ` set (st_mem st) \<subseteq> B \<and> ran d \<subseteq> B)"

lemma ran_fs_remove: "ran (fs_remove no_fault p d) \<subseteq> ran d"
  by (auto simp: fs_remove_def ran_def)

lemma ran_st_unlink: "ran (st_unlink no_fault st is d) \<subseteq> ran d"
proof (induction "is" arbitrary: d)
  case (Cons i "is")
  have "ran (if i \<in> set (map snd (st_index st)) then d
      else case st_path_for st i of Some p \<Rightarrow> fs_remove no_fault p d | None \<Rightarrow> d) \<subseteq> ran d"
    using ran_fs_remove by (simp split: option.split)
  with Cons.IH show ?case by (simp only: st_unlink.simps) (meson order_trans)
qed simp

lemma ran_st_spill: "ran (st_spill no_fault k b st d) \<subseteq> insert b (ran d)"
  by (auto simp: st_spill_def fs_write_def ran_def split: option.splits if_splits)

lemma st_evict_within: "st_within B (st, d) \<Longrightarrow> st_within B (st_evict no_fault st d)"
proof (induction "no_fault :: io_fault" st d rule: st_evict.induct)
  case (1 st d)
  show ?case
  proof (cases "length (st_mem st) \<le> st_capacity st \<or> st_mem st = []")
    case True
    then show ?thesis using 1(2) by (subst st_evict.simps) auto
  next
    case False
    then obtain k b rest where m: "st_mem st = (k, b) # rest" and f: "\<not> length (st_mem st) \<le> st_capacity st"
      by (cases "st_mem st") auto
    let ?st = "st\<lparr>st_mem := rest\<rparr>"
    have "st_within B (?st, st_spill no_fault k b ?st d)"
      using 1(2) m ran_st_spill [of k b ?st d] by (auto simp: st_within_def)
    from 1(1) [OF f m refl refl this] show ?thesis
      using f m by (subst st_evict.simps) (simp add: Let_def)
  qed
qed

lemma bt_put_subset: "set (bt_put k v m) \<subseteq> insert (k, v) (set m)"
  by (induction k v m rule: bt_put.induct) auto

lemma st_ins_within:
  assumes "st_within B x" and "b \<in> B"
  shows "st_within B (st_ins L s b x)"
proof (cases x)
  case (Pair st d)
  have "snd ` set (bt_put s b (st_mem st)) \<subseteq> insert b (snd ` set (st_mem st))"
    using image_mono [OF bt_put_subset [of s b "st_mem st"], of snd] by simp
  then have "st_within B (st\<lparr>st_index := bt_put s (segment_id_of L b) (st_index st), st_mem := bt_put s b (st_mem st)\<rparr>, d)"
    using assms Pair by (auto simp: st_within_def)
  from st_evict_within [OF this] show ?thesis by (simp only: Pair st_ins_def st_insert_def split)
qed

lemma st_prune_within: "st_within B x \<Longrightarrow> st_within B (st_prune f x)"
proof (cases x)
  case (Pair st d)
  moreover assume "st_within B x"
  ultimately show ?thesis
    using ran_st_unlink [of "st\<lparr>st_mem := bt_split_off f (st_mem st), st_index := bt_split_off f (st_index st)\<rparr>"
        "map snd (filter (\<lambda>(k, _). k < f) (st_index st))" d]
    by (auto simp: st_prune_def st_prune_below_def Let_def st_within_def bt_split_off_def)
qed

lemma st_run_within:
  "st_within B x \<Longrightarrow> contents ops \<subseteq> B \<Longrightarrow> st_within B (run_cache (st_ins L) st_prune ops x)"
proof (induction ops arbitrary: x)
  case (Cons y ops)
  then have "contents ops \<subseteq> B" by (auto simp: contents_def)
  with Cons show ?case
    by (cases y) (auto simp: contents_def intro!: Cons.IH st_ins_within st_prune_within)
qed simp

lemma st_get_within: "st_within B (st, d) \<Longrightarrow> st_get s st d = Some b \<Longrightarrow> b \<in> B"
  by (auto simp: st_within_def st_get_def bind_eq_Some_conv split: option.splits dest!: map_of_SomeD intro: ranI)

lemma spec_cache_contents:
  assumes "spec_cache ops s = Some b"
  shows "b \<in> contents ops"
proof -
  have "run_cache (\<lambda>s c m. m(s \<mapsto> c)) (\<lambda>f m s. if f \<le> s then m s else None) ops m s = Some b \<Longrightarrow>
      ran m \<subseteq> B \<Longrightarrow> contents ops \<subseteq> B \<Longrightarrow> b \<in> B" for m B
  proof (induction ops arbitrary: m)
    case (Cons y ops)
    then have "contents ops \<subseteq> B" by (auto simp: contents_def)
    moreover have "ran (m(k \<mapsto> c)) \<subseteq> B" if "y = Insert k c" for k c
      using Cons.prems(2,3) that by (auto simp: contents_def ran_def split: if_splits)
    moreover have "ran (\<lambda>s. if f \<le> s then m s else None) \<subseteq> B" for f
      using Cons.prems(2) by (auto simp: ran_def split: if_splits)
    ultimately show ?case using Cons by (cases y) (simp_all only: run_cache.simps)
  qed (auto intro: ranI)
  from this [of Map.empty "contents ops"] assms show ?thesis by (simp add: spec_cache_def)
qed

text \<open>
  C6: A store with a spill directory, however small its memory tier, behaves as a plain
  map from sequence numbers to bytes under any sequence of \<open>insert\<close> and \<open>prune_below\<close>
  (when no disk operation fails): \<open>get\<close> returns exactly what was last inserted and not
  pruned, \<open>has\<close> is membership, and the memory tier never holds more than its capacity.
  The hypothesis is that the segments in play have distinct content ids.
\<close>

theorem store_refines_map:
  assumes "inj_on (segment_id_of L) (contents ops \<union> ran d)"
  shows "case run_cache (st_ins L) st_prune ops (st_with_disk cap dir, d) of (st, d') \<Rightarrow>
     st_get s st d' = spec_cache ops s
     \<and> (st_has s st d' \<longleftrightarrow> spec_cache ops s \<noteq> None)
     \<and> length (st_mem st) \<le> cap"
proof -
  let ?x = "run_cache (st_ins L) st_prune ops (st_with_disk cap dir, d)"
  obtain st d' where x: "?x = (st, d')" by (cases ?x)
  have ok: "st_disk_ok L (st, d')"
    using st.run_refines [of L "(st_with_disk cap dir, d)" Map.empty ops] x
    by (simp add: fun_eq_iff)
  have H: "map_option (segment_id_of L) (st_get s st d') = map_option (segment_id_of L) (spec_cache ops s)"
    using st.run_get [of L "(st_with_disk cap dir, d)" s ops] x by simp
  have "st_within (contents ops \<union> ran d) (st, d')"
    unfolding x [symmetric] by (rule st_run_within) (simp_all add: st_within_def st_with_disk_def)
  then have "st_get s st d' = spec_cache ops s"
    using H assms st_get_within [of "contents ops \<union> ran d" st d' s] spec_cache_contents [of ops s]
    by (cases "st_get s st d'"; cases "spec_cache ops s") (auto dest: inj_onD)
  moreover have "length (st_mem st) \<le> cap"
    using ok st_run_capacity [of L ops "(st_with_disk cap dir, d)"] x
    by (simp add: st_disk_ok_def)
  ultimately show ?thesis using x by (simp add: st_has_iff_get)
qed

theorem store_refines_map_witness:
  "case run_cache (st_ins (toy_libs\<lparr>blake2b256 := \<lambda>x. x\<rparr>)) st_prune [Insert 11 [5], Insert 12 [6, 7], Insert 13 [8], Prune 12]
       (st_with_disk 1 ''spill'', Map.empty) of (st, d) \<Rightarrow>
     st_get 12 st d = Some [6, 7] \<and> st_get 11 st d = None \<and> length (st_mem st) \<le> 1"
proof -
  have "contents [Insert 11 [5], Insert 12 [6, 7], Insert 13 [8], Prune (12 :: u64)] = {[5], [6, 7], [8 :: u8]}"
    by (auto simp: contents_def)
  moreover have "inj_on (segment_id_of (toy_libs\<lparr>blake2b256 := \<lambda>x. x\<rparr>)) {[5], [6, 7], [8]}"
    by (simp add: segment_id_of_def)
  ultimately have inj: "inj_on (segment_id_of (toy_libs\<lparr>blake2b256 := \<lambda>x. x\<rparr>)) (contents [Insert 11 [5], Insert 12 [6, 7], Insert 13 [8], Prune (12 :: u64)]
      \<union> ran Map.empty)" by simp
  show ?thesis
    using store_refines_map [OF inj, where cap = 1 and dir = "''spill''" and s = 12]
      store_refines_map [OF inj, where cap = 1 and dir = "''spill''" and s = 11]
    by (simp add: case_prod_beta spec_cache_def)
qed

text \<open>
  \<open>prune_below\<close> unlinks exactly the spill files whose content id belongs to a dropped
  sequence number and to no retained one; every other path of the file system, in
  particular a file that a retained segment shares, is left as it was.
\<close>

theorem prune_unlinks_unreferenced:
  "snd (st_prune_below no_fault fl st d) p =
     (if \<exists>k i. (k, i) \<in> set (st_index st) \<and> k < fl \<and> st_path_for st i = Some p
           \<and> (\<nexists>j. fl \<le> j \<and> (j, i) \<in> set (st_index st))
      then None else d p)"
proof -
  let ?st = "st\<lparr>st_mem := bt_split_off fl (st_mem st), st_index := bt_split_off fl (st_index st)\<rparr>"
  have P: "st_path_for ?st = st_path_for st" by (rule st_path_cong) simp
  show ?thesis
  proof (cases "st_dir st")
    case None
    then show ?thesis by (simp add: st_prune_below_def Let_def st_path_for_def)
  next
    case (Some dir)
    then have "snd (st_prune_below no_fault fl st d) =
        st_unlink no_fault ?st (map snd (filter (\<lambda>(k, _). k < fl) (st_index st))) d"
      by (simp add: st_prune_below_def Let_def)
    then show ?thesis
      by (simp only: st_unlink_disk P) (auto simp: bt_split_off_def image_iff Bex_def)
  qed
qed

end
