(* ===== verification/Buffer_Map.thy ===== *)
theory Buffer_Map
  imports Prelude
begin

unbundle bit_operations_syntax

section \<open>Buffer maps\<close>

text \<open>
  Models \<open>src/crates/unstation-core/src/buffermap.rs\<close>: the bitfield of held segments
  relative to a base sequence number. The bit vector (\<open>BitVec<u8, Lsb0>\<close>) is the list
  of its bits; \<open>to_bytes\<close> packs eight bits per byte, least significant first, and fills
  the last byte with zeros. What a client may assume of such a map is the locale
  \<open>availability\<close>: the map denotes a set of sequence numbers, \<open>set\<close> adds one at or
  above the base, \<open>prune_below\<close> removes those below a floor.
\<close>

record buffer_map =
  bm_base :: u64
  bm_bits :: "bool list"

definition bm_new :: "u64 \<Rightarrow> buffer_map" where
  "bm_new b = \<lparr>bm_base = b, bm_bits = []\<rparr>"

text \<open>The bits of a byte slice viewed \<open>Lsb0\<close>, and the packing of bits into bytes.\<close>

definition view_bits :: "bytes \<Rightarrow> bool list" where
  "view_bits bs = concat (map (\<lambda>b. map (bit b) [0..<8]) bs)"

definition pack_bits :: "bool list \<Rightarrow> bytes" where
  "pack_bits bits = map (horner_sum of_bool 2) (chunks 8 bits)"

definition bm_from_bytes :: "u64 \<Rightarrow> bytes \<Rightarrow> buffer_map" where
  "bm_from_bytes b bs = \<lparr>bm_base = b, bm_bits = view_bits bs\<rparr>"

definition bm_has :: "buffer_map \<Rightarrow> u64 \<Rightarrow> bool" where
  "bm_has m seq =
     (if seq < bm_base m then False
      else let idx = unat (seq - bm_base m)
           in if idx < length (bm_bits m) then bm_bits m ! idx else False)"

text \<open>\<open>resize(n, false)\<close> only ever lengthens here: it is called when \<open>idx >= len\<close>.\<close>

definition bm_set :: "u64 \<Rightarrow> buffer_map \<Rightarrow> buffer_map" where
  "bm_set seq m =
     (if seq < bm_base m then m
      else let idx = unat (seq - bm_base m);
               bits = (if length (bm_bits m) \<le> idx
                       then bm_bits m @ replicate (idx + 1 - length (bm_bits m)) False
                       else bm_bits m)
           in m\<lparr>bm_bits := bits[idx := True]\<rparr>)"

definition bm_count :: "buffer_map \<Rightarrow> nat" where
  "bm_count m = length (filter id (bm_bits m))"

text \<open>\<open>iter_ones()\<close>: the indices of the set bits, ascending.\<close>

definition iter_ones :: "bool list \<Rightarrow> nat list" where
  "iter_ones bits = filter (\<lambda>i. bits ! i) [0..<length bits]"

definition bm_highest :: "buffer_map \<Rightarrow> u64 option" where
  "bm_highest m =
     (case rev (iter_ones (bm_bits m)) of
        [] \<Rightarrow> None
      | i # _ \<Rightarrow> checked_add (bm_base m) (of_nat i))"

definition bm_to_bytes :: "buffer_map \<Rightarrow> bytes" where
  "bm_to_bytes m = pack_bits (bm_bits m)"

definition bm_prune_below :: "u64 \<Rightarrow> buffer_map \<Rightarrow> buffer_map" where
  "bm_prune_below fl m =
     (if fl \<le> bm_base m then m
      else let n = unat (fl - bm_base m)
           in \<lparr>bm_base = fl,
              bm_bits = (if length (bm_bits m) \<le> n then [] else drop n (bm_bits m))\<rparr>)"

subsection \<open>The set of held sequence numbers\<close>

locale availability =
  fixes has :: "'m \<Rightarrow> 's::linorder \<Rightarrow> bool"
    and base :: "'m \<Rightarrow> 's"
    and add :: "'s \<Rightarrow> 'm \<Rightarrow> 'm"
    and prune :: "'s \<Rightarrow> 'm \<Rightarrow> 'm"
  assumes has_base: "has m s \<Longrightarrow> base m \<le> s"
    and has_add: "has (add s m) t \<longleftrightarrow> has m t \<or> (t = s \<and> base m \<le> s)"
    and base_add: "base (add s m) = base m"
    and has_prune: "has (prune f m) t \<longleftrightarrow> has m t \<and> f \<le> t"
    and base_prune: "base (prune f m) = max f (base m)"
begin

lemma add_below: "s < base m \<Longrightarrow> has (add s m) t = has m t"
  by (auto simp: has_add)

lemma prune_prune: "has (prune f (prune g m)) t = has (prune (max f g) m) t"
  by (auto simp: has_prune)

lemma prune_add: "f \<le> s \<Longrightarrow> base m \<le> s \<Longrightarrow> has (prune f (add s m)) t = has (add s (prune f m)) t"
  by (auto simp: has_prune has_add base_prune)

lemma add_all: "base m \<le> s \<Longrightarrow> {t. has (add s m) t} = insert s {t. has m t}"
  by (auto simp: has_add)

lemma fold_add_iff:
  "has (fold add ss m) t \<longleftrightarrow> has m t \<or> (t \<in> set ss \<and> base m \<le> t)"
  by (induction ss arbitrary: m) (auto simp: has_add base_add)

end

lemma bm_has_idx:
  "bm_has m s \<longleftrightarrow> bm_base m \<le> s \<and> unat s - unat (bm_base m) < length (bm_bits m)
     \<and> bm_bits m ! (unat s - unat (bm_base m))"
  by (auto simp: bm_has_def Let_def unat_sub not_less leD)

lemma nth_extend_update:
  assumes "length xs \<le> i"
  shows "j < Suc i \<Longrightarrow> (xs @ replicate (i + 1 - length xs) False)[i := True] ! j \<longleftrightarrow>
    j = i \<or> (j < length xs \<and> xs ! j)"
  using assms by (auto simp: nth_list_update nth_append)

lemma bm_set_bits:
  assumes "bm_base m \<le> s"
  shows "j < length (bm_bits (bm_set s m)) \<and> bm_bits (bm_set s m) ! j \<longleftrightarrow>
    j = unat s - unat (bm_base m) \<or> (j < length (bm_bits m) \<and> bm_bits m ! j)"
proof -
  let ?i = "unat s - unat (bm_base m)"
  have idx: "unat (s - bm_base m) = ?i" using assms by (rule unat_sub)
  show ?thesis
  proof (cases "length (bm_bits m) \<le> ?i")
    case True
    then have eq: "bm_bits (bm_set s m) =
        (bm_bits m @ replicate (?i + 1 - length (bm_bits m)) False)[?i := True]"
      using assms idx by (simp add: bm_set_def Let_def not_less [symmetric])
    then have len: "length (bm_bits (bm_set s m)) = Suc ?i" using True by simp
    show ?thesis
      using nth_extend_update [OF True, of j] True unfolding eq [symmetric] len by auto
  next
    case False
    then have "bm_bits (bm_set s m) = (bm_bits m)[?i := True]"
      using assms idx by (simp add: bm_set_def Let_def not_less [symmetric])
    with False show ?thesis by (auto simp: nth_list_update)
  qed
qed

lemma bm_base_set [simp]: "bm_base (bm_set s m) = bm_base m"
  by (simp add: bm_set_def Let_def)

lemma bm_has_set: "bm_has (bm_set s m) t \<longleftrightarrow> bm_has m t \<or> (t = s \<and> bm_base m \<le> s)"
proof (cases "bm_base m \<le> s")
  case True
  have "bm_base m \<le> t \<Longrightarrow>
      unat t - unat (bm_base m) = unat s - unat (bm_base m) \<longleftrightarrow> t = s"
    using True by (auto simp: word_le_nat_alt word_unat_eq_iff)
  then show ?thesis
    using True bm_set_bits [OF True, of "unat t - unat (bm_base m)"]
    by (auto simp: bm_has_idx)
next
  case False
  then have "s < bm_base m" by simp
  then show ?thesis using False by (simp add: bm_set_def)
qed

lemma bm_has_prune: "bm_has (bm_prune_below f m) t \<longleftrightarrow> bm_has m t \<and> f \<le> t"
proof (cases "f \<le> bm_base m")
  case True
  then show ?thesis by (auto simp: bm_prune_below_def bm_has_idx)
next
  case False
  have n: "unat (f - bm_base m) = unat f - unat (bm_base m)"
    using False by (intro unat_sub) simp
  have "f \<le> t \<Longrightarrow> unat f - unat (bm_base m) + (unat t - unat f) = unat t - unat (bm_base m)"
    using False by (simp add: word_le_nat_alt)
  then show ?thesis
    using False by (auto simp: bm_prune_below_def bm_has_idx n Let_def word_le_nat_alt)
qed

lemma bm_base_prune: "bm_base (bm_prune_below f m) = max f (bm_base m)"
  by (auto simp: bm_prune_below_def Let_def max_def)

interpretation bm: availability bm_has bm_base bm_set bm_prune_below
proof unfold_locales
  show "\<And>m s. bm_has m s \<Longrightarrow> bm_base m \<le> s" by (simp add: bm_has_idx)
qed (simp_all add: bm_has_set bm_has_prune bm_base_prune)

lemma bm_has_new [simp]: "\<not> bm_has (bm_new b) s"
  by (simp add: bm_has_def bm_new_def)

subsection \<open>Size of the bitfield\<close>

lemma length_bm_set:
  "length (bm_bits (bm_set s m)) =
     (if s < bm_base m then length (bm_bits m)
      else max (length (bm_bits m)) (unat s - unat (bm_base m) + 1))"
  by (auto simp: bm_set_def Let_def unat_sub not_less)

lemma length_bm_prune: "length (bm_bits (bm_prune_below f m)) \<le> length (bm_bits m)"
  by (simp add: bm_prune_below_def Let_def)

lemma length_view_bits [simp]: "length (view_bits bs) = 8 * length bs"
  by (induction bs) (simp_all add: view_bits_def)

subsection \<open>The highest held sequence number\<close>

lemma set_iter_ones: "set (iter_ones bits) = {i. i < length bits \<and> bits ! i}"
  by (auto simp: iter_ones_def)

lemma sorted_iter_ones: "sorted (iter_ones bits)"
  by (simp add: iter_ones_def sorted_wrt_filter)

lemma bm_highest_last:
  "bm_highest m = (if iter_ones (bm_bits m) = [] then None
     else checked_add (bm_base m) (of_nat (last (iter_ones (bm_bits m)))))"
  by (cases "iter_ones (bm_bits m)" rule: rev_cases) (simp_all add: bm_highest_def)

lemma last_iter_ones:
  assumes "i < length bits" and "bits ! i"
  shows "i \<le> last (iter_ones bits)" and "last (iter_ones bits) < length bits"
    and "bits ! last (iter_ones bits)"
proof -
  have i: "i \<in> set (iter_ones bits)" using assms by (simp add: set_iter_ones)
  then have ne: "iter_ones bits \<noteq> []" by auto
  with last_in_set [OF ne] show "last (iter_ones bits) < length bits"
    and "bits ! last (iter_ones bits)" by (simp_all add: set_iter_ones)
  obtain ys z where yz: "iter_ones bits = ys @ [z]" using ne by (cases "iter_ones bits" rule: rev_cases) auto
  with sorted_iter_ones [of bits] have "\<forall>x \<in> set ys. x \<le> z" by (simp add: sorted_wrt_append)
  with i yz show "i \<le> last (iter_ones bits)" by auto
qed

subsection \<open>Wire form\<close>

lemma bit_of_bits: "bit (horner_sum of_bool 2 cs :: u8) n \<longleftrightarrow> n < 8 \<and> n < length cs \<and> cs ! n"
  by (auto simp: bit_horner_sum_bit_word_iff)

lemma view_one_chunk:
  "length cs \<le> 8 \<Longrightarrow>
     map (bit (horner_sum of_bool 2 cs :: u8)) [0..<8] = cs @ replicate (8 - length cs) False"
  by (rule nth_equalityI) (auto simp: bit_of_bits nth_append)

text \<open>Unpacking what was packed gives the bits back, padded with zeros to whole bytes.\<close>

lemma view_pack_bits: "\<exists>k < 8. view_bits (pack_bits bits) = bits @ replicate k False"
proof (induction "8::nat" bits rule: chunks.induct)
  case (1 bits)
  show ?case
  proof (cases "length bits < 8")
    case True
    then have "chunks 8 bits = (if bits = [] then [] else [bits])"
      by (simp add: chunks.simps [of 8 bits])
    moreover have "8 - length bits < 8" if "bits \<noteq> []" using that by (cases bits) auto
    ultimately show ?thesis
      using view_one_chunk [of bits] True
      by (cases "bits = []") (auto simp: view_bits_def pack_bits_def)
  next
    case False
    then have ne: "bits \<noteq> []" by auto
    have "view_bits (pack_bits bits) = take 8 bits @ view_bits (pack_bits (drop 8 bits))"
      using view_one_chunk [of "take 8 bits"] False ne
      by (simp add: view_bits_def pack_bits_def chunks.simps [of 8 bits])
    moreover obtain k where "k < 8"
      and "view_bits (pack_bits (drop 8 bits)) = drop 8 bits @ replicate k False"
      using 1 ne by auto
    ultimately show ?thesis by (intro exI [of _ k]) (simp flip: append_assoc)
  qed
qed

lemma bm_has_from_to: "bm_has (bm_from_bytes (bm_base m) (bm_to_bytes m)) s = bm_has m s"
proof -
  obtain k where "view_bits (bm_to_bytes m) = bm_bits m @ replicate k False"
    using view_pack_bits unfolding bm_to_bytes_def by blast
  then show ?thesis
    by (auto simp: bm_has_idx bm_from_bytes_def nth_append)
qed

lemma length_chunks8: "length (chunks 8 xs) = (length xs + 7) div 8"
proof (induction "8::nat" xs rule: chunks.induct)
  case (1 xs)
  show ?case
  proof (cases "xs = []")
    case False
    then have "length (chunks 8 xs) = Suc ((length xs - 8 + 7) div 8)"
      using 1 by (simp add: chunks.simps [of 8 xs])
    moreover have "Suc ((n - 8 + 7) div 8) = (n + 7) div 8" if "0 < n" for n :: nat
      using that by (cases "n < 8") (simp_all add: div_if [of "n + 7"])
    ultimately show ?thesis using False by simp
  qed simp
qed

subsection \<open>Properties\<close>

text \<open>
  A buffer map that is put on the wire (\<open>to_bytes\<close>) and read back at the same base
  (\<open>from_bytes\<close>) holds exactly the same segments, whatever its length, in one byte per
  eight segments of the window.
\<close>

theorem buffermap_wire_roundtrip:
  "bm_has (bm_from_bytes (bm_base m) (bm_to_bytes m)) = bm_has m
    \<and> length (bm_to_bytes m) = (length (bm_bits m) + 7) div 8"
  using bm_has_from_to [of m] by (auto simp: bm_to_bytes_def pack_bits_def length_chunks8)

text \<open>
  C12: Any sequence of \<open>set\<close> calls on a fresh map followed by \<open>prune_below\<close> holds exactly
  the marked segments at or above both the base and the floor, and its bitfield spans no
  more than the distance from the floor to the highest marked segment, so a window that
  slides with playback does not grow.
\<close>

theorem buffermap_window:
  "(bm_has (bm_prune_below f (fold bm_set ss (bm_new b))) t \<longleftrightarrow> t \<in> set ss \<and> max b f \<le> t)
    \<and> length (bm_bits (bm_prune_below f (fold bm_set ss (bm_new b))))
        \<le> Max (insert 0 ((\<lambda>s. unat s + 1) ` set ss)) - unat (max b f)"
proof -
  let ?m = "fold bm_set ss (bm_new b)" and ?M = "Max (insert 0 ((\<lambda>s. unat s + 1) ` set ss))"
  have base: "bm_base (fold bm_set xs m) = bm_base m" for xs m
    by (induction xs arbitrary: m) auto
  have len: "length (bm_bits (fold bm_set xs (bm_new b)))
      \<le> Max (insert 0 ((\<lambda>s. unat s + 1) ` set xs)) - unat b" for xs
  proof (induction xs rule: rev_induct)
    case (snoc x xs)
    let ?A = "Max (insert 0 ((\<lambda>s. unat s + 1) ` set xs))"
    have "Max (insert 0 ((\<lambda>s. unat s + 1) ` set (xs @ [x]))) = max (unat x + 1) ?A"
      by (simp add: insert_commute [of 0])
    with snoc base [of xs "bm_new b"] show ?case
      by (auto simp: length_bm_set bm_new_def word_le_nat_alt not_less)
  qed (simp add: bm_new_def)
  have b: "bm_base ?m = b" using base [of ss "bm_new b"] by (simp add: bm_new_def)
  have "length (bm_bits (bm_prune_below f ?m)) \<le> ?M - unat (max b f)"
  proof (cases "f \<le> b")
    case True
    then show ?thesis using len [of ss] b by (simp add: bm_prune_below_def max_def)
  next
    case False
    then have "unat (f - b) = unat f - unat b" by (intro unat_sub) simp
    with False show ?thesis using len [of ss] b
      by (auto simp: bm_prune_below_def Let_def max_def)
  qed
  then show ?thesis
    using bm.fold_add_iff [of ss "bm_new b" t]
    by (auto simp: bm.has_prune) (simp_all add: bm_new_def)
qed

text \<open>
  \<open>highest\<close> is the greatest held sequence number. It reports nothing exactly when no
  bit is set or, on a hostile map, when the top bit lies past \<open>u64::MAX\<close>: it never wraps.
  On a map whose range fits in 64 bits it therefore fails only when nothing is held.
\<close>

theorem buffermap_highest:
  assumes "length (bm_bits m) \<le> 2 ^ 64"
  shows "(\<forall>h. bm_highest m = Some h \<longrightarrow> bm_has m h \<and> (\<forall>s. bm_has m s \<longrightarrow> s \<le> h))
    \<and> (bm_highest m = None \<longleftrightarrow>
        (\<forall>i < length (bm_bits m). \<not> bm_bits m ! i)
        \<or> (\<exists>i < length (bm_bits m). bm_bits m ! i \<and> 2 ^ 64 \<le> unat (bm_base m) + i))
    \<and> (unat (bm_base m) + length (bm_bits m) \<le> 2 ^ 64 \<longrightarrow>
         (bm_highest m = None \<longleftrightarrow> (\<forall>s. \<not> bm_has m s)))"
proof (cases "iter_ones (bm_bits m) = []")
  case True
  then have "\<forall>i < length (bm_bits m). \<not> bm_bits m ! i" using set_iter_ones [of "bm_bits m"] by auto
  with True show ?thesis by (auto simp: bm_highest_last bm_has_idx)
next
  case False
  let ?bits = "bm_bits m" and ?B = "unat (bm_base m)" and ?l = "last (iter_ones (bm_bits m))"
  have l: "?l < length ?bits" "?bits ! ?l" and mx: "\<And>i. i < length ?bits \<Longrightarrow> ?bits ! i \<Longrightarrow> i \<le> ?l"
    using last_in_set [OF False] last_iter_ones by (auto simp: set_iter_ones)
  have u: "unat (of_nat ?l :: u64) = ?l" using l(1) assms by (intro unat_of_nat_exact) simp
  show ?thesis
  proof (cases "?B + ?l < 2 ^ 64")
    case True
    let ?h = "bm_base m + of_nat ?l"
    have h: "bm_highest m = Some ?h" and uh: "unat ?h = ?B + ?l"
      using False True u unat_plus_exact [of "bm_base m" "of_nat ?l"]
      by (simp_all add: bm_highest_last checked_add_def)
    have "bm_has m ?h" using l uh by (simp add: bm_has_idx word_le_nat_alt)
    moreover have "s \<le> ?h" if "bm_has m s" for s
      using that mx [of "unat s - ?B"] uh by (auto simp: bm_has_idx word_le_nat_alt)
    moreover have "\<not> 2 ^ 64 \<le> ?B + i" if "i < length ?bits" "?bits ! i" for i
      using mx [OF that] True by simp
    ultimately show ?thesis using h l by auto
  next
    case no: False
    then have "bm_highest m = None" using False u by (simp add: bm_highest_last checked_add_def)
    with no l show ?thesis by auto
  qed
qed

theorem buffermap_highest_witness:
  "bm_has (bm_from_bytes 40 [5]) 42 \<and> {s. bm_has (bm_from_bytes 40 [5]) s} \<subseteq> {..42}"
proof -
  have "bm_bits (bm_from_bytes 40 [5]) = [True, False, True, False, False, False, False, False]"
    by (simp add: bm_from_bytes_def view_bits_def upt_conv_Cons bit_iff_odd)
  then have "bm_highest (bm_from_bytes 40 [5]) = Some 42"
    by (simp add: bm_highest_def iter_ones_def upt_conv_Cons checked_add_def)
       (simp add: bm_from_bytes_def)
  then show ?thesis
    using buffermap_highest [of "bm_from_bytes 40 [5]"]
    by (auto simp: bm_from_bytes_def)
qed

end
