(* ===== verification/Picker.thy ===== *)
theory Picker
  imports Store Buffer_Map
begin

section \<open>Piece picking\<close>

text \<open>
  Models \<open>config.rs\<close>, \<open>peer.rs\<close>, \<open>picker.rs\<close> and \<open>engine.rs\<close> of
  \<open>src/crates/unstation-core/src\<close>. The picker is a pure function of a snapshot; its
  random generator is the argument \<open>gen\<close>, which draws a value and returns the advanced
  generator. Rust's \<open>sort_by\<close> is stable, as \<^const>\<open>sort_key\<close> is, and \<open>powf\<close> is \<open>powr\<close>.
\<close>

subsection \<open>Configuration and peer state\<close>

datatype mode = Live | Vod
datatype role = Publisher | Viewer | SeedRole

record picker_weights =
  w_d :: real
  w_r :: real
  pw_beta :: real
  panic_horizon_ms :: u64
  fallback_slack_ms :: u64

definition default_weights :: picker_weights where
  "default_weights = \<lparr>w_d = 1, w_r = 3 / 10, pw_beta = 4, panic_horizon_ms = 3000, fallback_slack_ms = 500\<rparr>"

record mesh_config =
  cfg_mode :: mode
  cfg_role :: role
  cfg_window :: u32
  cfg_tick_ms :: u64
  cfg_seg_ms :: u64
  cfg_upload_budget_bps :: u64
  cfg_weights :: picker_weights

definition default_config :: mesh_config where
  "default_config = \<lparr>cfg_mode = Live, cfg_role = Viewer, cfg_window = 16, cfg_tick_ms = 100,
     cfg_seg_ms = 2000, cfg_upload_budget_bps = 0, cfg_weights = default_weights\<rparr>"

record ewma =
  ew_value :: real
  ew_alpha :: real
  ew_seeded :: bool

definition ewma_new :: "real \<Rightarrow> ewma" where
  "ewma_new a = \<lparr>ew_value = 0, ew_alpha = a, ew_seeded = False\<rparr>"

definition ewma_update :: "real \<Rightarrow> ewma \<Rightarrow> ewma" where
  "ewma_update x e =
     (if ew_seeded e then e\<lparr>ew_value := ew_alpha e * x + (1 - ew_alpha e) * ew_value e\<rparr>
      else e\<lparr>ew_value := x, ew_seeded := True\<rparr>)"

definition ewma_or :: "ewma \<Rightarrow> real \<Rightarrow> real" where
  "ewma_or e dflt = (if ew_seeded e then ew_value e else dflt)"

record peer_state =
  ps_id :: peer_id
  ps_buffer :: buffer_map
  ps_throughput_bps :: ewma
  ps_rtt_ms :: ewma
  ps_pending_bytes :: u64
  ps_reputation :: real
  ps_strikes :: u32
  ps_banned :: bool
  ps_choked :: bool
  ps_choked_by :: bool
  ps_serve_queue :: "u64 list"

definition peer_state_new :: "peer_id \<Rightarrow> peer_state" where
  "peer_state_new i = \<lparr>ps_id = i, ps_buffer = bm_new 0, ps_throughput_bps = ewma_new (3 / 10),
     ps_rtt_ms = ewma_new (3 / 10), ps_pending_bytes = 0, ps_reputation = 1, ps_strikes = 0,
     ps_banned = False, ps_choked = False, ps_choked_by = False, ps_serve_queue = []\<rparr>"

subsection \<open>The picker\<close>

datatype zone = Panic | Mid | Prefetch
datatype source = Peer peer_id | Seed | Bulletin

record request =
  rq_seq :: u64
  rq_source :: source
  rq_redundant :: bool

record peer_view =
  pv_id :: peer_id
  pv_buffer :: buffer_map
  pv_throughput_bps :: real
  pv_rtt_ms :: real
  pv_pending_bytes :: u64
  pv_reputation :: real

record pick_input =
  pi_play_seq :: u64
  pi_head_seq :: u64
  pi_now_ms :: u64
  pi_window :: u32
  pi_seg_bytes :: u64
  pi_seg_ms :: u64
  pi_peers :: "peer_view list"
  pi_weights :: picker_weights
  pi_seed_available :: bool
  pi_bulletin_available :: bool

definition deadline_ms :: "pick_input \<Rightarrow> u64 \<Rightarrow> u64" where
  "deadline_ms inp seq = pi_now_ms inp + sat_sub seq (pi_play_seq inp) * pi_seg_ms inp"

definition time_to_deadline :: "pick_input \<Rightarrow> u64 \<Rightarrow> u64" where
  "time_to_deadline inp seq = sat_sub (deadline_ms inp seq) (pi_now_ms inp)"

definition zone_of :: "pick_input \<Rightarrow> u64 \<Rightarrow> zone" where
  "zone_of inp seq =
     (if time_to_deadline inp seq \<le> panic_horizon_ms (pi_weights inp) then Panic
      else if pi_play_seq inp + ucast (pi_window inp) * 2 div 3 < seq then Prefetch
      else Mid)"

definition holders :: "pick_input \<Rightarrow> u64 \<Rightarrow> peer_view list" where
  "holders inp seq = filter (\<lambda>p. bm_has (pv_buffer p) seq) (pi_peers inp)"

definition availability :: "pick_input \<Rightarrow> u64 \<Rightarrow> nat" where
  "availability inp seq = length (holders inp seq)"

definition clamp :: "'a::linorder \<Rightarrow> 'a \<Rightarrow> 'a \<Rightarrow> 'a" where
  "clamp lo hi x = (if x < lo then lo else if hi < x then hi else x)"

definition expected_time_ms :: "pick_input \<Rightarrow> peer_view \<Rightarrow> real" where
  "expected_time_ms inp p =
     (let bw = max (pv_throughput_bps p) 1
      in (of_nat (unat (pv_pending_bytes p + pi_seg_bytes inp)) * 8 / bw * 1000 + pv_rtt_ms p)
           / clamp (1 / 10) 1 (pv_reputation p))"

definition holders_by_time :: "pick_input \<Rightarrow> u64 \<Rightarrow> (peer_view \<times> real) list" where
  "holders_by_time inp seq = sort_key snd (map (\<lambda>p. (p, expected_time_ms inp p)) (holders inp seq))"

definition utility :: "pick_input \<Rightarrow> u64 \<Rightarrow> real" where
  "utility inp seq =
     (let dl = of_nat (unat (max (time_to_deadline inp seq) 1));
          urgency = 1 / dl;
          rarity = 1 / of_nat (max (availability inp seq) 1)
      in w_d (pi_weights inp) * urgency + w_r (pi_weights inp) * rarity)"

definition f64_MIN_POSITIVE :: real where
  "f64_MIN_POSITIVE = 1 / 2 ^ 1022"

text \<open>The two loops run over the same range and skip the same sequence numbers.\<close>

definition plan_range :: "pick_input \<Rightarrow> u64 list" where
  "plan_range inp = word_range (pi_play_seq inp) (pi_play_seq inp + ucast (pi_window inp))"

definition plan_skips :: "pick_input \<Rightarrow> (u64 \<Rightarrow> bool) \<Rightarrow> u64 \<Rightarrow> bool" where
  "plan_skips inp have' seq \<longleftrightarrow> pi_head_seq inp < seq \<or> have' seq"

fun plan_umax :: "pick_input \<Rightarrow> (u64 \<Rightarrow> bool) \<Rightarrow> u64 list \<Rightarrow> real \<Rightarrow> real" where
  "plan_umax inp have' [] u = u"
| "plan_umax inp have' (seq # seqs) u =
     plan_umax inp have' seqs
       (if plan_skips inp have' seq then u
        else if zone_of inp seq = Mid then max u (utility inp seq) else u)"

definition plan_panic :: "pick_input \<Rightarrow> u64 \<Rightarrow> request list" where
  "plan_panic inp seq =
     (let hs = holders_by_time inp seq;
          slack = of_nat (unat (time_to_deadline inp seq)) + of_nat (unat (fallback_slack_ms (pi_weights inp)))
      in if hs = [] \<or> slack < snd (hd hs) then
           (if pi_seed_available inp then [\<lparr>rq_seq = seq, rq_source = Seed, rq_redundant = False\<rparr>]
            else if pi_bulletin_available inp then [\<lparr>rq_seq = seq, rq_source = Bulletin, rq_redundant = False\<rparr>]
            else [])
           @ (case hs of
                (p, _) # _ \<Rightarrow> [\<lparr>rq_seq = seq, rq_source = Peer (pv_id p), rq_redundant = True\<rparr>]
              | [] \<Rightarrow> [])
         else
           map (\<lambda>(i, (p, _)). \<lparr>rq_seq = seq, rq_source = Peer (pv_id p), rq_redundant = 0 < i\<rparr>)
             (enumerate 0 (take 2 hs)))"

definition plan_mid :: "('r \<Rightarrow> real \<times> 'r) \<Rightarrow> pick_input \<Rightarrow> real \<Rightarrow> u64 \<Rightarrow> 'r \<Rightarrow> request list \<times> 'r" where
  "plan_mid gen inp u_max seq rng =
     (case holders_by_time inp seq of
        [] \<Rightarrow> ([], rng)
      | (p, _) # _ \<Rightarrow>
          (let prob = min ((utility inp seq / u_max) powr pw_beta (pi_weights inp)) 1;
               (x, rng') = gen rng
           in (if x \<le> prob then [\<lparr>rq_seq = seq, rq_source = Peer (pv_id p), rq_redundant = False\<rparr>] else [],
               rng')))"

definition plan_prefetch :: "pick_input \<Rightarrow> u64 \<Rightarrow> request list" where
  "plan_prefetch inp seq =
     (if availability inp seq \<le> 2 then
        (case holders_by_time inp seq of
           (p, _) # _ \<Rightarrow> [\<lparr>rq_seq = seq, rq_source = Peer (pv_id p), rq_redundant = False\<rparr>]
         | [] \<Rightarrow> [])
      else [])"

definition plan_one :: "('r \<Rightarrow> real \<times> 'r) \<Rightarrow> pick_input \<Rightarrow> (u64 \<Rightarrow> bool) \<Rightarrow> real \<Rightarrow> u64 \<Rightarrow> 'r \<Rightarrow> request list \<times> 'r" where
  "plan_one gen inp have' u_max seq rng =
     (if plan_skips inp have' seq then ([], rng)
      else case zone_of inp seq of
             Panic \<Rightarrow> (plan_panic inp seq, rng)
           | Mid \<Rightarrow> plan_mid gen inp u_max seq rng
           | Prefetch \<Rightarrow> (plan_prefetch inp seq, rng))"

fun plan_loop :: "('r \<Rightarrow> real \<times> 'r) \<Rightarrow> pick_input \<Rightarrow> (u64 \<Rightarrow> bool) \<Rightarrow> real \<Rightarrow> u64 list \<Rightarrow> 'r \<Rightarrow> request list \<times> 'r" where
  "plan_loop gen inp have' u_max [] rng = ([], rng)"
| "plan_loop gen inp have' u_max (seq # seqs) rng =
     (let (out, rng') = plan_one gen inp have' u_max seq rng;
          (out', rng'') = plan_loop gen inp have' u_max seqs rng'
      in (out @ out', rng''))"

definition plan_tick :: "('r \<Rightarrow> real \<times> 'r) \<Rightarrow> pick_input \<Rightarrow> (u64 \<Rightarrow> bool) \<Rightarrow> 'r \<Rightarrow> request list \<times> 'r" where
  "plan_tick gen inp have' rng =
     plan_loop gen inp have' (plan_umax inp have' (plan_range inp) f64_MIN_POSITIVE) (plan_range inp) rng"

subsection \<open>The engine\<close>

record mesh_engine =
  en_cfg :: mesh_config
  en_store :: segment_store
  en_local :: buffer_map
  en_peers :: "(peer_id, peer_state) hash_map"
  en_play_seq :: u64
  en_head_seq :: u64
  en_seed_available :: bool
  en_bulletin_available :: bool
  en_seg_bytes :: u64

definition engine_new :: "mesh_config \<Rightarrow> u64 \<Rightarrow> mesh_engine" where
  "engine_new cfg seg_bytes = \<lparr>en_cfg = cfg, en_store = st_new 4096, en_local = bm_new 0, en_peers = [],
     en_play_seq = 0, en_head_seq = 0, en_seed_available = False, en_bulletin_available = True,
     en_seg_bytes = seg_bytes\<rparr>"

definition en_have :: "mesh_engine \<Rightarrow> u64 \<Rightarrow> bool" where
  "en_have e seq = bm_has (en_local e) seq"

definition en_mark_have :: "u64 \<Rightarrow> mesh_engine \<Rightarrow> mesh_engine" where
  "en_mark_have seq e = e\<lparr>en_local := bm_set seq (en_local e)\<rparr>"

definition peer_view_of :: "peer_state \<Rightarrow> peer_view" where
  "peer_view_of p = \<lparr>pv_id = ps_id p, pv_buffer = ps_buffer p,
     pv_throughput_bps = ewma_or (ps_throughput_bps p) 5000000, pv_rtt_ms = ewma_or (ps_rtt_ms p) 80,
     pv_pending_bytes = ps_pending_bytes p, pv_reputation = ps_reputation p\<rparr>"

definition en_input :: "mesh_engine \<Rightarrow> u64 \<Rightarrow> pick_input" where
  "en_input e now_ms = \<lparr>pi_play_seq = en_play_seq e, pi_head_seq = en_head_seq e, pi_now_ms = now_ms,
     pi_window = cfg_window (en_cfg e), pi_seg_bytes = en_seg_bytes e, pi_seg_ms = cfg_seg_ms (en_cfg e),
     pi_peers = map peer_view_of (filter (\<lambda>p. \<not> ps_banned p) (map snd (en_peers e))),
     pi_weights = cfg_weights (en_cfg e), pi_seed_available = en_seed_available e,
     pi_bulletin_available = en_bulletin_available e\<rparr>"

definition en_plan :: "('r \<Rightarrow> real \<times> 'r) \<Rightarrow> u64 \<Rightarrow> mesh_engine \<Rightarrow> 'r \<Rightarrow> request list \<times> 'r" where
  "en_plan gen now_ms e rng = plan_tick gen (en_input e now_ms) (en_have e) rng"

subsection \<open>What one sequence number contributes\<close>

lemma set_holders_by_time:
  "set (holders_by_time inp seq) = (\<lambda>p. (p, expected_time_ms inp p)) ` set (holders inp seq)"
  by (simp add: holders_by_time_def)

lemma holders_by_time_Nil: "holders_by_time inp seq = [] \<longleftrightarrow> holders inp seq = []"
  using set_holders_by_time [of inp seq] by (metis image_is_empty set_empty)

lemma holders_by_time_head:
  assumes "holders_by_time inp seq = (p, t) # hs"
  shows "p \<in> set (pi_peers inp)" and "bm_has (pv_buffer p) seq" and "t = expected_time_ms inp p"
    and "\<And>q. q \<in> set (pi_peers inp) \<Longrightarrow> bm_has (pv_buffer q) seq \<Longrightarrow> t \<le> expected_time_ms inp q"
proof -
  have "(p, t) \<in> (\<lambda>p. (p, expected_time_ms inp p)) ` set (holders inp seq)"
    using assms set_holders_by_time [of inp seq] by (metis list.set_intros(1))
  then show "p \<in> set (pi_peers inp)" and "bm_has (pv_buffer p) seq" and t: "t = expected_time_ms inp p"
    by (auto simp: holders_def)
  fix q assume q: "q \<in> set (pi_peers inp)" "bm_has (pv_buffer q) seq"
  then have "(q, expected_time_ms inp q) \<in> set ((p, t) # hs)"
    using assms set_holders_by_time [of inp seq] by (auto simp: holders_def)
  moreover have "sorted (map snd ((p, t) # hs))"
    using assms sorted_sort_key [of snd] unfolding holders_by_time_def by metis
  ultimately show "t \<le> expected_time_ms inp q" by auto
qed

text \<open>A request is sound when its target can serve it and it is the right kind for its zone.\<close>

definition request_sound :: "pick_input \<Rightarrow> (u64 \<Rightarrow> bool) \<Rightarrow> request \<Rightarrow> bool" where
  "request_sound inp have' r \<longleftrightarrow>
     rq_seq r \<le> pi_head_seq inp \<and> \<not> have' (rq_seq r) \<and>
     (case rq_source r of
        Peer p \<Rightarrow> (\<exists>v \<in> set (pi_peers inp). pv_id v = p \<and> bm_has (pv_buffer v) (rq_seq r)
          \<and> (rq_redundant r \<or> (\<forall>w \<in> set (pi_peers inp). bm_has (pv_buffer w) (rq_seq r)
               \<longrightarrow> expected_time_ms inp v \<le> expected_time_ms inp w)))
      | Seed \<Rightarrow> pi_seed_available inp \<and> \<not> rq_redundant r \<and> zone_of inp (rq_seq r) = Panic
      | Bulletin \<Rightarrow> pi_bulletin_available inp \<and> \<not> pi_seed_available inp \<and> \<not> rq_redundant r
          \<and> zone_of inp (rq_seq r) = Panic)"

lemma take2: "take 2 xs = (case xs of [] \<Rightarrow> [] | [a] \<Rightarrow> [a] | a # b # _ \<Rightarrow> [a, b])"
  by (auto simp: numeral_2_eq_2 split: list.split)

lemma plan_panic_sound:
  assumes "r \<in> set (plan_panic inp seq)" and "\<not> plan_skips inp have' seq" and "zone_of inp seq = Panic"
  shows "rq_seq r = seq \<and> request_sound inp have' r"
proof -
  have skip: "seq \<le> pi_head_seq inp" "\<not> have' seq" using assms(2) by (auto simp: plan_skips_def not_less)
  show ?thesis
  proof (cases "holders_by_time inp seq")
    case Nil
    then show ?thesis using assms(1,3) skip
      by (auto simp: plan_panic_def request_sound_def split: if_splits)
  next
    case (Cons ph hs)
    obtain p t where ph: "ph = (p, t)" by (cases ph)
    note head = holders_by_time_head [OF Cons [unfolded ph]]
    have second: "q \<in> set (pi_peers inp) \<and> bm_has (pv_buffer q) seq" if "(q, u) \<in> set hs" for q u
      using that Cons set_holders_by_time [of inp seq] by (auto simp: holders_def)
    have prim: "request_sound inp have' \<lparr>rq_seq = seq, rq_source = Peer (pv_id p), rq_redundant = b\<rparr>" for b
      using skip head by (auto simp: request_sound_def)
    have sec: "request_sound inp have' \<lparr>rq_seq = seq, rq_source = Peer (pv_id q), rq_redundant = True\<rparr>"
      if "(q, u) \<in> set hs" for q u
      using skip second [OF that] by (auto simp: request_sound_def)
    have fall: "request_sound inp have' \<lparr>rq_seq = seq, rq_source = Seed, rq_redundant = False\<rparr>"
      if "pi_seed_available inp" using that skip assms(3) by (simp add: request_sound_def)
    have bull: "request_sound inp have' \<lparr>rq_seq = seq, rq_source = Bulletin, rq_redundant = False\<rparr>"
      if "pi_bulletin_available inp" "\<not> pi_seed_available inp"
      using that skip assms(3) by (simp add: request_sound_def)
    show ?thesis using assms(1) Cons ph prim sec fall bull
      by (cases hs) (auto simp: plan_panic_def Let_def take2 split: if_splits)
  qed
qed

lemma plan_mid_req:
  assumes "r \<in> set (fst (plan_mid gen inp u seq rng))"
  shows "\<exists>p t hs. holders_by_time inp seq = (p, t) # hs
    \<and> r = \<lparr>rq_seq = seq, rq_source = Peer (pv_id p), rq_redundant = False\<rparr>"
proof (cases "holders_by_time inp seq")
  case Nil
  then show ?thesis using assms by (simp add: plan_mid_def)
next
  case (Cons ph hs)
  obtain p t where "ph = (p, t)" by (cases ph)
  moreover obtain x g where "gen rng = (x, g)" by (cases "gen rng")
  ultimately show ?thesis using assms Cons by (simp add: plan_mid_def Let_def split: if_splits)
qed

lemma plan_prefetch_req:
  assumes "r \<in> set (plan_prefetch inp seq)"
  shows "\<exists>p t hs. holders_by_time inp seq = (p, t) # hs
    \<and> r = \<lparr>rq_seq = seq, rq_source = Peer (pv_id p), rq_redundant = False\<rparr>"
proof (cases "holders_by_time inp seq")
  case Nil
  then have "plan_prefetch inp seq = []" by (simp add: plan_prefetch_def)
  then show ?thesis using assms by simp
next
  case (Cons ph hs)
  obtain p t where ph: "ph = (p, t)" by (cases ph)
  then have "plan_prefetch inp seq = (if availability inp seq \<le> 2
      then [\<lparr>rq_seq = seq, rq_source = Peer (pv_id p), rq_redundant = False\<rparr>] else [])"
    using Cons by (simp add: plan_prefetch_def)
  then show ?thesis using assms Cons ph by (simp split: if_splits)
qed

lemma plan_one_sound:
  assumes "r \<in> set (fst (plan_one gen inp have' u seq rng))"
  shows "rq_seq r = seq \<and> request_sound inp have' r"
proof -
  have ns: "\<not> plan_skips inp have' seq" using assms by (auto simp: plan_one_def split: if_splits)
  then have skip: "seq \<le> pi_head_seq inp" "\<not> have' seq" by (auto simp: plan_skips_def not_less)
  show ?thesis
  proof (cases "zone_of inp seq")
    case Panic
    then show ?thesis using assms ns by (intro plan_panic_sound) (auto simp: plan_one_def)
  next
    case Mid
    then have "r \<in> set (fst (plan_mid gen inp u seq rng))" using assms ns by (simp add: plan_one_def)
    from plan_mid_req [OF this] obtain p t hs where h: "holders_by_time inp seq = (p, t) # hs"
      and r: "r = \<lparr>rq_seq = seq, rq_source = Peer (pv_id p), rq_redundant = False\<rparr>"
      by (elim exE conjE)
    show ?thesis using holders_by_time_head [OF h] r skip by (auto simp: request_sound_def)
  next
    case Prefetch
    then have "r \<in> set (plan_prefetch inp seq)" using assms ns by (simp add: plan_one_def)
    from plan_prefetch_req [OF this] obtain p t hs where h: "holders_by_time inp seq = (p, t) # hs"
      and r: "r = \<lparr>rq_seq = seq, rq_source = Peer (pv_id p), rq_redundant = False\<rparr>"
      by (elim exE conjE)
    show ?thesis using holders_by_time_head [OF h] r skip by (auto simp: request_sound_def)
  qed
qed

lemma plan_loop_sound:
  "r \<in> set (fst (plan_loop gen inp have' u seqs rng)) \<Longrightarrow> rq_seq r \<in> set seqs \<and> request_sound inp have' r"
proof (induction seqs arbitrary: rng)
  case (Cons seq seqs)
  obtain out rng1 where one: "plan_one gen inp have' u seq rng = (out, rng1)" by force
  with Cons.prems consider "r \<in> set out" | "r \<in> set (fst (plan_loop gen inp have' u seqs rng1))"
    by (auto simp: case_prod_beta)
  then show ?case
  proof cases
    case 1
    then show ?thesis using plan_one_sound [of r gen inp have' u seq rng] one by simp
  next
    case 2
    then show ?thesis using Cons.IH [of rng1] by simp
  qed
qed simp

text \<open>The requests for one sequence number are exactly its own step's.\<close>

lemma plan_loop_at:
  assumes "s \<in> set seqs" and "distinct seqs"
  shows "\<exists>rng'. filter (\<lambda>r. rq_seq r = s) (fst (plan_loop gen inp have' u seqs rng)) =
    fst (plan_one gen inp have' u s rng')"
  using assms
proof (induction seqs arbitrary: rng)
  case (Cons seq seqs)
  obtain out rng1 where one: "plan_one gen inp have' u seq rng = (out, rng1)" by force
  let ?rest = "fst (plan_loop gen inp have' u seqs rng1)"
  have split: "fst (plan_loop gen inp have' u (seq # seqs) rng) = out @ ?rest"
    using one by (simp add: case_prod_beta)
  have own: "rq_seq r = seq" if "r \<in> set out" for r
    using plan_one_sound [of r gen inp have' u seq rng] one that by simp
  show ?case
  proof (cases "s = seq")
    case True
    have "filter (\<lambda>r. rq_seq r = s) ?rest = []"
      using Cons.prems True plan_loop_sound [of _ gen inp have' u seqs rng1] by (auto simp: filter_empty_conv)
    moreover have "filter (\<lambda>r. rq_seq r = s) out = out" using own True by (simp add: filter_id_conv)
    ultimately show ?thesis using split one True by (intro exI [of _ rng]) simp
  next
    case False
    then have "filter (\<lambda>r. rq_seq r = s) out = []" using own by (auto simp: filter_empty_conv)
    with Cons.IH [of rng1] Cons.prems False split show ?thesis by simp
  qed
qed simp

lemma distinct_plan_range: "distinct (plan_range inp)"
proof -
  have "inj_on (of_nat :: nat \<Rightarrow> u64) {..< 2 ^ 64}"
    by (rule inj_on_inverseI [of _ unat]) (simp add: unat_of_nat_exact)
  then have "inj_on (of_nat :: nat \<Rightarrow> u64) {a ..< unat (b :: u64)}" for a b
    by (rule inj_on_subset) (use unat_less_2p [of b] in auto)
  then show ?thesis by (simp add: plan_range_def word_range_def distinct_map)
qed

lemma set_plan_range:
  "set (plan_range inp) = {s. pi_play_seq inp \<le> s \<and> s < pi_play_seq inp + ucast (pi_window inp)}"
  by (simp add: plan_range_def)

subsection \<open>Properties\<close>

text \<open>
  C8: Every request the picker plans is for a segment inside the window that has been
  produced and is not held; a peer is asked only for a segment its buffer map advertises,
  and the primary request goes to a holder of least expected delivery time; the seed and
  Bulletin fallbacks are used only in the panic zone, only when available, and the seed
  before Bulletin.
\<close>

theorem plan_tick_sound:
  assumes "r \<in> set (fst (plan_tick gen inp have' rng))"
  shows "pi_play_seq inp \<le> rq_seq r \<and> rq_seq r < pi_play_seq inp + ucast (pi_window inp)
    \<and> request_sound inp have' r"
proof -
  note plan_loop_sound [OF assms [unfolded plan_tick_def]]
  then show ?thesis by (simp add: set_plan_range)
qed

text \<open>
  C7: A missing, already produced segment in the panic zone is never starved and never
  flooded: the tick plans at most two requests for it, and exactly one primary request
  whenever some holder can deliver within the slack or a fallback is available.
\<close>

theorem panic_segment_requested:
  assumes "pi_play_seq inp \<le> s" and "s < pi_play_seq inp + ucast (pi_window inp)"
    and "s \<le> pi_head_seq inp" and "\<not> have' s" and "zone_of inp s = Panic"
    and "rs = filter (\<lambda>r. rq_seq r = s) (fst (plan_tick gen inp have' rng))"
  shows "length rs \<le> 2 \<and>
    (pi_seed_available inp \<or> pi_bulletin_available inp
      \<or> (\<exists>v \<in> set (pi_peers inp). bm_has (pv_buffer v) s \<and>
           expected_time_ms inp v \<le> of_nat (unat (time_to_deadline inp s))
             + of_nat (unat (fallback_slack_ms (pi_weights inp))))
      \<longleftrightarrow> length (filter (\<lambda>r. \<not> rq_redundant r) rs) = 1)"
proof -
  have "s \<in> set (plan_range inp)" using assms(1,2) by (simp add: set_plan_range)
  then obtain rng' where "rs = fst (plan_one gen inp have'
      (plan_umax inp have' (plan_range inp) f64_MIN_POSITIVE) s rng')"
    using plan_loop_at [OF _ distinct_plan_range, of s inp gen inp have' _ rng] assms(6)
    unfolding plan_tick_def by blast
  then have rs: "rs = plan_panic inp s"
    using assms(3-5) by (simp add: plan_one_def plan_skips_def leD)
  show ?thesis
  proof (cases "holders_by_time inp s")
    case Nil
    then have "holders inp s = []" by (simp add: holders_by_time_Nil)
    then have "\<not> (\<exists>v \<in> set (pi_peers inp). bm_has (pv_buffer v) s)"
      by (auto simp: holders_def filter_empty_conv)
    with Nil show ?thesis using rs by (auto simp: plan_panic_def)
  next
    case (Cons ph hs)
    obtain p t where ph: "ph = (p, t)" by (cases ph)
    note head = holders_by_time_head [OF Cons [unfolded ph]]
    show ?thesis using rs Cons ph head
      by (cases hs) (force simp: plan_panic_def Let_def take2)+
  qed
qed

text \<open>A viewer about to stall on segment 7, with one slow holder and Bulletin as fallback.\<close>

definition stall_peer :: peer_view where
  "stall_peer = \<lparr>pv_id = [1], pv_buffer = \<lparr>bm_base = 7, bm_bits = [True]\<rparr>, pv_throughput_bps = 8,
     pv_rtt_ms = 80, pv_pending_bytes = 0, pv_reputation = 1\<rparr>"

definition stall_input :: pick_input where
  "stall_input = \<lparr>pi_play_seq = 7, pi_head_seq = 9, pi_now_ms = 1000, pi_window = 16, pi_seg_bytes = 500000,
     pi_seg_ms = 2000, pi_peers = [stall_peer], pi_weights = default_weights, pi_seed_available = False,
     pi_bulletin_available = True\<rparr>"

lemma stall_zone: "zone_of stall_input 7 = Panic"
  by (simp add: zone_of_def time_to_deadline_def deadline_ms_def stall_input_def sat_sub_def default_weights_def)

theorem panic_segment_requested_witness:
  "length (filter (\<lambda>r. rq_seq r = 7) (fst (plan_tick (\<lambda>g. (1 / 2, g)) stall_input (\<lambda>_. False) ()))) \<le> 2
    \<and> length (filter (\<lambda>r. \<not> rq_redundant r)
        (filter (\<lambda>r. rq_seq r = 7) (fst (plan_tick (\<lambda>g. (1 / 2, g)) stall_input (\<lambda>_. False) ())))) = 1"
  using panic_segment_requested [of stall_input 7 "\<lambda>_. False" _ "\<lambda>g. (1 / 2, g)" "()", OF _ _ _ _ stall_zone refl]
  by (simp add: stall_input_def)

theorem plan_tick_sound_witness:
  "\<exists>r \<in> set (fst (plan_tick (\<lambda>g. (1 / 2, g)) (stall_input\<lparr>pi_window := 1\<rparr>) (\<lambda>_. False) ())).
     rq_seq r = 7 \<and> request_sound (stall_input\<lparr>pi_window := 1\<rparr>) (\<lambda>_. False) r"
proof -
  let ?in = "stall_input\<lparr>pi_window := 1\<rparr>" and ?gen = "\<lambda>g :: unit. (1 / 2 :: real, g)"
  let ?r = "\<lparr>rq_seq = 7, rq_source = Bulletin, rq_redundant = False\<rparr>"
  have z: "zone_of ?in 7 = Panic"
    by (simp add: zone_of_def time_to_deadline_def deadline_ms_def stall_input_def sat_sub_def default_weights_def)
  have hs: "holders_by_time ?in 7 = [(stall_peer, expected_time_ms ?in stall_peer)]"
    by (simp add: holders_by_time_def holders_def stall_input_def stall_peer_def bm_has_def)
  have slow: "expected_time_ms ?in stall_peer > 500"
    by (simp add: expected_time_ms_def stall_input_def stall_peer_def clamp_def Let_def)
  have t0: "time_to_deadline ?in 7 = 0"
    by (simp add: time_to_deadline_def deadline_ms_def stall_input_def sat_sub_def)
  have "?r \<in> set (plan_panic ?in 7)"
    using hs slow t0 by (simp add: plan_panic_def Let_def) (simp add: stall_input_def default_weights_def)
  moreover have "plan_range ?in = [7]"
    by (simp add: plan_range_def word_range_def stall_input_def)
  moreover have "\<not> plan_skips ?in (\<lambda>_. False) 7" by (simp add: plan_skips_def stall_input_def)
  ultimately have mem: "?r \<in> set (fst (plan_tick ?gen ?in (\<lambda>_. False) ()))"
    using z by (simp add: plan_tick_def plan_one_def)
  show ?thesis by (rule bexI [OF _ mem]) (use plan_tick_sound [OF mem] in simp)
qed

text \<open>
  An exponentially weighted average with a weight in the unit interval never leaves the
  range of the samples it has seen, and one sample is reported as it is.
\<close>

theorem ewma_within_samples:
  assumes "0 \<le> a" and "a \<le> 1" and "\<forall>x \<in> set (x0 # xs). lo \<le> x \<and> x \<le> hi"
  shows "lo \<le> ewma_or (fold ewma_update (x0 # xs) (ewma_new a)) dflt
    \<and> ewma_or (fold ewma_update (x0 # xs) (ewma_new a)) dflt \<le> hi
    \<and> ewma_or (ewma_update x0 (ewma_new a)) dflt = x0"
proof -
  have step: "ew_seeded (fold ewma_update ys e) \<and> ew_alpha (fold ewma_update ys e) = a
      \<and> lo \<le> ew_value (fold ewma_update ys e) \<and> ew_value (fold ewma_update ys e) \<le> hi"
    if "ew_seeded e" "ew_alpha e = a" "lo \<le> ew_value e" "ew_value e \<le> hi" "\<forall>x \<in> set ys. lo \<le> x \<and> x \<le> hi" for ys e
    using that
  proof (induction ys arbitrary: e)
    case (Cons y ys)
    have b: "lo \<le> a * y + (1 - a) * ew_value e" "a * y + (1 - a) * ew_value e \<le> hi"
      using Cons.prems assms(1,2) convex_bound_le [of y hi "ew_value e" a "1 - a"]
        convex_bound_le [of "- y" "- lo" "- ew_value e" a "1 - a"] by auto
    then have "ew_seeded (ewma_update y e)" "ew_alpha (ewma_update y e) = a"
      "lo \<le> ew_value (ewma_update y e)" "ew_value (ewma_update y e) \<le> hi"
      using Cons.prems by (simp_all add: ewma_update_def)
    from Cons.IH [OF this] Cons.prems(5) show ?case by simp
  qed auto
  have "ew_seeded (ewma_update x0 (ewma_new a))" "ew_alpha (ewma_update x0 (ewma_new a)) = a"
    "ew_value (ewma_update x0 (ewma_new a)) = x0"
    by (simp_all add: ewma_update_def ewma_new_def)
  with step [of "ewma_update x0 (ewma_new a)" xs] assms(3) show ?thesis
    by (simp add: ewma_or_def)
qed

theorem ewma_within_samples_witness:
  "10 \<le> ewma_or (fold ewma_update [20, 10, 40] (ewma_new (3 / 10))) 0
    \<and> ewma_or (fold ewma_update [20, 10, 40] (ewma_new (3 / 10))) 0 \<le> 40"
  using ewma_within_samples [of "3 / 10" 20 "[10, 40]" 10 40 0] by simp

end
