(* ===== verification/Signaling.thy ===== *)
theory Signaling
  imports Wire
begin

section \<open>Presence book and ban list\<close>

text \<open>
  Models \<open>src/crates/unstation-core/src/signaling.rs\<close>, lines 15 to 242: the in-mesh
  presence directory and the shared ban list. Both live behind a mutex, so each
  operation is one atomic step on the map; the clock reading \<open>Instant::now()\<close> is the
  argument \<open>now\<close>, in nanoseconds, and \<open>elapsed\<close> saturates at zero. Both structures cap
  their size in the same way; \<open>capped_put\<close> is that idiom, proved once.
\<close>

type_synonym instant = nat

definition secs :: "nat \<Rightarrow> nat" where
  "secs n = n * 1000000000"

definition millis :: "nat \<Rightarrow> nat" where
  "millis n = n * 1000000"

text \<open>\<open>Iterator::min_by_key\<close> returns the first of several minima.\<close>

fun min_by_key :: "('a \<Rightarrow> 'b::linorder) \<Rightarrow> 'a list \<Rightarrow> 'a option" where
  "min_by_key f [] = None"
| "min_by_key f (x # xs) =
     (case min_by_key f xs of None \<Rightarrow> Some x | Some y \<Rightarrow> if f y < f x then Some y else Some x)"

definition capped_put :: "nat \<Rightarrow> ('v \<Rightarrow> bool) \<Rightarrow> ('v \<Rightarrow> instant) \<Rightarrow> 'k \<Rightarrow> 'v \<Rightarrow> ('k, 'v) hash_map \<Rightarrow> ('k, 'v) hash_map" where
  "capped_put cap live stamp k v m =
     (let m1 = (if \<not> hm_has m k \<and> cap \<le> length m then hm_retain (\<lambda>_ e. live e) m else m);
          m2 = (if \<not> hm_has m1 k \<and> cap \<le> length m1
                then (case min_by_key (\<lambda>(_, e). stamp e) m1 of
                        Some (stalest, _) \<Rightarrow> hm_remove stalest m1
                      | None \<Rightarrow> m1)
                else m1)
      in hm_put k v m2)"

subsection \<open>Presence book\<close>

definition PRESENCE_BOOK_MAX :: nat where "PRESENCE_BOOK_MAX = 1024"
definition PRESENCE_MERGE_MAX :: nat where "PRESENCE_MERGE_MAX = 32"
definition PRESENCE_CID_MAX :: nat where "PRESENCE_CID_MAX = 128"

type_synonym presence_book = "(peer_id, presence_record \<times> instant) hash_map"

definition record_ttl :: "presence_record \<Rightarrow> nat" where
  "record_ttl rec = secs (max 5 (min 300 (unat (pr_ttl_s rec))))"

definition is_live :: "instant \<Rightarrow> presence_record \<times> instant \<Rightarrow> bool" where
  "is_live now e \<longleftrightarrow> now - snd e < record_ttl (fst e)"

definition pb_admit :: "instant \<Rightarrow> presence_record \<Rightarrow> presence_book \<Rightarrow> presence_book" where
  "pb_admit now rec g =
     (if (case pr_manifest_cid rec of Some c \<Rightarrow> PRESENCE_CID_MAX < length c | None \<Rightarrow> False) then g
      else capped_put PRESENCE_BOOK_MAX (is_live now) snd (pr_peer_id rec) (rec, now) g)"

definition pb_insert :: "instant \<Rightarrow> presence_record \<Rightarrow> presence_book \<Rightarrow> presence_book" where
  "pb_insert now rec g = pb_admit now rec g"

definition pb_merge :: "instant \<Rightarrow> presence_record list \<Rightarrow> peer_id \<Rightarrow> presence_book \<Rightarrow> presence_book" where
  "pb_merge now recs me g =
     fold (\<lambda>rec g. if pr_peer_id rec \<noteq> me then pb_admit now rec g else g) (take PRESENCE_MERGE_MAX recs) g"

definition pb_snapshot :: "instant \<Rightarrow> presence_book \<Rightarrow> presence_record list" where
  "pb_snapshot now g = map fst (filter (is_live now) (map snd g))"

definition pb_is_relay :: "instant \<Rightarrow> peer_id \<Rightarrow> presence_book \<Rightarrow> bool" where
  "pb_is_relay now peer g =
     (case hm_get g peer of Some e \<Rightarrow> is_live now e \<and> pr_relay (fst e) | None \<Rightarrow> False)"

definition pb_sample :: "instant \<Rightarrow> nat \<Rightarrow> presence_book \<Rightarrow> presence_record list" where
  "pb_sample now mx g = take mx (sort_key (\<lambda>r. \<not> pr_relay r) (pb_snapshot now g))"

definition pb_len :: "instant \<Rightarrow> presence_book \<Rightarrow> nat" where
  "pb_len now g = length (filter (is_live now) (map snd g))"

subsection \<open>Ban list\<close>

definition BAN_TTL :: nat where "BAN_TTL = secs 600"
definition BAN_LIST_MAX :: nat where "BAN_LIST_MAX = 1024"

type_synonym ban_list = "(peer_id, instant) hash_map"

definition bl_ban :: "instant \<Rightarrow> peer_id \<Rightarrow> ban_list \<Rightarrow> ban_list" where
  "bl_ban now peer g = capped_put BAN_LIST_MAX (\<lambda>t. now - t < BAN_TTL) id peer now g"

definition bl_contains :: "instant \<Rightarrow> peer_id \<Rightarrow> ban_list \<Rightarrow> bool" where
  "bl_contains now peer g = (case hm_get g peer of Some t \<Rightarrow> now - t < BAN_TTL | None \<Rightarrow> False)"

definition bl_len :: "instant \<Rightarrow> ban_list \<Rightarrow> nat" where
  "bl_len now g = length (filter (\<lambda>t. now - t < BAN_TTL) (map snd g))"

subsection \<open>The capping idiom\<close>

lemma min_by_key_None [simp]: "min_by_key f xs = None \<longleftrightarrow> xs = []"
  by (cases xs) (auto split: option.split)

lemma min_by_key_Some:
  "min_by_key f xs = Some x \<Longrightarrow> x \<in> set xs \<and> (\<forall>y \<in> set xs. f x \<le> f y)"
proof (induction xs arbitrary: x)
  case (Cons a xs)
  show ?case
  proof (cases "min_by_key f xs")
    case None
    then show ?thesis using Cons.prems by auto
  next
    case (Some y)
    then show ?thesis using Cons.IH [OF Some] Cons.prems by (auto split: if_splits)
  qed
qed simp

lemma capped_put_ok [simp]: "hm_ok m \<Longrightarrow> hm_ok (capped_put cap live stamp k v m)"
  by (simp add: capped_put_def Let_def hm.ok_put hm.ok_remove split: option.split)

lemma capped_put_get [simp]: "hm_get (capped_put cap live stamp k v m) k = Some v"
  by (simp add: capped_put_def Let_def update_conv')

lemma hm_retain_length: "length (hm_retain P m) \<le> length m"
  by (simp add: hm_retain_def)

lemma hm_has_iff_mem: "hm_has m k \<longleftrightarrow> k \<in> fst ` set m"
  by (simp add: hm_has_def map_of_eq_None_iff)

lemma capped_put_length:
  assumes "hm_ok m" and "length m \<le> cap" and "0 < cap"
  shows "length (capped_put cap live stamp k v m) \<le> cap"
proof -
  define m1 where "m1 = (if \<not> hm_has m k \<and> cap \<le> length m then hm_retain (\<lambda>_ e. live e) m else m)"
  have m1: "hm_ok m1" "length m1 \<le> cap"
    using assms order_trans [OF hm_retain_length assms(2)] by (auto simp: m1_def)
  show ?thesis
  proof (cases "\<not> hm_has m1 k \<and> cap \<le> length m1")
    case True
    then obtain s e where s: "min_by_key (\<lambda>(_, e). stamp e) m1 = Some (s, e)"
      using assms(3) by (cases "min_by_key (\<lambda>(_, e). stamp e) m1") auto
    then have "hm_get m1 s = Some e" using min_by_key_Some [OF s] m1(1) by (simp add: hm.entries_iff)
    moreover have "hm_get (hm_remove s m1) k = None" using True by (auto simp: delete_conv' hm_has_def)
    ultimately have "length (hm_put k v (hm_remove s m1)) = Suc (length m1 - 1)"
      using m1(1) by (simp add: hm.len_put hm.len_remove hm.ok_remove)
    moreover have "capped_put cap live stamp k v m = hm_put k v (hm_remove s m1)"
      using True s by (simp add: capped_put_def m1_def [symmetric])
    ultimately show ?thesis using m1(2) assms(3) by simp
  next
    case False
    then have "capped_put cap live stamp k v m = hm_put k v m1"
      unfolding capped_put_def m1_def [symmetric] Let_def by presburger
    then show ?thesis using False m1 by (auto simp: hm.len_put hm_has_def)
  qed
qed

text \<open>Nothing but the new entry, at its key, can appear.\<close>

lemma capped_put_sub:
  assumes "hm_ok m"
  shows "set (capped_put cap live stamp k v m) \<subseteq> insert (k, v) (set m)"
proof -
  have "hm_get m j = Some e" if "hm_get (capped_put cap live stamp k v m) j = Some e" "j \<noteq> k" for j e
    using that assms
    by (auto simp: capped_put_def Let_def update_conv' delete_conv' hm_get_retain
        split: if_splits option.splits)
  then have "(j, e) \<in> insert (k, v) (set m)" if "(j, e) \<in> set (capped_put cap live stamp k v m)" for j e
    using that assms by (cases "j = k") (simp_all add: hm.entries_iff)
  then show ?thesis by auto
qed

text \<open>A live entry leaves only when the map is full of entries that are no staler.\<close>

lemma capped_put_survives:
  assumes "hm_ok m" and "length m \<le> cap" and "hm_get m p = Some e" and "live e" and "p \<noteq> k"
  shows "hm_get (capped_put cap live stamp k v m) p = Some e
    \<or> (length m = cap \<and> (\<forall>(j, f) \<in> set m. stamp e \<le> stamp f))"
proof -
  define m1 where "m1 = (if \<not> hm_has m k \<and> cap \<le> length m then hm_retain (\<lambda>_ e. live e) m else m)"
  have get1: "hm_get m1 p = Some e" using assms by (simp add: m1_def hm_get_retain)
  have len1: "length m1 \<le> length m" using hm_retain_length [of "\<lambda>_ e. live e" m] by (simp add: m1_def)
  show ?thesis
  proof (cases "\<not> hm_has m1 k \<and> cap \<le> length m1")
    case True
    have full: "length m = cap" "length m1 = length m" using True len1 assms(2) by auto
    have "hm_retain P m = m" if "length (hm_retain P m) = length m" for P
    proof (rule ccontr)
      assume "hm_retain P m \<noteq> m"
      then obtain x where "x \<in> set m" "\<not> (case x of (k, v) \<Rightarrow> P k v)"
        by (auto simp: hm_retain_def filter_id_conv)
      then have "length (filter (\<lambda>(k, v). P k v) m) < length m" by (rule length_filter_less)
      with that show False by (simp add: hm_retain_def)
    qed
    then have m1: "m1 = m" using full(2) unfolding m1_def by presburger
    have "m1 \<noteq> []" using get1 by auto
    then obtain s f where s: "min_by_key (\<lambda>(_, e). stamp e) m1 = Some (s, f)"
      by (cases "min_by_key (\<lambda>(_, e). stamp e) m1") auto
    have put: "capped_put cap live stamp k v m = hm_put k v (hm_remove s m1)"
      using True s by (simp add: capped_put_def m1_def [symmetric])
    show ?thesis
    proof (cases "s = p")
      case True
      have "(s, f) \<in> set m1" using min_by_key_Some [OF s] by blast
      then have "f = e" using True get1 m1 assms(1) by (simp add: hm.entries_iff)
      then show ?thesis using full min_by_key_Some [OF s] m1 by fastforce
    next
      case False
      then show ?thesis using put get1 assms(5) by (simp add: update_conv' delete_conv')
    qed
  next
    case False
    then have "capped_put cap live stamp k v m = hm_put k v m1"
      unfolding capped_put_def m1_def [symmetric] Let_def by presburger
    then show ?thesis using get1 assms(5) by (simp add: update_conv')
  qed
qed

subsection \<open>Properties\<close>

text \<open>What is in a presence book that was built by the operations above.\<close>

definition pb_ok :: "instant \<Rightarrow> presence_book \<Rightarrow> bool" where
  "pb_ok now g \<longleftrightarrow> hm_ok g \<and> length g \<le> PRESENCE_BOOK_MAX
     \<and> (\<forall>(k, (rec, t)) \<in> set g. k = pr_peer_id rec \<and> t \<le> now
          \<and> (case pr_manifest_cid rec of Some c \<Rightarrow> length c \<le> PRESENCE_CID_MAX | None \<Rightarrow> True))"

lemma pb_admit_ok:
  assumes "pb_ok now g" shows "pb_ok now (pb_admit now rec g)"
proof (cases "case pr_manifest_cid rec of Some c \<Rightarrow> PRESENCE_CID_MAX < length c | None \<Rightarrow> False")
  case True
  then show ?thesis using assms by (simp add: pb_admit_def)
next
  case False
  let ?g = "capped_put PRESENCE_BOOK_MAX (is_live now) snd (pr_peer_id rec) (rec, now) g"
  have g: "hm_ok g" "length g \<le> PRESENCE_BOOK_MAX" using assms by (auto simp: pb_ok_def)
  have "length ?g \<le> PRESENCE_BOOK_MAX"
    using g by (intro capped_put_length) (simp_all add: PRESENCE_BOOK_MAX_def)
  moreover have "set ?g \<subseteq> insert (pr_peer_id rec, rec, now) (set g)" using g by (intro capped_put_sub)
  moreover have "case pr_manifest_cid rec of Some c \<Rightarrow> length c \<le> PRESENCE_CID_MAX | None \<Rightarrow> True"
    using False by (auto split: option.splits)
  moreover have "pb_admit now rec g = ?g" unfolding pb_admit_def using False by (rule if_not_P)
  ultimately show ?thesis using assms g unfolding pb_ok_def by (auto dest!: subsetD)
qed

lemma pb_merge_ok: "pb_ok now g \<Longrightarrow> pb_ok now (pb_merge now recs me g)"
proof -
  have "pb_ok now (fold (\<lambda>rec g. if pr_peer_id rec \<noteq> me then pb_admit now rec g else g) xs g)"
    if "pb_ok now g" for xs
    using that by (induction xs arbitrary: g) (simp_all add: pb_admit_ok)
  then show "pb_ok now g \<Longrightarrow> pb_ok now (pb_merge now recs me g)" by (simp add: pb_merge_def)
qed

lemma pb_ok_later: "pb_ok now g \<Longrightarrow> now \<le> now' \<Longrightarrow> pb_ok now' g"
  by (fastforce simp: pb_ok_def)

text \<open>A message from a peer: the clock advances, then a batch is merged or one record inserted.\<close>

fun pb_step :: "nat \<times> presence_record list + nat \<times> presence_record \<Rightarrow> peer_id \<Rightarrow> instant \<times> presence_book \<Rightarrow> instant \<times> presence_book" where
  "pb_step (Inl (dt, recs)) me (now, g) = (now + dt, pb_merge (now + dt) recs me g)"
| "pb_step (Inr (dt, rec)) me (now, g) = (now + dt, pb_insert (now + dt) rec g)"

text \<open>
  However peers flood the presence book over time, it never holds more than 1024
  entries, one per peer, each under its own peer id and with a CID of at most 128 bytes;
  what is gossiped onward is bounded by the requested sample size, taken from the live
  records with relay volunteers first.
\<close>

theorem presence_book_bounded:
  "case fold (\<lambda>ev. pb_step ev me) evs (0, []) of (now, g) \<Rightarrow>
     pb_ok now g
     \<and> length (pb_sample now mx g) = min mx (pb_len now g)
     \<and> set (pb_sample now mx g) \<subseteq> set (pb_snapshot now g)
     \<and> (\<forall>r \<in> set (pb_snapshot now g) - set (pb_sample now mx g).
          pr_relay r \<longrightarrow> (\<forall>r' \<in> set (pb_sample now mx g). pr_relay r'))"
proof -
  have "pb_ok (fst x) (snd x) \<Longrightarrow>
      pb_ok (fst (fold (\<lambda>ev. pb_step ev me) evs x)) (snd (fold (\<lambda>ev. pb_step ev me) evs x))" for x
  proof (induction evs arbitrary: x)
    case (Cons ev evs)
    have "pb_ok (fst (pb_step ev me x)) (snd (pb_step ev me x))"
      using Cons.prems pb_ok_later [of "fst x" "snd x"]
      by (cases ev; cases x) (auto simp: pb_merge_ok pb_insert_def pb_admit_ok)
    then show ?case using Cons.IH by simp
  qed simp
  then have ok: "pb_ok (fst (fold (\<lambda>ev. pb_step ev me) evs (0, []))) (snd (fold (\<lambda>ev. pb_step ev me) evs (0, [])))"
    by (simp add: pb_ok_def)
  have sample: "pr_relay r'"
    if "r \<in> set (pb_snapshot now g)" "r \<notin> set (pb_sample now mx g)" "pr_relay r" "r' \<in> set (pb_sample now mx g)" for r r' now g
  proof -
    let ?s = "sort_key (\<lambda>r. \<not> pr_relay r) (pb_snapshot now g)"
    have "sorted (map (\<lambda>r. \<not> pr_relay r) (take mx ?s @ drop mx ?s))"
      unfolding append_take_drop_id by (rule sorted_sort_key)
    then have ord: "\<forall>a \<in> set (take mx ?s). \<forall>b \<in> set (drop mx ?s). (\<not> pr_relay a) \<le> (\<not> pr_relay b)"
      unfolding map_append sorted_append set_map by blast
    have "r \<in> set (take mx ?s @ drop mx ?s)" using that(1) by simp
    then have "r \<in> set (drop mx ?s)" using that(2) by (simp only: set_append pb_sample_def Un_iff) blast
    with ord that(3,4) show ?thesis unfolding pb_sample_def le_bool_def by blast
  qed
  have len: "length (pb_sample now mx g) = min mx (pb_len now g)" for now g
    by (simp add: pb_sample_def pb_snapshot_def pb_len_def)
  have sub: "set (pb_sample now mx g) \<subseteq> set (pb_snapshot now g)" for now g
    unfolding pb_sample_def by (metis set_sort set_take_subset)
  show ?thesis using ok sample len sub by (auto simp: case_prod_beta)
qed

theorem presence_book_bounded_witness:
  "length (pb_sample 0 1 (pb_insert 0 \<lparr>pr_peer_id = [1], pr_publisher = [2], pr_caps_upload_bps = 0, pr_ttl_s = 9,
       pr_manifest_cid = None, pr_relay = True, pr_enc_pub = None\<rparr> [])) = 1"
  using presence_book_bounded [where me = "[3]" and mx = 1 and evs = "[Inr (0, \<lparr>pr_peer_id = [1], pr_publisher = [2], pr_caps_upload_bps = 0,
       pr_ttl_s = 9, pr_manifest_cid = None, pr_relay = True, pr_enc_pub = None\<rparr>)]"]
  by (simp add: pb_insert_def pb_admit_def capped_put_def pb_len_def is_live_def record_ttl_def secs_def Let_def PRESENCE_BOOK_MAX_def)

text \<open>
  Gossip cannot pin a record: whatever TTL it claims, a record inserted at one instant
  is offered for at least 5 and at most 300 seconds, and is a relay candidate exactly
  while it is live and advertises relay capability.
\<close>

theorem presence_expires:
  assumes "hm_ok g" and "now \<le> now'" and "pr_manifest_cid rec = None"
    and "g' = pb_insert now rec g"
  shows "(now' - now < secs 5 \<longrightarrow> rec \<in> set (pb_snapshot now' g'))
    \<and> (secs 300 \<le> now' - now \<longrightarrow> hm_get g' (pr_peer_id rec) = Some (rec, now)
         \<and> \<not> is_live now' (rec, now) \<and> \<not> pb_is_relay now' (pr_peer_id rec) g')
    \<and> (pb_is_relay now' (pr_peer_id rec) g' \<longleftrightarrow> is_live now' (rec, now) \<and> pr_relay rec)"
proof -
  have g': "g' = capped_put PRESENCE_BOOK_MAX (is_live now) snd (pr_peer_id rec) (rec, now) g"
    using assms(3,4) by (simp add: pb_insert_def pb_admit_def)
  then have get: "hm_get g' (pr_peer_id rec) = Some (rec, now)" by simp
  have ttl: "secs 5 \<le> record_ttl rec" "record_ttl rec \<le> secs 300" by (simp_all add: record_ttl_def secs_def)
  have "rec \<in> set (pb_snapshot now' g')" if "is_live now' (rec, now)"
  proof -
    have "(rec, now) \<in> snd ` set g'" using map_of_SomeD [OF get] by (metis image_eqI snd_conv)
    then have "(rec, now) \<in> set (filter (is_live now') (map snd g'))" using that by simp
    then show ?thesis unfolding pb_snapshot_def set_map by (metis fst_conv image_eqI)
  qed
  with get ttl show ?thesis by (auto simp: is_live_def pb_is_relay_def)
qed

theorem presence_expires_witness:
  "let rec = \<lparr>pr_peer_id = [1], pr_publisher = [2], pr_caps_upload_bps = 0, pr_ttl_s = 100000,
       pr_manifest_cid = None, pr_relay = True, pr_enc_pub = None\<rparr>
   in \<not> pb_is_relay (secs 300) [1] (pb_insert 0 rec [])"
  using presence_expires [of "[]" 0 "secs 300" "\<lparr>pr_peer_id = [1], pr_publisher = [2], pr_caps_upload_bps = 0,
       pr_ttl_s = 100000, pr_manifest_cid = None, pr_relay = True, pr_enc_pub = None\<rparr>"]
  by (simp add: Let_def)

text \<open>Fewer later bans than the list's cap cannot flush an entry.\<close>

definition ban_inv :: "instant \<Rightarrow> peer_id \<Rightarrow> nat \<Rightarrow> ban_list \<Rightarrow> bool" where
  "ban_inv t0 p n g \<longleftrightarrow> hm_ok g \<and> length g \<le> BAN_LIST_MAX
     \<and> (\<exists>t \<ge> t0. hm_get g p = Some t)
     \<and> (\<forall>(q, t) \<in> set g. q \<noteq> p \<longrightarrow> t \<noteq> t0)
     \<and> card {e \<in> set g. t0 < snd e} \<le> n"

lemma bl_ban_inv:
  assumes inv: "ban_inv t0 p n g" and "Suc n < BAN_LIST_MAX" and "t0 < now" and "now - t0 < BAN_TTL"
  shows "ban_inv t0 p (Suc n) (bl_ban now q g)"
proof -
  let ?g = "bl_ban now q g"
  have g: "hm_ok g" "length g \<le> BAN_LIST_MAX" and other: "\<forall>(q, t) \<in> set g. q \<noteq> p \<longrightarrow> t \<noteq> t0"
    and few: "card {e \<in> set g. t0 < snd e} \<le> n" using inv by (auto simp: ban_inv_def)
  obtain t where t: "t0 \<le> t" "hm_get g p = Some t" using inv by (auto simp: ban_inv_def)
  have ok: "hm_ok ?g" "length ?g \<le> BAN_LIST_MAX"
    using g by (simp_all add: bl_ban_def capped_put_length BAN_LIST_MAX_def)
  have sub: "set ?g \<subseteq> insert (q, now) (set g)" using g(1) unfolding bl_ban_def by (rule capped_put_sub)
  have "\<exists>t \<ge> t0. hm_get ?g p = Some t"
  proof (cases "p = q")
    case True
    then show ?thesis using assms(3) by (auto simp: bl_ban_def)
  next
    case False
    have "now - t < BAN_TTL" using t(1) assms(4) by linarith
    with capped_put_survives [of g BAN_LIST_MAX p t "\<lambda>t. now - t < BAN_TTL" q id now] g t(2) False
    have "hm_get ?g p = Some t \<or> length g = BAN_LIST_MAX \<and> (\<forall>(j, f) \<in> set g. t \<le> f)"
      by (simp add: bl_ban_def)
    moreover have False if full: "length g = BAN_LIST_MAX" "\<forall>(j, f) \<in> set g. t \<le> f"
    proof -
      have "set g - {(p, t)} \<subseteq> {e \<in> set g. t0 < snd e}"
      proof
        fix e assume e: "e \<in> set g - {(p, t)}"
        obtain j f where jf: "e = (j, f)" by (cases e)
        have "j \<noteq> p" using e jf t(2) g(1) hm.entries_iff [of g p f] by auto
        then have "f \<noteq> t0" using other e jf by auto
        then show "e \<in> {e \<in> set g. t0 < snd e}" using full(2) e jf t(1) by force
      qed
      then have "card (set g - {(p, t)}) \<le> card {e \<in> set g. t0 < snd e}" by (intro card_mono) simp_all
      then have "card (set g - {(p, t)}) \<le> n" using few by linarith
      moreover have "card (set g) = length g"
        using g(1) by (intro distinct_card) (simp add: hm_ok_def distinct_map)
      ultimately show False using full(1) assms(2) map_of_SomeD [OF t(2)] by (simp add: card_Diff_singleton)
    qed
    ultimately show ?thesis using t(1) by blast
  qed
  moreover have "\<forall>(r, u) \<in> set ?g. r \<noteq> p \<longrightarrow> u \<noteq> t0" using sub other assms(3) by fastforce
  moreover have "card {e \<in> set ?g. t0 < snd e} \<le> Suc n"
  proof -
    have "{e \<in> set ?g. t0 < snd e} \<subseteq> insert (q, now) {e \<in> set g. t0 < snd e}" using sub by auto
    then have "card {e \<in> set ?g. t0 < snd e} \<le> card (insert (q, now) {e \<in> set g. t0 < snd e})"
      by (intro card_mono) auto
    also have "\<dots> \<le> Suc n" using few by (simp add: card_insert_le_m1 card_insert_if)
    finally show ?thesis .
  qed
  ultimately show ?thesis using ok by (simp add: ban_inv_def)
qed

lemma bl_bans_inv:
  assumes "ban_inv t0 p n g" and "n + length evs < BAN_LIST_MAX"
    and "\<forall>(now, q) \<in> set evs. t0 < now \<and> now - t0 < BAN_TTL"
  shows "ban_inv t0 p (n + length evs) (fold (\<lambda>(now, q). bl_ban now q) evs g)"
  using assms
proof (induction evs arbitrary: n g)
  case (Cons ev evs)
  obtain now q where ev: "ev = (now, q)" by (cases ev)
  have "ban_inv t0 p (Suc n) (bl_ban now q g)" using Cons.prems ev by (intro bl_ban_inv) auto
  from Cons.IH [OF this] Cons.prems ev show ?case by simp
qed simp

text \<open>
  C13: A banned peer stays banned for the whole ban period unless at least 1023 further
  bans are recorded meanwhile: churning identities below the cap of the list cannot
  flush an entry, and the list never exceeds its cap.
\<close>

theorem ban_persists:
  assumes "hm_ok g" and "length g \<le> BAN_LIST_MAX" and "\<forall>(q, t) \<in> set g. t < t0"
    and "\<forall>(now, q) \<in> set evs. t0 < now \<and> now - t0 < BAN_TTL"
    and "length evs < BAN_LIST_MAX - 1" and "t0 \<le> now" and "now - t0 < BAN_TTL"
  shows "bl_contains now p (fold (\<lambda>(now, q). bl_ban now q) evs (bl_ban t0 p g))
    \<and> length (fold (\<lambda>(now, q). bl_ban now q) evs (bl_ban t0 p g)) \<le> BAN_LIST_MAX"
proof -
  have sub: "set (bl_ban t0 p g) \<subseteq> insert (p, t0) (set g)"
    using assms(1) unfolding bl_ban_def by (rule capped_put_sub)
  have "{e \<in> set (bl_ban t0 p g). t0 < snd e} = {}" using sub assms(3) by fastforce
  then have card0: "card {e \<in> set (bl_ban t0 p g). t0 < snd e} = 0" by (simp only: card.empty)
  have "ban_inv t0 p 0 (bl_ban t0 p g)"
    using assms(1-3) sub card0
    by (fastforce simp: ban_inv_def bl_ban_def capped_put_length BAN_LIST_MAX_def)
  from bl_bans_inv [OF this _ assms(4)] assms(5)
  have "ban_inv t0 p (length evs) (fold (\<lambda>(now, q). bl_ban now q) evs (bl_ban t0 p g))" by simp
  then show ?thesis using assms(6,7) by (auto simp: ban_inv_def bl_contains_def)
qed

theorem ban_persists_witness:
  "bl_contains (secs 599) [1] (fold (\<lambda>(now, q). bl_ban now q) [(secs 2, [2]), (secs 3, [3])] (bl_ban 5 [1] []))"
  using ban_persists [of "[]" 5 "[(secs 2, [2]), (secs 3, [3])]" "secs 599" "[1]"]
  by (simp add: secs_def BAN_TTL_def BAN_LIST_MAX_def)

end
