(* ===== verification/Reassembly.thy ===== *)
theory Reassembly
  imports Wire
begin

section \<open>Segment chunking and reassembly\<close>

text \<open>
  Models \<open>src/crates/unstation-core/src/reassembly.rs\<close> and the chunked sender
  (\<open>send_segment_on\<close>) of \<open>node.rs\<close>. The bulk channel delivers chunks in any order and may
  repeat them; the main result is that whatever the order, a receiver that has seen every
  chunk holds exactly the segment that was sent. The node relies on the byte accounting of
  a reassembler through the locale \<open>metered_buffer\<close>.
\<close>

record reassembler =
  rs_total_len :: u32
  rs_chunks :: "(u32, bytes) btree_map"
  rs_buffered :: u32

definition rs_new :: "u32 \<Rightarrow> reassembler" where
  "rs_new n = \<lparr>rs_total_len = n, rs_chunks = [], rs_buffered = 0\<rparr>"

definition rs_add :: "u32 \<Rightarrow> bytes \<Rightarrow> reassembler \<Rightarrow> reassembler \<times> nat" where
  "rs_add off bs r =
     (let len = of_nat (length bs) :: u32 in
      if len = 0 \<or> rs_total_len r < sat_add off len then (r, 0)
      else if rs_total_len r < sat_add (rs_buffered r) len then (r, 0)
      else case map_of (rs_chunks r) off of
             Some _ \<Rightarrow> (r, 0)
           | None \<Rightarrow> (r\<lparr>rs_chunks := bt_put off bs (rs_chunks r), rs_buffered := rs_buffered r + len\<rparr>,
                     unat len))"

definition rs_buffered_bytes :: "reassembler \<Rightarrow> u64" where
  "rs_buffered_bytes r = ucast (rs_buffered r)"

text \<open>The loop of \<open>is_complete\<close>; \<open>None\<close> is its early \<open>return false\<close>.\<close>

fun rs_scan :: "u32 \<Rightarrow> (u32 \<times> bytes) list \<Rightarrow> u32 option" where
  "rs_scan expected [] = Some expected"
| "rs_scan expected ((off, data) # cs) =
     (if off \<noteq> expected then None
      else rs_scan (sat_add expected (of_nat (length data))) cs)"

definition rs_is_complete :: "reassembler \<Rightarrow> bool" where
  "rs_is_complete r \<longleftrightarrow> rs_scan 0 (rs_chunks r) = Some (rs_total_len r)"

definition rs_assemble :: "reassembler \<Rightarrow> bytes option" where
  "rs_assemble r = (if \<not> rs_is_complete r then None else Some (concat (map snd (rs_chunks r))))"

definition rs_finish_verified :: "libs \<Rightarrow> segment_id \<Rightarrow> reassembler \<Rightarrow> bytes option" where
  "rs_finish_verified L expected r = do {
     bs \<leftarrow> rs_assemble r;
     if verify_segment L bs expected then Some bs else None }"

subsection \<open>The sender\<close>

definition CHUNK :: nat where
  "CHUNK = 16 * 1024"

fun with_offsets :: "u32 \<Rightarrow> bytes list \<Rightarrow> (u32 \<times> bytes) list" where
  "with_offsets off [] = []"
| "with_offsets off (c # cs) = (off, c) # with_offsets (off + of_nat (length c)) cs"

text \<open>\<open>send_segment_on\<close>: the frames put on the bulk channel, in order.\<close>

definition send_segment_on :: "'s scale_scheme \<Rightarrow> u64 \<Rightarrow> bytes \<Rightarrow> bytes list" where
  "send_segment_on sc seq bs =
     map (\<lambda>(off, c). frame_segment_data sc seq (of_nat (length bs)) off c)
       (with_offsets 0 (chunks CHUNK bs))"

subsection \<open>Invariant and accounting\<close>

definition chunk_sum :: "(u32 \<times> bytes) list \<Rightarrow> nat" where
  "chunk_sum cs = (\<Sum>(off, c) \<leftarrow> cs. length c)"

definition rs_ok :: "reassembler \<Rightarrow> bool" where
  "rs_ok r \<longleftrightarrow> bt_ok (rs_chunks r)
     \<and> (\<forall>(off, c) \<in> set (rs_chunks r). unat off + length c \<le> unat (rs_total_len r))
     \<and> unat (rs_buffered r) = chunk_sum (rs_chunks r)
     \<and> rs_buffered r \<le> rs_total_len r"

lemma chunk_sum_put:
  "map_of cs off = None \<Longrightarrow> chunk_sum (bt_put off c cs) = length c + chunk_sum cs"
  by (induction cs) (auto simp: chunk_sum_def split: if_splits)

lemma set_bt_put_fresh: "map_of cs off = None \<Longrightarrow> set (bt_put off c cs) = insert (off, c) (set cs)"
  by (induction cs) (auto split: if_splits)

lemma sat_add_le_iff: "sat_add a b \<le> c \<longleftrightarrow> unat a + unat b \<le> unat c \<or> c = - 1"
proof -
  have m: "unat (- 1 :: 'a word) = 2 ^ LENGTH('a) - 1"
    by (simp add: unsigned_minus_1_eq_mask mask_eq_exp_minus_1)
  have "c = - 1 \<longleftrightarrow> unat c = 2 ^ LENGTH('a) - 1" by (simp add: word_unat_eq_iff m)
  then show ?thesis
    using unat_less_2p [of c] unfolding word_le_nat_alt unat_sat_add by linarith
qed

lemma rs_add_cases:
  assumes "length bs < 2 ^ 32"
  obtains (rejected) "rs_add off bs r = (r, 0)"
  | (stored) "rs_add off bs r =
        (r\<lparr>rs_chunks := bt_put off bs (rs_chunks r), rs_buffered := rs_buffered r + of_nat (length bs)\<rparr>,
         length bs)"
      and "map_of (rs_chunks r) off = None" and "0 < length bs"
      and "sat_add off (of_nat (length bs)) \<le> rs_total_len r"
      and "sat_add (rs_buffered r) (of_nat (length bs)) \<le> rs_total_len r"
proof -
  have u: "unat (of_nat (length bs) :: u32) = length bs"
    using assms by (simp add: unat_of_nat_exact)
  have z: "(of_nat (length bs) :: u32) = 0 \<longleftrightarrow> bs = []"
    using u by (auto simp: unat_eq_zero)
  consider "(of_nat (length bs) :: u32) = 0 \<or> rs_total_len r < sat_add off (of_nat (length bs))
      \<or> rs_total_len r < sat_add (rs_buffered r) (of_nat (length bs)) \<or> map_of (rs_chunks r) off \<noteq> None"
    | "\<not> (of_nat (length bs) :: u32) = 0" "\<not> rs_total_len r < sat_add off (of_nat (length bs))"
      "\<not> rs_total_len r < sat_add (rs_buffered r) (of_nat (length bs))" "map_of (rs_chunks r) off = None"
    by argo
  then show thesis
  proof cases
    case 1
    then have "rs_add off bs r = (r, 0)" by (auto simp: rs_add_def Let_def)
    then show thesis by (rule rejected)
  next
    case 2
    then have "bs \<noteq> []" using z by blast
    with 2 show thesis by (intro stored) (simp_all add: rs_add_def Let_def u not_less)
  qed
qed

lemma rs_add_ok:
  assumes "rs_ok r" and "length bs < 2 ^ 32" and "rs_total_len r < - 1"
  shows "rs_ok (fst (rs_add off bs r))"
  using assms(2)
proof (cases rule: rs_add_cases [of bs off r])
  case rejected
  then show ?thesis using assms(1) by simp
next
  case stored
  have u: "unat (of_nat (length bs) :: u32) = length bs"
    using assms(2) by (simp add: unat_of_nat_exact)
  have off: "unat off + length bs \<le> unat (rs_total_len r)"
    and buf: "unat (rs_buffered r) + length bs \<le> unat (rs_total_len r)"
    using stored(4,5) assms(3) by (auto simp: sat_add_le_iff u)
  have "unat (rs_buffered r) + length bs < 2 ^ 32"
    using buf unat_less_2p [of "rs_total_len r"] by simp
  then have sum: "unat (rs_buffered r + of_nat (length bs)) = unat (rs_buffered r) + length bs"
    using unat_plus_exact [of "rs_buffered r" "of_nat (length bs)"] u by simp
  show ?thesis
    using stored assms(1) off buf sum
    by (auto simp: rs_ok_def bt_ok_put set_bt_put_fresh chunk_sum_put word_le_nat_alt)
qed

lemma rs_new_ok [simp]: "rs_ok (rs_new n)"
  by (simp add: rs_ok_def rs_new_def chunk_sum_def)

lemma rs_total_add [simp]: "rs_total_len (fst (rs_add off bs r)) = rs_total_len r"
  by (simp add: rs_add_def Let_def split: option.split)

text \<open>
  What the node's global byte budget assumes of a buffer: it starts empty, it never
  exceeds its declared size, and \<open>add\<close> reports exactly what it grew by.
\<close>

locale metered_buffer =
  fixes admits :: "'n \<Rightarrow> bool"
    and new :: "'n \<Rightarrow> 'b"
    and add :: "'o \<Rightarrow> 'd \<Rightarrow> 'b \<Rightarrow> 'b \<times> nat"
    and used :: "'b \<Rightarrow> nat"
    and room :: "'b \<Rightarrow> nat"
    and good :: "'b \<Rightarrow> bool"
    and fits :: "'d \<Rightarrow> bool"
  assumes new_used: "used (new n) = 0"
    and new_good: "admits n \<Longrightarrow> good (new n)"
    and add_good: "good b \<Longrightarrow> fits d \<Longrightarrow> good (fst (add x d b))"
    and add_used: "good b \<Longrightarrow> fits d \<Longrightarrow> used (fst (add x d b)) = used b + snd (add x d b)"
    and add_room: "room (fst (add x d b)) = room b"
    and used_room: "good b \<Longrightarrow> used b \<le> room b"
begin

lemma add_grows: "good b \<Longrightarrow> fits d \<Longrightarrow> used b \<le> used (fst (add x d b))"
  by (simp add: add_used)

lemma add_bounded: "good b \<Longrightarrow> fits d \<Longrightarrow> used b + snd (add x d b) \<le> room b"
  using used_room [of "fst (add x d b)"] by (simp add: add_good add_used [symmetric] add_room)

lemma fold_used:
  "good b \<Longrightarrow> list_all (\<lambda>(x, d). fits d) ops \<Longrightarrow>
     good (fold (\<lambda>(x, d) b. fst (add x d b)) ops b)
     \<and> used b \<le> used (fold (\<lambda>(x, d) b. fst (add x d b)) ops b)
     \<and> used (fold (\<lambda>(x, d) b. fst (add x d b)) ops b) \<le> room b"
proof (induction ops arbitrary: b)
  case Nil
  then show ?case by (simp add: used_room)
next
  case (Cons o' ops)
  obtain x d where o': "o' = (x, d)" by (cases o')
  with Cons.prems have "good (fst (add x d b))" and "used b \<le> used (fst (add x d b))"
    by (simp_all add: add_good add_grows)
  with Cons o' show ?case by (fastforce simp: add_room)
qed

end

definition rs_good :: "reassembler \<Rightarrow> bool" where
  "rs_good r \<longleftrightarrow> rs_ok r \<and> rs_total_len r < - 1"

lemma rs_add_used:
  assumes "rs_good r" and "length bs < 2 ^ 32"
  shows "unat (rs_buffered (fst (rs_add off bs r))) = unat (rs_buffered r) + snd (rs_add off bs r)"
  using assms(2)
proof (cases rule: rs_add_cases [of bs off r])
  case stored
  have "rs_ok (fst (rs_add off bs r))"
    using assms by (intro rs_add_ok) (auto simp: rs_good_def)
  with stored assms show ?thesis
    by (simp add: rs_good_def rs_ok_def chunk_sum_put)
qed simp

interpretation rs: metered_buffer "\<lambda>n. n < - 1" rs_new rs_add "\<lambda>r. unat (rs_buffered r)"
  "\<lambda>r. unat (rs_total_len r)" rs_good "\<lambda>bs. length bs < 2 ^ 32"
proof unfold_locales
  fix n :: u32 and r off and bs :: bytes
  show "n < - 1 \<Longrightarrow> rs_good (rs_new n)"
    by (simp add: rs_good_def) (simp add: rs_new_def)
  show "unat (rs_buffered (rs_new n)) = 0" by (simp add: rs_new_def)
  show "rs_good r \<Longrightarrow> length bs < 2 ^ 32 \<Longrightarrow> rs_good (fst (rs_add off bs r))"
    by (simp add: rs_good_def rs_add_ok)
  show "rs_good r \<Longrightarrow> length bs < 2 ^ 32 \<Longrightarrow>
      unat (rs_buffered (fst (rs_add off bs r))) = unat (rs_buffered r) + snd (rs_add off bs r)"
    by (rule rs_add_used)
  show "unat (rs_total_len (fst (rs_add off bs r))) = unat (rs_total_len r)" by simp
  show "rs_good r \<Longrightarrow> unat (rs_buffered r) \<le> unat (rs_total_len r)"
    by (simp add: rs_good_def rs_ok_def word_le_nat_alt)
qed

subsection \<open>Any delivery order reassembles the segment\<close>

lemma with_offsets_props:
  assumes "unat off + length (concat cs) < 2 ^ 32" and "[] \<notin> set cs"
  shows "map snd (with_offsets off cs) = cs
    \<and> bt_ok (with_offsets off cs)
    \<and> (\<forall>(o', c) \<in> set (with_offsets off cs). off \<le> o' \<and> unat o' + length c \<le> unat off + length (concat cs))
    \<and> rs_scan off (with_offsets off cs) = Some (off + of_nat (length (concat cs)))"
  using assms
proof (induction cs arbitrary: off)
  case (Cons c cs)
  let ?o = "off + of_nat (length c) :: u32"
  have "unat off + length c < 2 ^ 32" and pos: "0 < length c" using Cons.prems by auto
  then have o: "unat ?o = unat off + length c"
    using unat_plus_exact [of off "of_nat (length c)"] by (simp add: unat_of_nat_exact)
  have IH: "map snd (with_offsets ?o cs) = cs \<and> bt_ok (with_offsets ?o cs)
    \<and> (\<forall>(o', d) \<in> set (with_offsets ?o cs). ?o \<le> o' \<and> unat o' + length d \<le> unat ?o + length (concat cs))
    \<and> rs_scan ?o (with_offsets ?o cs) = Some (?o + of_nat (length (concat cs)))"
    using Cons.prems o by (intro Cons.IH) auto
  have lt: "off < ?o" using o pos by (simp add: word_less_nat_alt)
  have sat: "sat_add off (of_nat (length c)) = ?o"
    using \<open>unat off + length c < 2 ^ 32\<close> unfolding sat_add_def by (simp add: unat_of_nat_exact)
  have above: "off < o'" if "(o', d) \<in> set (with_offsets ?o cs)" for o' d
  proof -
    have "?o \<le> o'" using IH that by blast
    then show ?thesis by (rule order_less_le_trans [OF lt])
  qed
  have len: "unat o' + length d \<le> unat off + length (concat (c # cs))" if "(o', d) \<in> set (with_offsets ?o cs)" for o' d
  proof -
    have "unat o' + length d \<le> unat ?o + length (concat cs)" using IH that by blast
    then show ?thesis using o by simp
  qed
  have "bt_ok ((off, c) # with_offsets ?o cs)"
    using IH above by (auto simp: bt_ok_def)
  moreover have "\<forall>(o', d) \<in> set ((off, c) # with_offsets ?o cs).
      off \<le> o' \<and> unat o' + length d \<le> unat off + length (concat (c # cs))"
    using above len by (auto intro: order_less_imp_le)
  moreover have "rs_scan off ((off, c) # with_offsets ?o cs) = Some (off + of_nat (length (concat (c # cs))))"
    using IH sat by (simp add: add.assoc)
  ultimately show ?case using IH by simp
qed (simp_all add: bt_ok_def)

lemma chunk_sum_subset:
  assumes "bt_ok ps" and "bt_ok qs" and "set qs \<subseteq> set ps" and "(off, c) \<in> set ps" and "(off, c) \<notin> set qs"
  shows "chunk_sum qs + length c \<le> chunk_sum ps"
proof -
  have d: "distinct ps" "distinct qs"
    using bt_distinct [OF assms(1)] bt_distinct [OF assms(2)] by (simp_all add: distinct_map)
  have "(\<Sum>e \<in> insert (off, c) (set qs). length (snd e)) \<le> (\<Sum>e \<in> set ps. length (snd e))"
    using assms(3,4) by (intro sum_mono2) auto
  then show ?thesis
    using d assms(5)
    by (simp add: chunk_sum_def sum_list_distinct_conv_sum_set case_prod_beta)
qed

lemma bt_ext:
  assumes "bt_ok ps" and "bt_ok qs" and "set ps = set qs"
  shows "ps = qs"
  using assms
proof (induction ps arbitrary: qs)
  case (Cons p ps)
  then obtain q qs' where qs: "qs = q # qs'" by (cases qs) auto
  have p: "\<forall>x \<in> set ps. fst p < fst x" and q: "\<forall>x \<in> set qs'. fst q < fst x"
    using Cons.prems qs by (auto simp: bt_ok_def)
  have "p \<in> insert q (set qs')" and "q \<in> insert p (set ps)"
    using Cons.prems(3) qs by auto
  then have eq: "p = q" using p q by (auto dest: less_not_sym)
  have "p \<notin> set ps" and "q \<notin> set qs'" using p q by auto
  with Cons.prems(3) qs eq have "set ps = set qs'" by (auto simp: insert_ident)
  moreover have "bt_ok ps" and "bt_ok qs'" using Cons.prems qs by (auto simp: bt_ok_def)
  ultimately show ?case using Cons.IH eq qs by blast
qed simp

text \<open>The chunks a receiver may have stored while a segment is being delivered.\<close>

definition rs_holds :: "(u32 \<times> bytes) list \<Rightarrow> nat \<Rightarrow> reassembler \<Rightarrow> bool" where
  "rs_holds ps n r \<longleftrightarrow> rs_good r \<and> unat (rs_total_len r) = n \<and> set (rs_chunks r) \<subseteq> set ps"

lemma chunk_sum_concat: "chunk_sum cs = length (concat (map snd cs))"
  by (induction cs) (auto simp: chunk_sum_def)

lemma rs_scan_len:
  assumes "rs_scan e cs = Some f" and "unat e + chunk_sum cs < 2 ^ 32"
  shows "unat f = unat e + chunk_sum cs"
  using assms
proof (induction cs arbitrary: e)
  case (Cons c cs)
  obtain off d where c: "c = (off, d)" by (cases c)
  have lt: "unat e + length d < 2 ^ 32" using Cons.prems(2) c by (simp add: chunk_sum_def)
  then have d: "unat (of_nat (length d) :: u32) = length d" by (simp add: unat_of_nat_exact)
  have s: "unat (sat_add e (of_nat (length d))) = unat e + length d"
    using lt d unfolding unat_sat_add by simp
  have "unat f = unat (sat_add e (of_nat (length d))) + chunk_sum cs"
    using Cons.prems s c by (intro Cons.IH) (auto simp: chunk_sum_def split: if_splits)
  then show ?case using s c by (simp add: chunk_sum_def)
qed (simp add: chunk_sum_def)

lemma rs_add_holds:
  assumes ps: "bt_ok ps" "chunk_sum ps = n" "\<forall>(off, c) \<in> set ps. 0 < length c \<and> unat off + length c \<le> n"
    and r: "rs_holds ps n r" and mem: "(off, c) \<in> set ps"
  shows "rs_holds ps n (fst (rs_add off c r))
    \<and> set (rs_chunks (fst (rs_add off c r))) = insert (off, c) (set (rs_chunks r))"
proof -
  have bounds: "0 < length c" "unat off + length c \<le> n" using ps(3) mem by auto
  have n: "n < 2 ^ 32 - 1"
  proof -
    have "rs_total_len r < - 1" using r by (simp add: rs_holds_def rs_good_def)
    moreover have "unat (- 1 :: u32) = 2 ^ 32 - 1"
      by (simp add: unsigned_minus_1_eq_mask mask_eq_exp_minus_1)
    ultimately show ?thesis using r unfolding word_less_nat_alt rs_holds_def by linarith
  qed
  have len: "length c < 2 ^ 32" using bounds n by linarith
  have u: "unat (of_nat (length c) :: u32) = length c" using len by (simp add: unat_of_nat_exact)
  have good: "rs_good (fst (rs_add off c r))"
    using r len rs.add_good [of r c off] by (simp add: rs_holds_def)
  have ok: "bt_ok (rs_chunks r)" "unat (rs_buffered r) = chunk_sum (rs_chunks r)"
    "set (rs_chunks r) \<subseteq> set ps" "unat (rs_total_len r) = n"
    using r by (auto simp: rs_holds_def rs_good_def rs_ok_def)
  have "set (rs_chunks (fst (rs_add off c r))) = insert (off, c) (set (rs_chunks r))"
  proof (cases "map_of (rs_chunks r) off")
    case (Some d)
    then have "(off, d) \<in> set (rs_chunks r)" by (rule map_of_SomeD)
    then have in_r: "(off, c) \<in> set (rs_chunks r)"
      using eq_key_imp_eq_value [OF bt_distinct [OF ps(1)] mem, of d] ok(3) by auto
    have "rs_chunks (fst (rs_add off c r)) = rs_chunks r" using Some by (simp add: rs_add_def Let_def)
    with in_r show ?thesis by auto
  next
    case None
    then have "(off, c) \<notin> set (rs_chunks r)" by (auto simp: map_of_eq_None_iff image_iff)
    then have "chunk_sum (rs_chunks r) + length c \<le> n"
      using chunk_sum_subset [OF ps(1) ok(1,3) mem] ps(2) by simp
    then have le: "sat_add off (of_nat (length c)) \<le> rs_total_len r"
      "sat_add (rs_buffered r) (of_nat (length c)) \<le> rs_total_len r"
      using bounds ok by (simp_all add: sat_add_le_iff u)
    have "(of_nat (length c) :: u32) \<noteq> 0" using u bounds(1) by (auto simp: unat_eq_zero)
    then have "rs_add off c r = (r\<lparr>rs_chunks := bt_put off c (rs_chunks r),
        rs_buffered := rs_buffered r + of_nat (length c)\<rparr>, length c)"
      using None le by (simp add: rs_add_def Let_def leD u)
    with None show ?thesis by (simp add: set_bt_put_fresh)
  qed
  with good ok mem r show ?thesis by (simp add: rs_holds_def)
qed

lemma rs_feed_holds:
  assumes "bt_ok ps" "chunk_sum ps = n" "\<forall>(off, c) \<in> set ps. 0 < length c \<and> unat off + length c \<le> n"
    and "rs_holds ps n r" and "set xs \<subseteq> set ps"
  shows "rs_holds ps n (fold (\<lambda>(off, c) r. fst (rs_add off c r)) xs r)
    \<and> set (rs_chunks (fold (\<lambda>(off, c) r. fst (rs_add off c r)) xs r)) = set xs \<union> set (rs_chunks r)"
  using assms(4,5)
proof (induction xs arbitrary: r)
  case (Cons x xs)
  obtain off c where x: "x = (off, c)" by (cases x)
  from Cons.prems x have "(off, c) \<in> set ps" by simp
  from rs_add_holds [OF assms(1-3) Cons.prems(1) this] Cons x show ?case by auto
qed simp

text \<open>
  C9: A receiver that is handed every chunk that \<open>send_segment_on\<close> cuts a segment into,
  in any order and with any number of duplicates, has a complete buffer and assembles
  exactly the bytes that were sent; with the segment's content id, \<open>finish_verified\<close>
  returns them.
\<close>

theorem reassembly_any_order:
  assumes "length data < 2 ^ 32 - 1"
    and "set xs = set (with_offsets 0 (chunks CHUNK data))"
  shows "rs_finish_verified L (segment_id_of L data)
     (fold (\<lambda>(off, c) r. fst (rs_add off c r)) xs (rs_new (of_nat (length data)))) = Some data"
proof -
  let ?cs = "chunks CHUNK data" and ?n = "length data"
  let ?ps = "with_offsets 0 ?cs"
  let ?r = "fold (\<lambda>(off, c) r. fst (rs_add off c r)) xs (rs_new (of_nat ?n))"
  have C: "concat ?cs = data" by (simp add: concat_chunks CHUNK_def)
  have ne: "[] \<notin> set ?cs" using chunks_length by fastforce
  have P: "map snd ?ps = ?cs" "bt_ok ?ps" "rs_scan 0 ?ps = Some (of_nat ?n)"
    and Pb: "\<forall>(off, c) \<in> set ?ps. unat off + length c \<le> ?n"
    using with_offsets_props [of 0 ?cs] ne C assms(1) by auto
  have Pl: "0 < length c" if "(off, c) \<in> set ?ps" for off c
  proof -
    have "c \<in> set (map snd ?ps)" using that by (metis image_eqI set_map snd_conv)
    then have "c \<in> set ?cs" using P(1) by argo
    then show ?thesis using chunks_length by blast
  qed
  have u: "unat (of_nat ?n :: u32) = ?n" using assms(1) by (simp add: unat_of_nat_exact)
  moreover have "unat (- 1 :: u32) = 2 ^ 32 - 1"
    by (simp add: unsigned_minus_1_eq_mask mask_eq_exp_minus_1)
  ultimately have "(of_nat ?n :: u32) < - 1" using assms(1) unfolding word_less_nat_alt by linarith
  then have new: "rs_holds ?ps ?n (rs_new (of_nat ?n))"
    using rs.new_good [of "of_nat ?n"] u by (simp add: rs_holds_def) (simp add: rs_new_def)
  have "chunk_sum ?ps = ?n" using P(1) C by (simp add: chunk_sum_concat)
  from rs_feed_holds [OF P(2) this _ new, of xs] Pb Pl assms(2)
  have H: "rs_holds ?ps ?n ?r" "set (rs_chunks ?r) = set ?ps" by (auto simp: rs_new_def)
  have "bt_ok (rs_chunks ?r)" using H(1) by (simp add: rs_holds_def rs_good_def rs_ok_def)
  then have eq: "rs_chunks ?r = ?ps" using P(2) H(2) by (intro bt_ext)
  have "rs_total_len ?r = of_nat ?n"
    using H(1) u by (simp add: rs_holds_def word_unat_eq_iff)
  then have "rs_assemble ?r = Some data"
    using eq P C by (simp add: rs_assemble_def rs_is_complete_def)
  then show ?thesis by (simp add: rs_finish_verified_def verify_segment_def segment_id_of_def)
qed

theorem reassembly_any_order_witness:
  "rs_finish_verified toy_libs (segment_id_of toy_libs [1, 2, 3])
     (fold (\<lambda>(off, c) r. fst (rs_add off c r)) [(0, [1, 2, 3]), (0, [1, 2, 3])]
       (rs_new (of_nat (length ([1, 2, 3] :: bytes))))) = Some [1, 2, 3]"
  by (rule reassembly_any_order)
     (simp_all add: CHUNK_def chunks.simps [of "16 * 1024" "_ # _"] chunks.simps [of 16384 "_ # _"])

text \<open>
  Whatever a peer sends, in any order, a reassembler never buffers more than the
  declared segment length, and its counter is exactly the bytes it holds; a complete one
  assembles to precisely the declared length.
\<close>

theorem reassembly_bounded:
  assumes "n < - 1" and "list_all (\<lambda>(off, c). length c < 2 ^ 32) ops"
    and "r = fold (\<lambda>(off, c) r. fst (rs_add off c r)) ops (rs_new n)"
  shows "unat (rs_buffered_bytes r) = length (concat (map snd (rs_chunks r)))
    \<and> rs_buffered_bytes r \<le> ucast n
    \<and> (\<forall>bs. rs_assemble r = Some bs \<longrightarrow> length bs = unat n)"
proof -
  have good: "rs_good r" and tot: "unat (rs_buffered r) \<le> unat n"
    using rs.fold_used [OF rs.new_good [OF assms(1)] assms(2)] assms(3)
    by (simp_all add: rs_new_def)
  have len: "rs_total_len r = n"
    unfolding assms(3) by (induction ops rule: rev_induct) (auto simp: rs_new_def case_prod_beta)
  from good have "unat (rs_buffered r) = length (concat (map snd (rs_chunks r)))"
    by (simp add: rs_good_def rs_ok_def chunk_sum_concat)
  moreover have "length bs = unat n" if "rs_assemble r = Some bs" for bs
  proof -
    have "rs_scan 0 (rs_chunks r) = Some (rs_total_len r)" and bs: "bs = concat (map snd (rs_chunks r))"
      using that by (auto simp: rs_assemble_def rs_is_complete_def split: if_splits)
    moreover have "unat 0 + chunk_sum (rs_chunks r) < 2 ^ 32"
      using good tot unat_less_2p [of n] by (simp add: rs_good_def rs_ok_def)
    ultimately have "unat (rs_total_len r) = chunk_sum (rs_chunks r)"
      using rs_scan_len [of 0 "rs_chunks r"] by simp
    then show ?thesis using bs len by (simp add: chunk_sum_concat)
  qed
  ultimately show ?thesis using tot
    by (simp add: rs_buffered_bytes_def word_nat word_le_nat_alt)
qed

theorem reassembly_bounded_witness:
  "unat (rs_buffered_bytes (fst (rs_add 0 [7, 8] (rs_new 4)))) = 2
    \<and> rs_buffered_bytes (fst (rs_add 0 [7, 8] (rs_new 4))) \<le> ucast (4 :: u32)"
  using reassembly_bounded [of 4 "[(0, [7, 8])]" "fst (rs_add 0 [7, 8] (rs_new 4))"]
  by (simp add: rs_add_def rs_new_def Let_def sat_add_def)

end
