(* ===== verification/Node_State.thy ===== *)
theory Node_State
  imports Picker Signaling Reassembly
begin

section \<open>The mesh node: state and shared operations\<close>

text \<open>
  Models the first part of \<open>src/crates/unstation-core/src/node.rs\<close>: its constants, the
  state of \<open>MeshNode\<close>, its constructors, and the operations that both the message
  handlers and the scheduler tick use. The single actor owns all its state, so each
  handler is a function on the state record. What the code does to the outside (sending
  on a link, closing it, feeding the player, spawning a fetch) is appended to the field
  \<open>n_out\<close>; a link is a handle. The file system and the maps shared with the session
  (presence book, ban list) are fields too, since the node reads and writes them.
  What one step reads from outside is the argument \<open>env\<close>: the cryptographic and codec
  libraries, the random generator, the outcome of disk operations, the monotonic clock
  and the player's play head.
\<close>

subsection \<open>Constants\<close>

definition PENDING_TIMEOUT_MS :: u64 where "PENDING_TIMEOUT_MS = 2000"
definition PING_INTERVAL_MS :: u64 where "PING_INTERVAL_MS = 1000"
definition BUFFERMAP_INTERVAL_MS :: u64 where "BUFFERMAP_INTERVAL_MS = 500"
definition MAX_SEGMENT_BYTES :: u32 where "MAX_SEGMENT_BYTES = 4 * 1024 * 1024"
definition UPLOAD_SLOTS :: nat where "UPLOAD_SLOTS = 4"
definition CHOKE_INTERVAL_MS :: u64 where "CHOKE_INTERVAL_MS = 5000"
definition MAX_PENDING_VERIFY_BYTES :: u64 where "MAX_PENDING_VERIFY_BYTES = 8 * 1024 * 1024"
definition EDGE_SEEN_KEEP :: u64 where "EDGE_SEEN_KEEP = 1024"
definition PRESENCE_GOSSIP_INTERVAL_MS :: u64 where "PRESENCE_GOSSIP_INTERVAL_MS = 3000"
definition PRESENCE_GOSSIP_MAX :: nat where "PRESENCE_GOSSIP_MAX = 32"
definition EDGE_SIGN_TAG :: bytes where "EDGE_SIGN_TAG = ascii ''unstation-edge-v1''"
definition MAX_REASM :: nat where "MAX_REASM = 64"
definition MAX_REASM_BYTES :: u64 where "MAX_REASM_BYTES = 32 * 1024 * 1024"
definition REASM_TTL_MS :: u64 where "REASM_TTL_MS = 2 * PENDING_TIMEOUT_MS"
definition PUSH_AHEAD :: u64 where "PUSH_AHEAD = 16"
definition MAX_WANT_SEQS :: nat where "MAX_WANT_SEQS = 32"
definition SERVE_BYTES_PER_TICK :: nat where "SERVE_BYTES_PER_TICK = 256 * 1024"
definition SERVE_QUEUE_MAX :: nat where "SERVE_QUEUE_MAX = 64"
definition MAX_GOSSIP_PEERS :: nat where "MAX_GOSSIP_PEERS = 256"
definition MAX_GOSSIP_RECORDS :: nat where "MAX_GOSSIP_RECORDS = 64"
definition MAX_BITFIELD_BYTES :: nat where "MAX_BITFIELD_BYTES = 8 * 1024"
definition KNOWN_PEERS_MAX :: nat where "KNOWN_PEERS_MAX = 4096"
definition EDGE_REANNOUNCE_MS :: u64 where "EDGE_REANNOUNCE_MS = 1000"
definition REPUTATION_FLOOR :: real where "REPUTATION_FLOOR = 5 / 100"
definition REPUTATION_HEAL :: real where "REPUTATION_HEAL = 2 / 100"
definition TIMEOUT_REP_FLOOR :: real where "TIMEOUT_REP_FLOOR = 1 / 10"
definition MAX_FALLBACK_INFLIGHT :: nat where "MAX_FALLBACK_INFLIGHT = 3"
definition f64_MAX :: real where "f64_MAX = (2 - 1 / 2 ^ 52) * 2 ^ 1023"

datatype penalty = HashFail | Timeout | ProtocolAbuse

fun penalty_factor :: "penalty \<Rightarrow> real" where
  "penalty_factor HashFail = 5 / 10"
| "penalty_factor Timeout = 8 / 10"
| "penalty_factor ProtocolAbuse = 9 / 10"

definition edge_payload :: "libs \<Rightarrow> stream_id \<Rightarrow> u64 \<Rightarrow> segment_id \<Rightarrow> bytes" where
  "edge_payload L sid seq i = EDGE_SIGN_TAG @ sid @ enc_u64 L seq @ i"

definition select_unchokes :: "(peer_id \<times> real \<times> real) list \<Rightarrow> role \<Rightarrow> nat \<Rightarrow> u64 \<Rightarrow> peer_id list" where
  "select_unchokes peers r slots optimistic_rr =
     (let ranked = (case r of
                      Viewer \<Rightarrow> sort_key (\<lambda>(_, tp, _). - tp) peers
                    | _ \<Rightarrow> sort_key (\<lambda>(_, _, rtt). rtt) peers);
          chosen = fold hs_insert (map fst (take slots ranked)) [];
          rest = map fst (drop slots ranked)
      in if rest \<noteq> [] then hs_insert (rest ! (unat optimistic_rr mod length rest)) chosen else chosen)"

subsection \<open>State\<close>

record node_stats =
  ns_delivered :: nat
  ns_peer_bytes :: u64
  ns_sent_bytes :: u64
  ns_from_origin :: nat
  ns_hash_failures :: u64
  ns_latency_s :: real
  ns_head_seq :: u64
  ns_play_seq :: u64
  ns_reasm_entries :: nat
  ns_reasm_bytes :: u64
  ns_pending_entries :: nat
  ns_peers :: nat
  ns_known_peers :: nat

definition stats_default :: node_stats where
  "stats_default = \<lparr>ns_delivered = 0, ns_peer_bytes = 0, ns_sent_bytes = 0, ns_from_origin = 0,
     ns_hash_failures = 0, ns_latency_s = 0, ns_head_seq = 0, ns_play_seq = 0, ns_reasm_entries = 0,
     ns_reasm_bytes = 0, ns_pending_entries = 0, ns_peers = 0, ns_known_peers = 0\<rparr>"

datatype channel = Ctrl | Bulk
type_synonym link = nat

datatype effect =
  Send link channel bytes
| CloseLink link
| PushInit bytes
| PushSegment u64 bytes
| SpawnFetch u64 segment_id
| SpawnDiskServe link u64 segment_id path
| PublishStats node_stats

record reasm_entry =
  re_r :: reassembler
  re_created_ms :: u64

record env =
  ev_libs :: libs
  ev_gen :: "nat \<Rightarrow> real \<times> nat"
  ev_fault :: io_fault
  ev_now :: instant
  ev_play_head :: u64

record mesh_node =
  n_me :: peer_id
  n_eng :: mesh_engine
  n_discard_sink :: bool
  n_links :: "(peer_id, link) hash_map"
  n_reasm :: "(peer_id \<times> u64, reasm_entry) hash_map"
  n_reasm_bytes :: u64
  n_segment_ids :: "(u64, segment_id) hash_map"
  n_stream_id :: stream_id
  n_edge_signer :: "(bytes \<Rightarrow> bytes) option"
  n_publisher_key :: "bytes option"
  n_edge_seen :: "u64 list"
  n_recent_edges :: "(u64 \<times> segment_id \<times> bytes) list"
  n_last_edge_regossip_ms :: u64
  n_presence_book :: "presence_book option"
  n_ban_list :: "ban_list option"
  n_last_presence_gossip_ms :: u64
  n_known_peers :: "peer_id list"
  n_subscribers :: "peer_id list"
  n_pending_verify :: "(u64, peer_id \<times> bytes) hash_map"
  n_pending_verify_bytes :: u64
  n_pending :: "(u64, peer_id \<times> u64) hash_map"
  n_hedge :: "(u64, peer_id \<times> u64) hash_map"
  n_rng :: nat
  n_now_ms :: u64
  n_last_ping_ms :: u64
  n_last_bm_ms :: u64
  n_last_bm_count :: nat
  n_last_choke_ms :: u64
  n_optimistic_rr :: u64
  n_upload_tokens :: real
  n_last_token_ms :: u64
  n_delivered_total :: nat
  n_stats_tx :: bool
  n_last_stats_ms :: u64
  n_fallback :: bool
  n_fallback_inflight :: "u64 list"
  n_last_prune_floor :: u64
  n_stats :: node_stats
  n_init :: "bytes option"
  n_disk :: disk
  n_out :: "effect list"

subsection \<open>Constructors\<close>

text \<open>The upload bucket's burst: half a second of budget, at least two segments.\<close>

definition burst_of :: "u64 \<Rightarrow> u64 \<Rightarrow> real" where
  "burst_of bps seg_bytes = max (of_nat (unat bps) / 8 * (5 / 10)) (2 * of_nat (unat seg_bytes))"

definition with_engine :: "(u64 \<Rightarrow> nat) \<Rightarrow> peer_id \<Rightarrow> mesh_engine \<Rightarrow> bool \<Rightarrow> (u64, segment_id) hash_map \<Rightarrow> disk \<Rightarrow> mesh_node" where
  "with_engine seed_from_u64 me eng discard ids d = \<lparr>
     n_me = me, n_eng = eng, n_discard_sink = discard, n_links = [], n_reasm = [], n_reasm_bytes = 0,
     n_segment_ids = ids, n_stream_id = zeros32, n_edge_signer = None, n_publisher_key = None,
     n_edge_seen = [], n_recent_edges = [], n_last_edge_regossip_ms = 0, n_presence_book = None,
     n_ban_list = None, n_last_presence_gossip_ms = 0, n_known_peers = [], n_subscribers = [],
     n_pending_verify = [], n_pending_verify_bytes = 0, n_pending = [], n_hedge = [],
     n_rng = seed_from_u64 (ucast (hd me) + 1), n_now_ms = 0, n_last_ping_ms = 0, n_last_bm_ms = 0,
     n_last_bm_count = 2 ^ 64 - 1, n_last_choke_ms = 0, n_optimistic_rr = 0,
     n_upload_tokens = (if 0 < cfg_upload_budget_bps (en_cfg eng)
                        then burst_of (cfg_upload_budget_bps (en_cfg eng)) (en_seg_bytes eng) else 0),
     n_last_token_ms = 0, n_delivered_total = bm_count (en_local eng), n_stats_tx = False,
     n_last_stats_ms = 0, n_fallback = False, n_fallback_inflight = [], n_last_prune_floor = 0,
     n_stats = stats_default, n_init = None, n_disk = d, n_out = []\<rparr>"

definition fetching_engine :: "mesh_config \<Rightarrow> u64 \<Rightarrow> u64 \<Rightarrow> mesh_engine" where
  "fetching_engine cfg seg_bytes head_seq =
     (engine_new cfg seg_bytes)\<lparr>en_head_seq := head_seq, en_seed_available := False, en_bulletin_available := False\<rparr>"

definition new_viewer :: "(u64 \<Rightarrow> nat) \<Rightarrow> peer_id \<Rightarrow> mesh_config \<Rightarrow> u64 \<Rightarrow> (u64, segment_id) hash_map \<Rightarrow> u64 \<Rightarrow> disk \<Rightarrow> mesh_node" where
  "new_viewer seed me cfg seg_bytes ids head_seq d =
     with_engine seed me (fetching_engine cfg seg_bytes head_seq) False ids d"

definition new_seed :: "(u64 \<Rightarrow> nat) \<Rightarrow> peer_id \<Rightarrow> mesh_config \<Rightarrow> u64 \<Rightarrow> (u64, segment_id) hash_map \<Rightarrow> u64 \<Rightarrow> disk \<Rightarrow> mesh_node" where
  "new_seed seed me cfg seg_bytes ids head_seq d =
     with_engine seed me (fetching_engine cfg seg_bytes head_seq) True ids d"

text \<open>The preload loop of \<open>new_publisher\<close>, over the enumerated segments.\<close>

fun preload :: "env \<Rightarrow> nat \<Rightarrow> bytes list \<Rightarrow> mesh_engine \<times> (u64, segment_id) hash_map \<times> disk \<Rightarrow> mesh_engine \<times> (u64, segment_id) hash_map \<times> disk" where
  "preload ev i [] s = s"
| "preload ev i (b # bs) (eng, ids, d) =
     (let seq = of_nat i; sid = segment_id_of (ev_libs ev) b;
          (st, d') = st_insert (ev_fault ev) seq sid b (en_store eng) d
      in preload ev (i + 1) bs
           (eng\<lparr>en_store := st, en_local := bm_set seq (en_local eng)\<rparr>, hm_put seq sid ids, d'))"

definition new_publisher :: "env \<Rightarrow> (u64 \<Rightarrow> nat) \<Rightarrow> peer_id \<Rightarrow> mesh_config \<Rightarrow> u64 \<Rightarrow> bytes list \<Rightarrow> disk \<Rightarrow> mesh_node" where
  "new_publisher ev seed me cfg seg_bytes segments d =
     (let (eng, ids, d') = preload ev 0 segments (engine_new cfg seg_bytes, [], d)
      in with_engine seed me (eng\<lparr>en_head_seq := of_nat (length ids - 1)\<rparr>) False ids d')"

definition new_live_publisher :: "(u64 \<Rightarrow> nat) \<Rightarrow> peer_id \<Rightarrow> mesh_config \<Rightarrow> u64 \<Rightarrow> disk \<Rightarrow> mesh_node" where
  "new_live_publisher seed me cfg seg_bytes d = with_engine seed me (engine_new cfg seg_bytes) False [] d"

definition with_stream_id :: "stream_id \<Rightarrow> mesh_node \<Rightarrow> mesh_node" where
  "with_stream_id sid n = n\<lparr>n_stream_id := sid\<rparr>"

definition with_edge_signer :: "(bytes \<Rightarrow> bytes) \<Rightarrow> mesh_node \<Rightarrow> mesh_node" where
  "with_edge_signer signer n = n\<lparr>n_edge_signer := Some signer\<rparr>"

definition with_publisher_key :: "bytes \<Rightarrow> mesh_node \<Rightarrow> mesh_node" where
  "with_publisher_key k n = n\<lparr>n_publisher_key := Some k\<rparr>"

definition with_presence_book :: "presence_book \<Rightarrow> mesh_node \<Rightarrow> mesh_node" where
  "with_presence_book b n = n\<lparr>n_presence_book := Some b\<rparr>"

definition with_ban_list :: "ban_list \<Rightarrow> mesh_node \<Rightarrow> mesh_node" where
  "with_ban_list b n = n\<lparr>n_ban_list := Some b\<rparr>"

definition with_stats :: "mesh_node \<Rightarrow> mesh_node" where
  "with_stats n = n\<lparr>n_stats_tx := True\<rparr>"

definition with_fallback :: "mesh_node \<Rightarrow> mesh_node" where
  "with_fallback n = n\<lparr>n_fallback := True, n_eng := (n_eng n)\<lparr>en_bulletin_available := True\<rparr>\<rparr>"

subsection \<open>Operations shared by the handlers\<close>

abbreviation n_peers :: "mesh_node \<Rightarrow> (peer_id, peer_state) hash_map" where
  "n_peers n \<equiv> en_peers (n_eng n)"

abbreviation n_cfg :: "mesh_node \<Rightarrow> mesh_config" where
  "n_cfg n \<equiv> en_cfg (n_eng n)"

definition emit :: "effect \<Rightarrow> mesh_node \<Rightarrow> mesh_node" where
  "emit x n = n\<lparr>n_out := n_out n @ [x]\<rparr>"

definition emits :: "effect list \<Rightarrow> mesh_node \<Rightarrow> mesh_node" where
  "emits xs n = n\<lparr>n_out := n_out n @ xs\<rparr>"

definition send_msg :: "env \<Rightarrow> link \<Rightarrow> mesh_msg \<Rightarrow> mesh_node \<Rightarrow> mesh_node" where
  "send_msg ev l m n = emit (Send l Ctrl (enc_msg (ev_libs ev) m)) n"

definition broadcast :: "env \<Rightarrow> mesh_msg \<Rightarrow> mesh_node \<Rightarrow> mesh_node" where
  "broadcast ev m n = emits (map (\<lambda>(_, l). Send l Ctrl (enc_msg (ev_libs ev) m)) (n_links n)) n"

definition broadcast_except :: "env \<Rightarrow> peer_id option \<Rightarrow> mesh_msg \<Rightarrow> mesh_node \<Rightarrow> mesh_node" where
  "broadcast_except ev x m n =
     emits (map (\<lambda>(_, l). Send l Ctrl (enc_msg (ev_libs ev) m)) (filter (\<lambda>(p, _). Some p \<noteq> x) (n_links n))) n"

definition upd_peer :: "peer_id \<Rightarrow> (peer_state \<Rightarrow> peer_state) \<Rightarrow> mesh_node \<Rightarrow> mesh_node" where
  "upd_peer p f n = n\<lparr>n_eng := (n_eng n)\<lparr>en_peers := hm_modify p f (n_peers n)\<rparr>\<rparr>"

text \<open>\<open>peers.entry(peer).or_insert_with(|| PeerState::new(peer))\<close>\<close>

definition ensure_peer :: "peer_id \<Rightarrow> mesh_node \<Rightarrow> mesh_node" where
  "ensure_peer p n =
     (if hm_has (n_peers n) p then n
      else n\<lparr>n_eng := (n_eng n)\<lparr>en_peers := hm_put p (peer_state_new p) (n_peers n)\<rparr>\<rparr>)"

definition send_segment :: "env \<Rightarrow> link \<Rightarrow> u64 \<Rightarrow> bytes \<Rightarrow> mesh_node \<Rightarrow> mesh_node" where
  "send_segment ev l seq bs n =
     emits (map (Send l Bulk) (send_segment_on (ev_libs ev) seq bs))
       (n\<lparr>n_stats := (n_stats n)\<lparr>ns_sent_bytes := ns_sent_bytes (n_stats n) + of_nat (length bs)\<rparr>\<rparr>)"

definition pop_serve :: "peer_id \<Rightarrow> mesh_node \<Rightarrow> mesh_node" where
  "pop_serve p n = upd_peer p (\<lambda>s. s\<lparr>ps_serve_queue := tl (ps_serve_queue s)\<rparr>) n"

definition release_bytes :: "u64 \<Rightarrow> peer_state \<Rightarrow> peer_state" where
  "release_bytes k s = s\<lparr>ps_pending_bytes := sat_sub (ps_pending_bytes s) k\<rparr>"

definition clear_pending :: "u64 \<Rightarrow> mesh_node \<Rightarrow> mesh_node \<times> (peer_id \<times> u64) option" where
  "clear_pending seq n =
     (let entry = hm_get (n_pending n) seq;
          n1 = n\<lparr>n_pending := hm_remove seq (n_pending n)\<rparr>;
          n2 = (case entry of
                  Some (asked, _) \<Rightarrow> upd_peer asked (release_bytes (en_seg_bytes (n_eng n))) n1
                | None \<Rightarrow> n1);
          n3 = (case hm_get (n_hedge n2) seq of
                  Some (hedged, _) \<Rightarrow>
                    upd_peer hedged (release_bytes (en_seg_bytes (n_eng n)))
                      (n2\<lparr>n_hedge := hm_remove seq (n_hedge n2)\<rparr>)
                | None \<Rightarrow> n2)
      in (n3, entry))"

definition remove_reasm :: "peer_id \<times> u64 \<Rightarrow> mesh_node \<Rightarrow> mesh_node" where
  "remove_reasm key n =
     (case hm_get (n_reasm n) key of
        Some e \<Rightarrow> n\<lparr>n_reasm := hm_remove key (n_reasm n),
                    n_reasm_bytes := sat_sub (n_reasm_bytes n) (rs_buffered_bytes (re_r e))\<rparr>
      | None \<Rightarrow> n)"

definition remove_reasm_of :: "peer_id \<Rightarrow> mesh_node \<Rightarrow> mesh_node" where
  "remove_reasm_of peer n = fold remove_reasm (filter (\<lambda>(p, _). p = peer) (map fst (n_reasm n))) n"

definition decay :: "penalty \<Rightarrow> peer_state \<Rightarrow> peer_state" where
  "decay why p =
     (let p = p\<lparr>ps_reputation := ps_reputation p * penalty_factor why\<rparr>
      in if why = Timeout
         then p\<lparr>ps_strikes := ps_strikes p + 1, ps_reputation := max (ps_reputation p) TIMEOUT_REP_FLOOR\<rparr>
         else p)"

definition penalize :: "env \<Rightarrow> peer_id \<Rightarrow> penalty \<Rightarrow> mesh_node \<Rightarrow> mesh_node" where
  "penalize ev peer why n =
     (case hm_get (n_peers n) peer of
        None \<Rightarrow> n
      | Some p \<Rightarrow>
          (let crossed = (ps_reputation (decay why p) < REPUTATION_FLOOR \<and> \<not> ps_banned p);
               n1 = upd_peer peer (\<lambda>p. let p = decay why p in if crossed then p\<lparr>ps_banned := True\<rparr> else p) n
           in if \<not> crossed then n1
              else let n2 = remove_reasm_of peer (n1\<lparr>n_subscribers := hs_remove peer (n_subscribers n1)\<rparr>);
                       n3 = n2\<lparr>n_ban_list := map_option (bl_ban (ev_now ev) peer) (n_ban_list n2)\<rparr>
                   in (case hm_get (n_links n3) peer of
                         Some l \<Rightarrow> emit (CloseLink l) (send_msg ev l Choke n3)
                       | None \<Rightarrow> n3)))"

definition push_to_subscribers :: "env \<Rightarrow> u64 \<Rightarrow> mesh_node \<Rightarrow> mesh_node" where
  "push_to_subscribers ev seq n =
     (if n_subscribers n = [] then n
      else case st_get seq (en_store (n_eng n)) (n_disk n) of
             None \<Rightarrow> n
           | Some bs \<Rightarrow>
               (let cost = of_nat (length bs);
                    metered = 0 < cfg_upload_budget_bps (n_cfg n);
                    targets = filter (\<lambda>s. case hm_get (n_peers n) s of
                                            Some p \<Rightarrow> \<not> ps_choked p \<and> \<not> bm_has (ps_buffer p) seq
                                          | None \<Rightarrow> True) (n_subscribers n);
                    serve = (\<lambda>s n. case hm_get (n_links n) s of
                                     Some l \<Rightarrow> send_segment ev l seq bs n | None \<Rightarrow> n)
                in fst (fold (\<lambda>s (n, stopped).
                     if stopped then (n, True)
                     else if metered then
                       (if n_upload_tokens n < cost then (n, True)
                        else (serve s (n\<lparr>n_upload_tokens := n_upload_tokens n - cost\<rparr>), False))
                     else (serve s n, False)) targets (n, False))))"

definition store_insert :: "env \<Rightarrow> u64 \<Rightarrow> segment_id \<Rightarrow> bytes \<Rightarrow> mesh_node \<Rightarrow> mesh_node" where
  "store_insert ev seq i b n =
     (let (st, d) = st_insert (ev_fault ev) seq i b (en_store (n_eng n)) (n_disk n)
      in n\<lparr>n_eng := (n_eng n)\<lparr>en_store := st\<rparr>, n_disk := d\<rparr>)"

text \<open>Storing a segment and counting it, the common prefix of production and delivery.\<close>

definition obtain_segment :: "env \<Rightarrow> u64 \<Rightarrow> segment_id \<Rightarrow> bytes \<Rightarrow> mesh_node \<Rightarrow> mesh_node" where
  "obtain_segment ev seq i b n =
     (let n1 = store_insert ev seq i b n;
          n2 = (if \<not> bm_has (en_local (n_eng n1)) seq then n1\<lparr>n_delivered_total := n_delivered_total n1 + 1\<rparr> else n1)
      in n2\<lparr>n_eng := en_mark_have seq (n_eng n2)\<rparr>)"

definition sink_push :: "u64 \<Rightarrow> bytes \<Rightarrow> mesh_node \<Rightarrow> mesh_node" where
  "sink_push seq b n = (if n_discard_sink n then n else emit (PushSegment seq b) n)"

definition deliver_verified :: "env \<Rightarrow> u64 \<Rightarrow> segment_id \<Rightarrow> bytes \<Rightarrow> mesh_node \<Rightarrow> mesh_node" where
  "deliver_verified ev seq i b n =
     push_to_subscribers ev seq (sink_push seq b (obtain_segment ev seq i b n))"

definition accept_segment :: "env \<Rightarrow> peer_id \<Rightarrow> u64 \<Rightarrow> segment_id \<Rightarrow> bytes \<Rightarrow> mesh_node \<Rightarrow> mesh_node" where
  "accept_segment ev peer seq i b n =
     (let k = length b;
          n1 = n\<lparr>n_stats := (n_stats n)\<lparr>ns_peer_bytes := ns_peer_bytes (n_stats n) + of_nat k\<rparr>\<rparr>;
          (n2, asked) = clear_pending seq n1;
          n3 = (case asked of
                  Some (asked_peer, sent_ms) \<Rightarrow>
                    if asked_peer = peer then
                      (let elapsed = max (sat_sub (n_now_ms n2) sent_ms) 1
                       in upd_peer peer (\<lambda>p. p\<lparr>ps_throughput_bps :=
                            ewma_update (of_nat k * 8000 / of_nat (unat elapsed)) (ps_throughput_bps p)\<rparr>) n2)
                    else n2
                | None \<Rightarrow> n2);
          n4 = upd_peer peer (\<lambda>p. if \<not> ps_banned p
                 then p\<lparr>ps_reputation := min (ps_reputation p + REPUTATION_HEAL) 1\<rparr> else p) n3
      in deliver_verified ev seq i b n4)"

definition buffer_pending_verify :: "peer_id \<Rightarrow> u64 \<Rightarrow> bytes \<Rightarrow> mesh_node \<Rightarrow> mesh_node" where
  "buffer_pending_verify peer seq raw n =
     (let len = of_nat (length raw) :: u64
      in if hm_has (n_pending_verify n) seq \<or> MAX_PENDING_VERIFY_BYTES < n_pending_verify_bytes n + len then n
         else n\<lparr>n_pending_verify_bytes := n_pending_verify_bytes n + len,
                n_pending_verify := hm_put seq (peer, raw) (n_pending_verify n)\<rparr>)"

definition try_verify_pending :: "env \<Rightarrow> u64 \<Rightarrow> mesh_node \<Rightarrow> mesh_node" where
  "try_verify_pending ev seq n =
     (case hm_get (n_pending_verify n) seq of
        None \<Rightarrow> n
      | Some (peer, raw) \<Rightarrow>
          (let n1 = n\<lparr>n_pending_verify := hm_remove seq (n_pending_verify n),
                      n_pending_verify_bytes := sat_sub (n_pending_verify_bytes n) (of_nat (length raw))\<rparr>
           in if bm_has (en_local (n_eng n1)) seq then n1
              else case hm_get (n_segment_ids n1) seq of
                     None \<Rightarrow> n1
                   | Some i \<Rightarrow>
                       if verify_segment (ev_libs ev) raw i then accept_segment ev peer seq i raw n1
                       else penalize ev peer HashFail
                              (n1\<lparr>n_stats := (n_stats n1)\<lparr>ns_hash_failures := ns_hash_failures (n_stats n1) + 1\<rparr>\<rparr>)))"

definition gossip_edge :: "env \<Rightarrow> u64 \<Rightarrow> segment_id \<Rightarrow> bytes \<Rightarrow> peer_id option \<Rightarrow> mesh_node \<Rightarrow> mesh_node" where
  "gossip_edge ev seq i sg exclude n = broadcast_except ev exclude (EdgeAnnounce seq i sg) n"

definition apply_edge :: "env \<Rightarrow> u64 \<Rightarrow> segment_id \<Rightarrow> mesh_node \<Rightarrow> mesh_node" where
  "apply_edge ev seq i n =
     try_verify_pending ev seq
       (n\<lparr>n_segment_ids := hm_put seq i (n_segment_ids n),
          n_eng := (n_eng n)\<lparr>en_head_seq := max (en_head_seq (n_eng n)) seq\<rparr>\<rparr>)"

definition send_hello :: "env \<Rightarrow> link \<Rightarrow> mesh_node \<Rightarrow> mesh_node" where
  "send_hello ev l n =
     send_msg ev l (Hello (n_me n) zeros32 1
       \<lparr>upload_bps = cfg_upload_budget_bps (n_cfg n), relay_cap = False\<rparr>
       (bm_base (en_local (n_eng n))) (bm_to_bytes (en_local (n_eng n)))) n"

end
