(* ===== verification/Node_Events.thy ===== *)
theory Node_Events
  imports Node_State
begin

section \<open>The mesh node: events and messages\<close>

text \<open>
  Models \<open>on_event\<close>, \<open>on_inbound\<close>, \<open>on_segment_data\<close> and the durable-floor callbacks of
  \<open>src/crates/unstation-core/src/node.rs\<close>, with the event type of \<open>transport.rs\<close>. Each
  early \<open>return\<close> of the source is a branch that leaves the state as it is at that point;
  malformed input decodes to \<open>None\<close> and is dropped.
\<close>

datatype engine_event =
  PeerConnected peer_id link
| Inbound peer_id channel bytes
| PeerDisconnected peer_id
| Produced u64 segment_id bytes
| InitSegment bytes
| LiveEdge u64 segment_id
| SetPublisherKey bytes
| SetRole role
| SetUploadBudget u64
| SetSegMs u64
| Tick
| Stop

subsection \<open>Segment data\<close>

definition asked_this_peer :: "peer_id \<Rightarrow> u64 \<Rightarrow> mesh_node \<Rightarrow> bool" where
  "asked_this_peer peer seq n \<longleftrightarrow>
     (case hm_get (n_pending n) seq of Some (p, _) \<Rightarrow> p = peer | None \<Rightarrow> False)
     \<or> (case hm_get (n_hedge n) seq of Some (p, _) \<Rightarrow> p = peer | None \<Rightarrow> False)"

definition in_push_window :: "u64 \<Rightarrow> mesh_node \<Rightarrow> bool" where
  "in_push_window seq n \<longleftrightarrow>
     en_play_seq (n_eng n) \<le> seq \<and> seq \<le> sat_add (en_head_seq (n_eng n)) PUSH_AHEAD"

text \<open>What happens to a segment whose last chunk just arrived.\<close>

definition finish_segment :: "env \<Rightarrow> peer_id \<Rightarrow> u64 \<Rightarrow> reassembler \<Rightarrow> mesh_node \<Rightarrow> mesh_node" where
  "finish_segment ev peer seq r n =
     (case hm_get (n_segment_ids n) seq of
        Some i \<Rightarrow>
          (case rs_finish_verified (ev_libs ev) i r of
             Some data \<Rightarrow> accept_segment ev peer seq i data n
           | None \<Rightarrow>
               penalize ev peer HashFail
                 (fst (clear_pending seq
                   (n\<lparr>n_stats := (n_stats n)\<lparr>ns_hash_failures := ns_hash_failures (n_stats n) + 1\<rparr>\<rparr>))))
      | None \<Rightarrow>
          (let n1 = fst (clear_pending seq n)
           in case rs_assemble r of
                Some raw \<Rightarrow> buffer_pending_verify peer seq raw n1
              | None \<Rightarrow> n1))"

definition on_segment_data :: "env \<Rightarrow> peer_id \<Rightarrow> u64 \<Rightarrow> u32 \<Rightarrow> u32 \<Rightarrow> bytes \<Rightarrow> mesh_node \<Rightarrow> mesh_node" where
  "on_segment_data ev peer seq tlen off bs n =
     (if bm_has (en_local (n_eng n)) seq then n
      else if tlen = 0 \<or> MAX_SEGMENT_BYTES < tlen then n
      else if \<not> asked_this_peer peer seq n \<and> \<not> in_push_window seq n then
        (if sat_add (en_head_seq (n_eng n)) (PUSH_AHEAD * 4) < seq
            \<or> sat_add seq (ucast (cfg_window (n_cfg n))) < en_play_seq (n_eng n)
         then penalize ev peer ProtocolAbuse n else n)
      else if \<not> hm_has (n_reasm n) (peer, seq)
              \<and> (MAX_REASM \<le> length (n_reasm n)
                 \<or> MAX_REASM_BYTES < sat_add (n_reasm_bytes n) (ucast tlen)) then n
      else
        (let e = (case hm_get (n_reasm n) (peer, seq) of
                    Some e \<Rightarrow> e
                  | None \<Rightarrow> \<lparr>re_r = rs_new tlen, re_created_ms = n_now_ms n\<rparr>);
             (r, added) = rs_add off bs (re_r e);
             n1 = n\<lparr>n_reasm := hm_put (peer, seq) (e\<lparr>re_r := r\<rparr>) (n_reasm n),
                    n_reasm_bytes := n_reasm_bytes n + of_nat added\<rparr>
         in if \<not> rs_is_complete r then n1
            else finish_segment ev peer seq r
                   (n1\<lparr>n_reasm := hm_remove (peer, seq) (n_reasm n1),
                       n_reasm_bytes := sat_sub (n_reasm_bytes n1) (rs_buffered_bytes r)\<rparr>)))"

subsection \<open>Inbound messages\<close>

definition enqueue_wants :: "u64 list \<Rightarrow> peer_state \<Rightarrow> peer_state" where
  "enqueue_wants seqs p =
     fst (fold (\<lambda>seq (p, stopped).
       if stopped \<or> SERVE_QUEUE_MAX \<le> length (ps_serve_queue p) then (p, True)
       else (if seq \<notin> set (ps_serve_queue p) then p\<lparr>ps_serve_queue := ps_serve_queue p @ [seq]\<rparr> else p, False))
       seqs (p, False))"

definition learn_peer :: "peer_id \<Rightarrow> mesh_node \<Rightarrow> mesh_node" where
  "learn_peer pid n =
     (if pid \<noteq> n_me n \<and> length (n_known_peers n) < KNOWN_PEERS_MAX
      then n\<lparr>n_known_peers := hs_insert pid (n_known_peers n)\<rparr> else n)"

definition on_buffer_map :: "env \<Rightarrow> peer_id \<Rightarrow> u64 \<Rightarrow> bytes \<Rightarrow> mesh_node \<Rightarrow> mesh_node" where
  "on_buffer_map ev peer base bits n =
     (if MAX_BITFIELD_BYTES < length bits then penalize ev peer ProtocolAbuse n
      else upd_peer peer (\<lambda>p. p\<lparr>ps_buffer := bm_from_bytes base bits\<rparr>) (ensure_peer peer n))"

definition on_want :: "env \<Rightarrow> peer_id \<Rightarrow> u64 list \<Rightarrow> mesh_node \<Rightarrow> mesh_node" where
  "on_want ev peer seqs n =
     (if MAX_WANT_SEQS < length seqs then penalize ev peer ProtocolAbuse n
      else if (case hm_get (n_peers n) peer of Some p \<Rightarrow> ps_choked p | None \<Rightarrow> False) then n
      else upd_peer peer (enqueue_wants seqs) n)"

definition on_init_data :: "env \<Rightarrow> peer_id \<Rightarrow> bytes \<Rightarrow> mesh_node \<Rightarrow> mesh_node" where
  "on_init_data ev peer b n =
     (if n_init n = None \<and> b \<noteq> [] then
        (let n1 = n\<lparr>n_init := Some b\<rparr>;
             n2 = (if n_discard_sink n1 then n1 else emit (PushInit b) n1)
         in broadcast_except ev (Some peer) (InitData b) n2)
      else n)"

definition on_edge_announce :: "env \<Rightarrow> peer_id \<Rightarrow> u64 \<Rightarrow> segment_id \<Rightarrow> bytes \<Rightarrow> mesh_node \<Rightarrow> mesh_node" where
  "on_edge_announce ev peer seq i sg n =
     (case n_publisher_key n of
        None \<Rightarrow> n
      | Some pubkey \<Rightarrow>
          if \<not> verify_sr25519 (ev_libs ev) pubkey (edge_payload (ev_libs ev) (n_stream_id n) seq i) sg then n
          else if seq \<in> set (n_edge_seen n) then n
          else gossip_edge ev seq i sg (Some peer)
                 (apply_edge ev seq i (n\<lparr>n_edge_seen := hs_insert seq (n_edge_seen n)\<rparr>)))"

definition on_msg :: "env \<Rightarrow> peer_id \<Rightarrow> mesh_msg \<Rightarrow> mesh_node \<Rightarrow> mesh_node" where
  "on_msg ev peer m n = (case m of
     Hello _ _ _ _ base bits \<Rightarrow> on_buffer_map ev peer base bits n
   | BufferMap base bits \<Rightarrow> on_buffer_map ev peer base bits n
   | Want seqs _ \<Rightarrow> on_want ev peer seqs n
   | SegmentData seq _ tlen off bs \<Rightarrow> on_segment_data ev peer seq tlen off bs n
   | Have seq \<Rightarrow> upd_peer peer (\<lambda>p. p\<lparr>ps_buffer := bm_set seq (ps_buffer p)\<rparr>) n
   | WantInit \<Rightarrow> (case (n_init n, hm_get (n_links n) peer) of
                    (Some b, Some l) \<Rightarrow> send_msg ev l (InitData b) n | _ \<Rightarrow> n)
   | InitData b \<Rightarrow> on_init_data ev peer b n
   | Ping nonce t \<Rightarrow> (case hm_get (n_links n) peer of
                        Some l \<Rightarrow> send_msg ev l (Pong nonce t) n | None \<Rightarrow> n)
   | PeerGossip ps \<Rightarrow> (if MAX_GOSSIP_PEERS < length ps then penalize ev peer ProtocolAbuse n
                         else fold learn_peer ps n)
   | PresenceGossip rs \<Rightarrow>
       (if MAX_GOSSIP_RECORDS < length rs then penalize ev peer ProtocolAbuse n
        else (fold learn_peer (map pr_peer_id rs) n)\<lparr>n_presence_book :=
               map_option (pb_merge (ev_now ev) rs (n_me n)) (n_presence_book n)\<rparr>)
   | Pong _ t \<Rightarrow> upd_peer peer (\<lambda>p. p\<lparr>ps_rtt_ms :=
         ewma_update (max (of_nat (unat (sat_sub (n_now_ms n) t))) 1) (ps_rtt_ms p)\<rparr>) n
   | Choke \<Rightarrow> upd_peer peer (\<lambda>p. p\<lparr>ps_choked_by := True\<rparr>) n
   | Unchoke \<Rightarrow> upd_peer peer (\<lambda>p. p\<lparr>ps_choked_by := False\<rparr>) n
   | Subscribe \<Rightarrow> n\<lparr>n_subscribers := hs_insert peer (n_subscribers n)\<rparr>
   | Unsubscribe \<Rightarrow> n\<lparr>n_subscribers := hs_remove peer (n_subscribers n)\<rparr>
   | EdgeAnnounce seq i sg \<Rightarrow> on_edge_announce ev peer seq i sg n
   | Cancel _ \<Rightarrow> n)"

definition on_inbound :: "env \<Rightarrow> peer_id \<Rightarrow> bytes \<Rightarrow> mesh_node \<Rightarrow> mesh_node" where
  "on_inbound ev peer bs n =
     (if (case hm_get (n_peers n) peer of Some p \<Rightarrow> ps_banned p | None \<Rightarrow> False) then n
      else case dec_msg (ev_libs ev) bs of
             None \<Rightarrow> n
           | Some m \<Rightarrow> on_msg ev peer m n)"

subsection \<open>Connections\<close>

definition on_connected :: "env \<Rightarrow> peer_id \<Rightarrow> link \<Rightarrow> mesh_node \<Rightarrow> mesh_node" where
  "on_connected ev peer l n =
     (if (case n_ban_list n of Some b \<Rightarrow> bl_contains (ev_now ev) peer b | None \<Rightarrow> False)
      then emit (CloseLink l) n
      else
        (let n1 = ensure_peer peer n;
             n2 = send_hello ev l (n1\<lparr>n_links := hm_put peer l (n_links n1)\<rparr>);
             n3 = (if cfg_role (n_cfg n2) \<noteq> Publisher then send_msg ev l Subscribe n2 else n2)
         in (case n_init n3 of
               Some b \<Rightarrow> send_msg ev l (InitData b) n3
             | None \<Rightarrow> send_msg ev l WantInit n3)))"

text \<open>A hedge outlives its dead primary: it is promoted.\<close>

definition promote_hedge :: "u64 \<Rightarrow> mesh_node \<Rightarrow> mesh_node" where
  "promote_hedge seq n =
     (let n1 = n\<lparr>n_pending := hm_remove seq (n_pending n)\<rparr>
      in case hm_get (n_hedge n1) seq of
           Some h \<Rightarrow> n1\<lparr>n_hedge := hm_remove seq (n_hedge n1), n_pending := hm_put seq h (n_pending n1)\<rparr>
         | None \<Rightarrow> n1)"

definition on_disconnected :: "peer_id \<Rightarrow> mesh_node \<Rightarrow> mesh_node" where
  "on_disconnected peer n =
     (let n1 = n\<lparr>n_links := hm_remove peer (n_links n),
                 n_eng := (n_eng n)\<lparr>en_peers := hm_remove peer (n_peers n)\<rparr>,
                 n_subscribers := hs_remove peer (n_subscribers n)\<rparr>;
          dropped = map fst (filter (\<lambda>(_, (p, _)). p = peer) (n_pending n1));
          n2 = fold promote_hedge dropped n1;
          n3 = n2\<lparr>n_hedge := hm_retain (\<lambda>_ (p, _). p \<noteq> peer) (n_hedge n2)\<rparr>
      in remove_reasm_of peer n3)"

subsection \<open>Production and local events\<close>

definition announce_produced :: "env \<Rightarrow> u64 \<Rightarrow> segment_id \<Rightarrow> mesh_node \<Rightarrow> mesh_node" where
  "announce_produced ev seq i n =
     (case n_edge_signer n of
        None \<Rightarrow> n
      | Some signer \<Rightarrow>
          if seq \<in> set (n_edge_seen n) then n
          else (let sg = signer (edge_payload (ev_libs ev) (n_stream_id n) seq i);
                    n1 = gossip_edge ev seq i sg None (n\<lparr>n_edge_seen := hs_insert seq (n_edge_seen n)\<rparr>);
                    edges = n_recent_edges n1 @ [(seq, i, sg)]
                in n1\<lparr>n_recent_edges := drop (length edges - unat (cfg_window (n_cfg n1))) edges\<rparr>))"

definition on_produced :: "env \<Rightarrow> u64 \<Rightarrow> segment_id \<Rightarrow> bytes \<Rightarrow> mesh_node \<Rightarrow> mesh_node" where
  "on_produced ev seq i b n =
     (let n1 = obtain_segment ev seq i b n;
          n2 = n1\<lparr>n_segment_ids := hm_put seq i (n_segment_ids n1),
                  n_eng := (n_eng n1)\<lparr>en_head_seq := max (en_head_seq (n_eng n1)) seq\<rparr>\<rparr>
      in push_to_subscribers ev seq (announce_produced ev seq i n2))"

definition on_init_segment :: "env \<Rightarrow> bytes \<Rightarrow> mesh_node \<Rightarrow> mesh_node" where
  "on_init_segment ev b n =
     (let n1 = n\<lparr>n_init := Some b\<rparr>
      in if n_init n = None then broadcast ev (InitData b) n1 else n1)"

definition set_upload_budget :: "u64 \<Rightarrow> mesh_node \<Rightarrow> mesh_node" where
  "set_upload_budget bps n =
     (let n1 = n\<lparr>n_eng := (n_eng n)\<lparr>en_cfg := (n_cfg n)\<lparr>cfg_upload_budget_bps := bps\<rparr>\<rparr>\<rparr>
      in if 0 < bps then n1\<lparr>n_upload_tokens := min (n_upload_tokens n1) (burst_of bps (en_seg_bytes (n_eng n1)))\<rparr>
         else n1)"

definition set_cfg :: "(mesh_config \<Rightarrow> mesh_config) \<Rightarrow> mesh_node \<Rightarrow> mesh_node" where
  "set_cfg f n = n\<lparr>n_eng := (n_eng n)\<lparr>en_cfg := f (n_cfg n)\<rparr>\<rparr>"

subsection \<open>The durable floor\<close>

definition request_fallback :: "u64 \<Rightarrow> mesh_node \<Rightarrow> mesh_node" where
  "request_fallback seq n =
     (if \<not> n_fallback n then n
      else if seq \<in> set (n_fallback_inflight n) \<or> MAX_FALLBACK_INFLIGHT \<le> length (n_fallback_inflight n) then n
      else case hm_get (n_segment_ids n) seq of
             None \<Rightarrow> n
           | Some i \<Rightarrow> emit (SpawnFetch seq i) (n\<lparr>n_fallback_inflight := hs_insert seq (n_fallback_inflight n)\<rparr>))"

definition on_fallback :: "env \<Rightarrow> u64 \<Rightarrow> segment_id \<Rightarrow> bytes option \<Rightarrow> mesh_node \<Rightarrow> mesh_node" where
  "on_fallback ev seq i bs n =
     (let n1 = n\<lparr>n_fallback_inflight := hs_remove seq (n_fallback_inflight n)\<rparr>
      in case bs of
           None \<Rightarrow> n1
         | Some b \<Rightarrow>
             if bm_has (en_local (n_eng n1)) seq then n1
             else if \<not> verify_segment (ev_libs ev) b i then n1
             else (let n2 = fst (clear_pending seq n1)
                   in deliver_verified ev seq i b
                        (n2\<lparr>n_stats := (n_stats n2)\<lparr>ns_from_origin := ns_from_origin (n_stats n2) + 1\<rparr>\<rparr>)))"

end
