(* ===== verification/Node_Tick.thy ===== *)
theory Node_Tick
  imports Node_Events
begin

section \<open>The mesh node: the scheduler tick\<close>

text \<open>
  Models \<open>recompute_unchokes\<close>, \<open>on_tick\<close> and \<open>on_event\<close> of
  \<open>src/crates/unstation-core/src/node.rs\<close>. The tick is one long function in the source;
  each of its blocks is a definition here and \<open>on_tick\<close> runs them in the order of the
  source. The paced serving loop is a recursion that shortens the peer's queue.
\<close>

subsection \<open>Choking\<close>

definition recompute_unchokes :: "env \<Rightarrow> mesh_node \<Rightarrow> mesh_node" where
  "recompute_unchokes ev n =
     (let n1 = n\<lparr>n_last_choke_ms := n_now_ms n\<rparr>
      in if cfg_role (n_cfg n1) \<noteq> Viewer then n1
         else
           (let n2 = n1\<lparr>n_optimistic_rr := n_optimistic_rr n1 + 1\<rparr>;
                stats = map (\<lambda>(i, p). (i, ewma_or (ps_throughput_bps p) 0, ewma_or (ps_rtt_ms p) f64_MAX)) (n_peers n2);
                unchoked = select_unchokes stats Viewer UPLOAD_SLOTS (n_optimistic_rr n2);
                to_unchoke = map fst (filter (\<lambda>(i, p). i \<in> set unchoked \<and> ps_choked p) (n_peers n2));
                to_choke = map fst (filter (\<lambda>(i, p). i \<notin> set unchoked \<and> \<not> ps_choked p) (n_peers n2));
                n3 = n2\<lparr>n_eng := (n_eng n2)\<lparr>en_peers :=
                       map (\<lambda>(i, p). (i, p\<lparr>ps_choked := (i \<notin> set unchoked)\<rparr>)) (n_peers n2)\<rparr>\<rparr>;
                tell = (\<lambda>m i n. case hm_get (n_links n) i of Some l \<Rightarrow> send_msg ev l m n | None \<Rightarrow> n)
            in fold (tell Choke) to_choke (fold (tell Unchoke) to_unchoke n3)))"

subsection \<open>Following playback\<close>

definition set_play :: "u64 \<Rightarrow> mesh_node \<Rightarrow> mesh_node" where
  "set_play s n = n\<lparr>n_eng := (n_eng n)\<lparr>en_play_seq := s\<rparr>\<rparr>"

definition sink_play_head :: "env \<Rightarrow> mesh_node \<Rightarrow> u64" where
  "sink_play_head ev n = (if n_discard_sink n then 0 else ev_play_head ev)"

definition tick_follow :: "env \<Rightarrow> mesh_node \<Rightarrow> mesh_node" where
  "tick_follow ev n =
     (let n1 = (if en_play_seq (n_eng n) < sink_play_head ev n then set_play (sink_play_head ev n) n else n);
          half = ucast (cfg_window (n_cfg n1)) div 2;
          n2 = (if cfg_role (n_cfg n1) = SeedRole \<and> cfg_mode (n_cfg n1) = Live then
                  (let follow = sat_sub (en_head_seq (n_eng n1)) half
                   in if en_play_seq (n_eng n1) < follow then set_play follow n1 else n1)
                else n1)
      in if cfg_role (n_cfg n2) = Viewer \<and> cfg_mode (n_cfg n2) = Live then
           (let edge = sat_sub (en_head_seq (n_eng n2)) half
            in if en_play_seq (n_eng n2) + ucast (cfg_window (n_cfg n2)) < edge then set_play edge n2 else n2)
         else n2)"

definition prune_floor :: "mesh_node \<Rightarrow> u64" where
  "prune_floor n =
     (let anchor = (case bm_highest (en_local (n_eng n)) of
                      None \<Rightarrow> en_play_seq (n_eng n)
                    | Some h \<Rightarrow> min (en_play_seq (n_eng n)) h)
      in sat_sub anchor (ucast (cfg_window (n_cfg n))))"

definition tick_prune :: "env \<Rightarrow> mesh_node \<Rightarrow> mesh_node" where
  "tick_prune ev n =
     (if cfg_mode (n_cfg n) = Live \<and> cfg_role (n_cfg n) \<noteq> Publisher then
        (let fl = prune_floor n
         in if n_last_prune_floor n < fl then
              (let (st, d) = st_prune_below (ev_fault ev) fl (en_store (n_eng n)) (n_disk n)
               in n\<lparr>n_last_prune_floor := fl,
                    n_eng := (n_eng n)\<lparr>en_store := st, en_local := bm_prune_below fl (en_local (n_eng n))\<rparr>,
                    n_disk := d,
                    n_segment_ids := hm_retain (\<lambda>s _. fl \<le> s) (n_segment_ids n)\<rparr>)
            else n)
      else n)"

subsection \<open>Upload budget and paced serving\<close>

definition tick_tokens :: "mesh_node \<Rightarrow> mesh_node" where
  "tick_tokens n =
     (if 0 < cfg_upload_budget_bps (n_cfg n) then
        (let dt = sat_sub (n_now_ms n) (n_last_token_ms n);
             refill = of_nat (unat (cfg_upload_budget_bps (n_cfg n))) / 8 * (of_nat (unat dt) / 1000);
             burst = burst_of (cfg_upload_budget_bps (n_cfg n)) (en_seg_bytes (n_eng n))
         in n\<lparr>n_last_token_ms := n_now_ms n, n_upload_tokens := min (n_upload_tokens n + refill) burst\<rparr>)
      else n)"

text \<open>Charge the bucket; \<open>None\<close> is the \<open>break\<close> on an empty bucket.\<close>

definition charge :: "real \<Rightarrow> mesh_node \<Rightarrow> mesh_node option" where
  "charge cost n =
     (if 0 < cfg_upload_budget_bps (n_cfg n) then
        (if n_upload_tokens n < cost then None else Some (n\<lparr>n_upload_tokens := n_upload_tokens n - cost\<rparr>))
      else Some n)"

text \<open>One pass of the inner loop: the bytes it accounts for and the new state, or \<open>None\<close> for \<open>break\<close>.\<close>

definition serve_one :: "env \<Rightarrow> peer_id \<Rightarrow> u64 \<Rightarrow> mesh_node \<Rightarrow> (nat \<times> mesh_node) option" where
  "serve_one ev pid seq n =
     (case st_location seq (en_store (n_eng n)) of
        Memory \<Rightarrow>
          (case st_get_mem seq (en_store (n_eng n)) of
             None \<Rightarrow> Some (0, pop_serve pid n)
           | Some b \<Rightarrow> do {
               n1 \<leftarrow> charge (of_nat (length b)) n;
               let n2 = pop_serve pid n1;
               Some (length b, case hm_get (n_links n2) pid of
                                 Some l \<Rightarrow> send_segment ev l seq b n2 | None \<Rightarrow> n2) })
      | Disk i p \<Rightarrow> do {
          n1 \<leftarrow> charge (of_nat (unat (en_seg_bytes (n_eng n)))) n;
          let n2 = pop_serve pid n1;
          Some (unat (en_seg_bytes (n_eng n)), case hm_get (n_links n2) pid of
                 Some l \<Rightarrow> emit (SpawnDiskServe l seq i p) n2 | None \<Rightarrow> n2) }
      | Absent \<Rightarrow> Some (0, pop_serve pid n))"

definition serve_front :: "peer_id \<Rightarrow> mesh_node \<Rightarrow> u64 option" where
  "serve_front pid n =
     (case hm_get (n_peers n) pid of
        Some p \<Rightarrow> (case ps_serve_queue p of [] \<Rightarrow> None | s # _ \<Rightarrow> Some s)
      | None \<Rightarrow> None)"

definition queue_len :: "peer_id \<Rightarrow> mesh_node \<Rightarrow> nat" where
  "queue_len pid n = (case hm_get (n_peers n) pid of Some p \<Rightarrow> length (ps_serve_queue p) | None \<Rightarrow> 0)"

lemma serve_one_peers:
  "serve_one ev pid seq n = Some (k, n') \<Longrightarrow> n_peers n' = n_peers (pop_serve pid n)"
  by (auto simp: serve_one_def charge_def send_segment_def emits_def emit_def pop_serve_def upd_peer_def Let_def
      split: segment_location.splits option.splits if_splits bind_splits)

lemma queue_len_pop:
  "serve_front pid n = Some s \<Longrightarrow> n_peers n' = n_peers (pop_serve pid n) \<Longrightarrow> queue_len pid n' < queue_len pid n"
  by (auto simp: serve_front_def queue_len_def pop_serve_def upd_peer_def split: option.splits list.splits)

function serve_loop :: "env \<Rightarrow> peer_id \<Rightarrow> nat \<Rightarrow> mesh_node \<Rightarrow> mesh_node" where
  "serve_loop ev pid served n =
     (if served < SERVE_BYTES_PER_TICK then
        (case serve_front pid n of
           None \<Rightarrow> n
         | Some seq \<Rightarrow> (case serve_one ev pid seq n of
                          None \<Rightarrow> n
                        | Some (k, n') \<Rightarrow> serve_loop ev pid (served + k) n'))
      else n)"
  by pat_completeness auto
termination
  by (relation "measure (\<lambda>(_, pid, _, n). queue_len pid n)")
     (auto intro: queue_len_pop serve_one_peers)

declare serve_loop.simps [simp del]

definition tick_serve :: "env \<Rightarrow> mesh_node \<Rightarrow> mesh_node" where
  "tick_serve ev n =
     fold (\<lambda>pid n.
       if (case hm_get (n_peers n) pid of Some p \<Rightarrow> ps_choked p | None \<Rightarrow> True) then n
       else serve_loop ev pid 0 n) (map fst (n_peers n)) n"

text \<open>The blocking task of a disk serve: read, verify against the content id, send.\<close>

definition disk_serve :: "libs \<Rightarrow> disk \<Rightarrow> link \<Rightarrow> u64 \<Rightarrow> segment_id \<Rightarrow> path \<Rightarrow> effect list" where
  "disk_serve L d l seq i p =
     (case d p of
        None \<Rightarrow> []
      | Some data \<Rightarrow> if \<not> verify_segment L data i then [] else map (Send l Bulk) (send_segment_on L seq data))"

subsection \<open>Sweeps\<close>

definition expire_one :: "env \<Rightarrow> u64 \<Rightarrow> mesh_node \<Rightarrow> mesh_node" where
  "expire_one ev seq n =
     (case clear_pending seq n of
        (n1, Some (pid, _)) \<Rightarrow> penalize ev pid Timeout (remove_reasm (pid, seq) n1)
      | (n1, None) \<Rightarrow> n1)"

definition tick_expire :: "env \<Rightarrow> mesh_node \<Rightarrow> mesh_node" where
  "tick_expire ev n =
     fold (expire_one ev)
       (map fst (filter (\<lambda>(_, (_, sent)). PENDING_TIMEOUT_MS \<le> sat_sub (n_now_ms n) sent) (n_pending n))) n"

definition tick_reasm_ttl :: "mesh_node \<Rightarrow> mesh_node" where
  "tick_reasm_ttl n =
     fold remove_reasm
       (map fst (filter (\<lambda>(_, e). REASM_TTL_MS \<le> sat_sub (n_now_ms n) (re_created_ms e)) (n_reasm n))) n"

definition drop_pending_verify :: "u64 \<Rightarrow> mesh_node \<Rightarrow> mesh_node" where
  "drop_pending_verify seq n =
     (case hm_get (n_pending_verify n) seq of
        Some (_, raw) \<Rightarrow> n\<lparr>n_pending_verify := hm_remove seq (n_pending_verify n),
            n_pending_verify_bytes := sat_sub (n_pending_verify_bytes n) (of_nat (length raw))\<rparr>
      | None \<Rightarrow> n)"

definition tick_pending_verify :: "mesh_node \<Rightarrow> mesh_node" where
  "tick_pending_verify n =
     fold drop_pending_verify (filter (\<lambda>s. s < en_play_seq (n_eng n)) (map fst (n_pending_verify n))) n"

definition tick_edge_seen :: "mesh_node \<Rightarrow> mesh_node" where
  "tick_edge_seen n =
     (if EDGE_SEEN_KEEP < of_nat (length (n_edge_seen n)) then
        n\<lparr>n_edge_seen := filter (\<lambda>s. sat_sub (en_head_seq (n_eng n)) EDGE_SEEN_KEEP \<le> s) (n_edge_seen n)\<rparr>
      else n)"

subsection \<open>Periodic messages\<close>

definition tick_reannounce :: "env \<Rightarrow> mesh_node \<Rightarrow> mesh_node" where
  "tick_reannounce ev n =
     (if n_recent_edges n \<noteq> [] \<and> EDGE_REANNOUNCE_MS \<le> sat_sub (n_now_ms n) (n_last_edge_regossip_ms n) then
        fold (\<lambda>(seq, i, sg). gossip_edge ev seq i sg None) (n_recent_edges n)
          (n\<lparr>n_last_edge_regossip_ms := n_now_ms n\<rparr>)
      else n)"

definition tick_buffer_map :: "env \<Rightarrow> mesh_node \<Rightarrow> mesh_node" where
  "tick_buffer_map ev n =
     (let count = bm_count (en_local (n_eng n))
      in if count \<noteq> n_last_bm_count n \<or> BUFFERMAP_INTERVAL_MS \<le> sat_sub (n_now_ms n) (n_last_bm_ms n) then
           broadcast ev (BufferMap (bm_base (en_local (n_eng n))) (bm_to_bytes (en_local (n_eng n))))
             (n\<lparr>n_last_bm_count := count, n_last_bm_ms := n_now_ms n\<rparr>)
         else n)"

definition tick_ping :: "env \<Rightarrow> mesh_node \<Rightarrow> mesh_node" where
  "tick_ping ev n =
     (if n_links n \<noteq> [] \<and> PING_INTERVAL_MS \<le> sat_sub (n_now_ms n) (n_last_ping_ms n) then
        broadcast ev (Ping (n_now_ms n) (n_now_ms n)) (n\<lparr>n_last_ping_ms := n_now_ms n\<rparr>)
      else n)"

definition tick_presence :: "env \<Rightarrow> mesh_node \<Rightarrow> mesh_node" where
  "tick_presence ev n =
     (case n_presence_book n of
        None \<Rightarrow> n
      | Some book \<Rightarrow>
          (let due = (n_last_presence_gossip_ms n = 0
                      \<or> PRESENCE_GOSSIP_INTERVAL_MS \<le> sat_sub (n_now_ms n) (n_last_presence_gossip_ms n))
           in if n_links n \<noteq> [] \<and> due then
                (let records = pb_sample (ev_now ev) PRESENCE_GOSSIP_MAX book
                 in if records \<noteq> [] then
                      broadcast ev (PresenceGossip records) (n\<lparr>n_last_presence_gossip_ms := n_now_ms n\<rparr>)
                    else n)
              else n))"

definition tick_choke :: "env \<Rightarrow> mesh_node \<Rightarrow> mesh_node" where
  "tick_choke ev n =
     (if n_peers n \<noteq> [] \<and> (n_last_choke_ms n = 0 \<or> CHOKE_INTERVAL_MS \<le> sat_sub (n_now_ms n) (n_last_choke_ms n))
      then recompute_unchokes ev n else n)"

definition node_snapshot :: "mesh_node \<Rightarrow> node_stats" where
  "node_snapshot n = (n_stats n)\<lparr>ns_delivered := n_delivered_total n, ns_peers := length (n_peers n),
     ns_known_peers := length (n_known_peers n), ns_head_seq := en_head_seq (n_eng n),
     ns_play_seq := en_play_seq (n_eng n),
     ns_latency_s := of_nat (unat (sat_sub (en_head_seq (n_eng n)) (en_play_seq (n_eng n))))
       * of_nat (unat (cfg_seg_ms (n_cfg n))) / 1000,
     ns_reasm_entries := length (n_reasm n), ns_reasm_bytes := n_reasm_bytes n,
     ns_pending_entries := length (n_pending n)\<rparr>"

definition tick_stats :: "mesh_node \<Rightarrow> mesh_node" where
  "tick_stats n =
     (if n_stats_tx n \<and> 1000 \<le> sat_sub (n_now_ms n) (n_last_stats_ms n) then
        emit (PublishStats (node_snapshot n)) (n\<lparr>n_last_stats_ms := n_now_ms n\<rparr>)
      else n)"

subsection \<open>Issuing requests\<close>

definition issue_want :: "env \<Rightarrow> request \<Rightarrow> peer_id \<Rightarrow> mesh_node \<Rightarrow> mesh_node" where
  "issue_want ev r pid n =
     (let seq = rq_seq r;
          hedging = (case hm_get (n_pending n) seq of
                       None \<Rightarrow> Some False
                     | Some (primary, _) \<Rightarrow>
                         if \<not> rq_redundant r \<or> primary = pid \<or> hm_has (n_hedge n) seq then None else Some True)
      in case hedging of
           None \<Rightarrow> n
         | Some hedge \<Rightarrow>
             if (case hm_get (n_peers n) pid of Some p \<Rightarrow> ps_choked_by p | None \<Rightarrow> False) then n
             else case hm_get (n_links n) pid of
                    None \<Rightarrow> n
                  | Some l \<Rightarrow>
                      (let n1 = send_msg ev l (Want [seq] 0) n;
                           n2 = (if hedge then n1\<lparr>n_hedge := hm_put seq (pid, n_now_ms n1) (n_hedge n1)\<rparr>
                                 else n1\<lparr>n_pending := hm_put seq (pid, n_now_ms n1) (n_pending n1)\<rparr>)
                       in upd_peer pid (\<lambda>p. p\<lparr>ps_pending_bytes :=
                            sat_add (ps_pending_bytes p) (en_seg_bytes (n_eng n2))\<rparr>) n2))"

definition issue_request :: "env \<Rightarrow> request \<Rightarrow> mesh_node \<Rightarrow> mesh_node" where
  "issue_request ev r n =
     (if hm_has (n_pending_verify n) (rq_seq r) then n
      else case rq_source r of
             Peer pid \<Rightarrow> issue_want ev r pid n
           | _ \<Rightarrow> request_fallback (rq_seq r) n)"

definition tick_requests :: "env \<Rightarrow> mesh_node \<Rightarrow> mesh_node" where
  "tick_requests ev n =
     (let (reqs, rng) = en_plan (ev_gen ev) (n_now_ms n) (n_eng n) (n_rng n)
      in fold (issue_request ev) reqs (n\<lparr>n_rng := rng\<rparr>))"

subsection \<open>The tick and the event dispatcher\<close>

definition on_tick :: "env \<Rightarrow> mesh_node \<Rightarrow> mesh_node" where
  "on_tick ev n =
     (let n = tick_follow ev n;
          n = tick_prune ev n;
          n = tick_tokens n;
          n = tick_serve ev n;
          n = tick_expire ev n;
          n = tick_reasm_ttl n;
          n = tick_pending_verify n;
          n = tick_edge_seen n;
          n = tick_reannounce ev n;
          n = tick_buffer_map ev n;
          n = tick_ping ev n;
          n = tick_presence ev n;
          n = tick_choke ev n;
          n = tick_stats n
      in tick_requests ev n)"

definition on_event :: "env \<Rightarrow> engine_event \<Rightarrow> mesh_node \<Rightarrow> mesh_node" where
  "on_event ev e n = (case e of
     PeerConnected p l \<Rightarrow> on_connected ev p l n
   | PeerDisconnected p \<Rightarrow> on_disconnected p n
   | Inbound p _ bs \<Rightarrow> on_inbound ev p bs n
   | Produced seq i b \<Rightarrow> on_produced ev seq i b n
   | InitSegment b \<Rightarrow> on_init_segment ev b n
   | LiveEdge seq i \<Rightarrow> apply_edge ev seq i n
   | SetPublisherKey k \<Rightarrow> n\<lparr>n_publisher_key := Some k\<rparr>
   | SetRole r \<Rightarrow> set_cfg (\<lambda>c. c\<lparr>cfg_role := r\<rparr>) n
   | SetUploadBudget bps \<Rightarrow> set_upload_budget bps n
   | SetSegMs ms \<Rightarrow> set_cfg (\<lambda>c. c\<lparr>cfg_seg_ms := max ms 1\<rparr>) n
   | Tick \<Rightarrow> on_tick ev n
   | Stop \<Rightarrow> n)"

text \<open>The arm of \<open>run\<close> that the ticker fires: the node's clock advances, then the tick runs.\<close>

definition run_tick :: "env \<Rightarrow> u64 \<Rightarrow> mesh_node \<Rightarrow> mesh_node" where
  "run_tick ev tick_ms n = on_tick ev (n\<lparr>n_now_ms := n_now_ms n + tick_ms\<rparr>)"

end
