(* ===== verification/Node_View.thy ===== *)
theory Node_View
  imports Node_Tick
begin

section \<open>The mesh node: the state its invariants speak about\<close>

text \<open>
  The invariants concern less than half of the node's fields. \<open>view\<close> projects the state to
  those (of the emitted effects it keeps the ones that hand bytes to the player or start a
  fetch), and the collection \<open>view\<close> says what every operation does to the projection:
  exactly, for the primitive operations, and up to the listed fields for composite ones.
\<close>

named_theorems view \<open>the effect of an operation on the projected state\<close>

definition is_out :: "effect \<Rightarrow> bool" where
  "is_out x = (case x of PushSegment _ _ \<Rightarrow> True | SpawnFetch _ _ \<Rightarrow> True | _ \<Rightarrow> False)"

lemma is_out_simps [simp]:
  "is_out (PushSegment s b)" "is_out (SpawnFetch s i)" "\<not> is_out (Send l c b)" "\<not> is_out (CloseLink l)"
  "\<not> is_out (PushInit b)" "\<not> is_out (SpawnDiskServe l s i p)" "\<not> is_out (PublishStats st)"
  by (simp_all add: is_out_def)

record node_view =
  nv_reasm :: "(peer_id \<times> u64, reasm_entry) hash_map"
  nv_reasm_bytes :: "u64"
  nv_pv :: "(u64, peer_id \<times> bytes) hash_map"
  nv_pv_bytes :: "u64"
  nv_me :: "peer_id"
  nv_known :: "peer_id list"
  nv_pending :: "(u64, peer_id \<times> u64) hash_map"
  nv_hedge :: "(u64, peer_id \<times> u64) hash_map"
  nv_peers :: "(peer_id, peer_state) hash_map"
  nv_ids :: "(u64, segment_id) hash_map"
  nv_stream :: "stream_id"
  nv_key :: "bytes option"
  nv_out :: "effect list"
  nv_store :: "segment_store"
  nv_tokens :: "real"
  nv_budget :: "u64"
  nv_seg_bytes :: "u64"
  nv_inflight :: "u64 list"

definition view :: "mesh_node \<Rightarrow> node_view" where
  "view n = \<lparr>nv_reasm = n_reasm n,
     nv_reasm_bytes = n_reasm_bytes n,
     nv_pv = n_pending_verify n,
     nv_pv_bytes = n_pending_verify_bytes n,
     nv_me = n_me n,
     nv_known = n_known_peers n,
     nv_pending = n_pending n,
     nv_hedge = n_hedge n,
     nv_peers = en_peers (n_eng n),
     nv_ids = n_segment_ids n,
     nv_stream = n_stream_id n,
     nv_key = n_publisher_key n,
     nv_out = filter is_out (n_out n),
     nv_store = en_store (n_eng n),
     nv_tokens = n_upload_tokens n,
     nv_budget = cfg_upload_budget_bps (en_cfg (n_eng n)),
     nv_seg_bytes = en_seg_bytes (n_eng n),
     nv_inflight = n_fallback_inflight n\<rparr>"

text \<open>Fields of a state are read through its projection.\<close>

lemma sel_view:
  "n_reasm n = nv_reasm (view n)"
  "n_reasm_bytes n = nv_reasm_bytes (view n)"
  "n_pending_verify n = nv_pv (view n)"
  "n_pending_verify_bytes n = nv_pv_bytes (view n)"
  "n_me n = nv_me (view n)"
  "n_known_peers n = nv_known (view n)"
  "n_pending n = nv_pending (view n)"
  "n_hedge n = nv_hedge (view n)"
  "en_peers (n_eng n) = nv_peers (view n)"
  "n_segment_ids n = nv_ids (view n)"
  "n_stream_id n = nv_stream (view n)"
  "n_publisher_key n = nv_key (view n)"
  "filter is_out (n_out n) = nv_out (view n)"
  "en_store (n_eng n) = nv_store (view n)"
  "n_upload_tokens n = nv_tokens (view n)"
  "cfg_upload_budget_bps (en_cfg (n_eng n)) = nv_budget (view n)"
  "en_seg_bytes (n_eng n) = nv_seg_bytes (view n)"
  "n_fallback_inflight n = nv_inflight (view n)"
  by (simp_all add: view_def)

text \<open>Updates of projected fields, and of all the others.\<close>

lemma view_field [view]:
  "view (n\<lparr>n_reasm := x_reasm\<rparr>) = (view n)\<lparr>nv_reasm := x_reasm\<rparr>"
  "view (n\<lparr>n_reasm_bytes := x_reasm_bytes\<rparr>) = (view n)\<lparr>nv_reasm_bytes := x_reasm_bytes\<rparr>"
  "view (n\<lparr>n_pending_verify := x_pv\<rparr>) = (view n)\<lparr>nv_pv := x_pv\<rparr>"
  "view (n\<lparr>n_pending_verify_bytes := x_pv_bytes\<rparr>) = (view n)\<lparr>nv_pv_bytes := x_pv_bytes\<rparr>"
  "view (n\<lparr>n_me := x_me\<rparr>) = (view n)\<lparr>nv_me := x_me\<rparr>"
  "view (n\<lparr>n_known_peers := x_known\<rparr>) = (view n)\<lparr>nv_known := x_known\<rparr>"
  "view (n\<lparr>n_pending := x_pending\<rparr>) = (view n)\<lparr>nv_pending := x_pending\<rparr>"
  "view (n\<lparr>n_hedge := x_hedge\<rparr>) = (view n)\<lparr>nv_hedge := x_hedge\<rparr>"
  "view (n\<lparr>n_segment_ids := x_ids\<rparr>) = (view n)\<lparr>nv_ids := x_ids\<rparr>"
  "view (n\<lparr>n_stream_id := x_stream\<rparr>) = (view n)\<lparr>nv_stream := x_stream\<rparr>"
  "view (n\<lparr>n_publisher_key := x_key\<rparr>) = (view n)\<lparr>nv_key := x_key\<rparr>"
  "view (n\<lparr>n_upload_tokens := x_tokens\<rparr>) = (view n)\<lparr>nv_tokens := x_tokens\<rparr>"
  "view (n\<lparr>n_fallback_inflight := x_inflight\<rparr>) = (view n)\<lparr>nv_inflight := x_inflight\<rparr>"
  by (simp_all add: view_def)

lemma view_other [view]:
  "view (n\<lparr>n_discard_sink := x_discard_sink\<rparr>) = view n" "view (n\<lparr>n_links := x_links\<rparr>) = view n"
  "view (n\<lparr>n_edge_signer := x_edge_signer\<rparr>) = view n" "view (n\<lparr>n_edge_seen := x_edge_seen\<rparr>) = view n"
  "view (n\<lparr>n_recent_edges := x_recent_edges\<rparr>) = view n" "view (n\<lparr>n_last_edge_regossip_ms := x_last_edge_regossip_ms\<rparr>) = view n"
  "view (n\<lparr>n_presence_book := x_presence_book\<rparr>) = view n" "view (n\<lparr>n_ban_list := x_ban_list\<rparr>) = view n"
  "view (n\<lparr>n_last_presence_gossip_ms := x_last_presence_gossip_ms\<rparr>) = view n" "view (n\<lparr>n_subscribers := x_subscribers\<rparr>) = view n"
  "view (n\<lparr>n_rng := x_rng\<rparr>) = view n" "view (n\<lparr>n_now_ms := x_now_ms\<rparr>) = view n"
  "view (n\<lparr>n_last_ping_ms := x_last_ping_ms\<rparr>) = view n" "view (n\<lparr>n_last_bm_ms := x_last_bm_ms\<rparr>) = view n"
  "view (n\<lparr>n_last_bm_count := x_last_bm_count\<rparr>) = view n" "view (n\<lparr>n_last_choke_ms := x_last_choke_ms\<rparr>) = view n"
  "view (n\<lparr>n_optimistic_rr := x_optimistic_rr\<rparr>) = view n" "view (n\<lparr>n_last_token_ms := x_last_token_ms\<rparr>) = view n"
  "view (n\<lparr>n_delivered_total := x_delivered_total\<rparr>) = view n" "view (n\<lparr>n_stats_tx := x_stats_tx\<rparr>) = view n"
  "view (n\<lparr>n_last_stats_ms := x_last_stats_ms\<rparr>) = view n" "view (n\<lparr>n_fallback := x_fallback\<rparr>) = view n"
  "view (n\<lparr>n_last_prune_floor := x_last_prune_floor\<rparr>) = view n" "view (n\<lparr>n_stats := x_stats\<rparr>) = view n"
  "view (n\<lparr>n_init := x_init\<rparr>) = view n" "view (n\<lparr>n_disk := x_disk\<rparr>) = view n"
  by (simp_all add: view_def)

lemma view_eng [view]:
  "view (n\<lparr>n_eng := (n_eng n)\<lparr>en_peers := ps\<rparr>\<rparr>) = (view n)\<lparr>nv_peers := ps\<rparr>"
  "view (n\<lparr>n_eng := (n_eng n)\<lparr>en_store := st\<rparr>\<rparr>) = (view n)\<lparr>nv_store := st\<rparr>"
  "view (n\<lparr>n_eng := (n_eng n)\<lparr>en_head_seq := h\<rparr>\<rparr>) = view n"
  "view (n\<lparr>n_eng := (n_eng n)\<lparr>en_play_seq := p\<rparr>\<rparr>) = view n"
  "view (n\<lparr>n_eng := (n_eng n)\<lparr>en_local := bm\<rparr>\<rparr>) = view n"
  "view (n\<lparr>n_eng := (n_eng n)\<lparr>en_store := st, en_local := bm\<rparr>\<rparr>) = (view n)\<lparr>nv_store := st\<rparr>"
  "view (n\<lparr>n_eng := (n_eng n)\<lparr>en_cfg := c\<rparr>\<rparr>) = (view n)\<lparr>nv_budget := cfg_upload_budget_bps c\<rparr>"
  "view (n\<lparr>n_eng := en_mark_have s (n_eng n)\<rparr>) = view n"
  by (simp_all add: view_def en_mark_have_def)

lemma view_fold: "(\<And>x n. view (f x n) = view n) \<Longrightarrow> view (fold f xs n) = view n"
  by (induction xs arbitrary: n) simp_all

subsection \<open>Primitive operations\<close>

lemma view_emit [view]:
  "view (emit x n) = (if is_out x then (view n)\<lparr>nv_out := nv_out (view n) @ [x]\<rparr> else view n)"
  by (simp add: emit_def view_def)

lemma view_emits [view]: "filter is_out xs = [] \<Longrightarrow> view (emits xs n) = view n"
  by (simp add: emits_def view_def)

lemma view_send [view]:
  "view (send_msg ev l m n) = view n" "view (broadcast ev m n) = view n"
  "view (broadcast_except ev x m n) = view n" "view (gossip_edge ev s i sg y n) = view n"
  "view (send_hello ev l n) = view n" "view (send_segment ev l s bs n) = view n"
  by (simp_all add: send_msg_def broadcast_def broadcast_except_def gossip_edge_def send_hello_def
      send_segment_def view filter_empty_conv case_prod_beta)

lemma view_peer [view]:
  "view (upd_peer p f n) = (view n)\<lparr>nv_peers := hm_modify p f (nv_peers (view n))\<rparr>"
  "view (pop_serve p n) = (view n)\<lparr>nv_peers :=
     hm_modify p (\<lambda>s. s\<lparr>ps_serve_queue := tl (ps_serve_queue s)\<rparr>) (nv_peers (view n))\<rparr>"
  "view (ensure_peer p n) = (if hm_has (nv_peers (view n)) p then view n
     else (view n)\<lparr>nv_peers := hm_put p (peer_state_new p) (nv_peers (view n))\<rparr>)"
  by (simp_all add: upd_peer_def pop_serve_def ensure_peer_def view sel_view)

text \<open>The in-flight tables after \<open>clear_pending\<close>.\<close>

definition release_peer :: "u64 \<Rightarrow> (peer_id \<times> u64) option \<Rightarrow> (peer_id, peer_state) hash_map \<Rightarrow> (peer_id, peer_state) hash_map" where
  "release_peer k entry ps = (case entry of Some (p, _) \<Rightarrow> hm_modify p (release_bytes k) ps | None \<Rightarrow> ps)"

lemma hm_remove_absent: "hm_get m k = None \<Longrightarrow> hm_remove k m = m"
  by (force simp: AList.delete_eq map_of_eq_None_iff filter_id_conv)

lemma view_clear_pending [view]:
  "view (fst (clear_pending s n)) = (view n)\<lparr>nv_pending := hm_remove s (nv_pending (view n)),
     nv_hedge := hm_remove s (nv_hedge (view n)),
     nv_peers := release_peer (nv_seg_bytes (view n)) (hm_get (nv_hedge (view n)) s)
       (release_peer (nv_seg_bytes (view n)) (hm_get (nv_pending (view n)) s) (nv_peers (view n)))\<rparr>"
  by (simp add: clear_pending_def Let_def release_peer_def view sel_view hm_remove_absent
      split: option.split prod.split)

lemma clear_pending_entry [simp]: "snd (clear_pending s n) = hm_get (n_pending n) s"
  by (simp add: clear_pending_def Let_def)

lemma view_remove_reasm [view]:
  "view (remove_reasm k n) = (case hm_get (nv_reasm (view n)) k of
     Some e \<Rightarrow> (view n)\<lparr>nv_reasm := hm_remove k (nv_reasm (view n)),
                 nv_reasm_bytes := sat_sub (nv_reasm_bytes (view n)) (rs_buffered_bytes (re_r e))\<rparr>
   | None \<Rightarrow> view n)"
  by (simp add: remove_reasm_def view sel_view split: option.split)

lemma view_obtain [view]:
  "view (store_insert ev s i b n) =
     (view n)\<lparr>nv_store := fst (st_insert (ev_fault ev) s i b (nv_store (view n)) (n_disk n))\<rparr>"
  "view (obtain_segment ev s i b n) =
     (view n)\<lparr>nv_store := fst (st_insert (ev_fault ev) s i b (nv_store (view n)) (n_disk n))\<rparr>"
  by (simp_all add: obtain_segment_def store_insert_def Let_def view sel_view case_prod_beta)

lemma view_sink_push [view]:
  "view (sink_push s b n) = (if n_discard_sink n then view n
     else (view n)\<lparr>nv_out := nv_out (view n) @ [PushSegment s b]\<rparr>)"
  by (simp add: sink_push_def view)

lemma view_buffer_pending_verify [view]:
  "view (buffer_pending_verify p s raw n) =
     (if hm_has (nv_pv (view n)) s \<or> MAX_PENDING_VERIFY_BYTES < nv_pv_bytes (view n) + of_nat (length raw) then view n
      else (view n)\<lparr>nv_pv := hm_put s (p, raw) (nv_pv (view n)),
                    nv_pv_bytes := nv_pv_bytes (view n) + of_nat (length raw)\<rparr>)"
  by (simp add: buffer_pending_verify_def Let_def view sel_view)

lemma view_learn_peer [view]:
  "view (learn_peer p n) =
     (if p \<noteq> nv_me (view n) \<and> length (nv_known (view n)) < KNOWN_PEERS_MAX
      then (view n)\<lparr>nv_known := hs_insert p (nv_known (view n))\<rparr> else view n)"
  by (simp add: learn_peer_def view sel_view)

lemma view_promote_hedge [view]:
  "view (promote_hedge s n) = (case hm_get (nv_hedge (view n)) s of
     Some h \<Rightarrow> (view n)\<lparr>nv_pending := hm_put s h (hm_remove s (nv_pending (view n))),
                         nv_hedge := hm_remove s (nv_hedge (view n))\<rparr>
   | None \<Rightarrow> (view n)\<lparr>nv_pending := hm_remove s (nv_pending (view n))\<rparr>)"
  by (simp add: promote_hedge_def Let_def view sel_view split: option.split)

lemma view_drop_pending_verify [view]:
  "view (drop_pending_verify s n) = (case hm_get (nv_pv (view n)) s of
     Some (_, raw) \<Rightarrow> (view n)\<lparr>nv_pv := hm_remove s (nv_pv (view n)),
                              nv_pv_bytes := sat_sub (nv_pv_bytes (view n)) (of_nat (length raw))\<rparr>
   | None \<Rightarrow> view n)"
  by (simp add: drop_pending_verify_def view sel_view split: option.split prod.split)

lemma view_request_fallback [view]:
  "view (request_fallback s n) =
     (if \<not> n_fallback n \<or> s \<in> set (nv_inflight (view n)) \<or> MAX_FALLBACK_INFLIGHT \<le> length (nv_inflight (view n))
      then view n
      else case hm_get (nv_ids (view n)) s of
        Some i \<Rightarrow> (view n)\<lparr>nv_inflight := hs_insert s (nv_inflight (view n)),
                            nv_out := nv_out (view n) @ [SpawnFetch s i]\<rparr>
      | None \<Rightarrow> view n)"
  by (simp add: request_fallback_def view sel_view split: option.split)

lemma view_set_play [view]: "view (set_play s n) = view n"
  by (simp add: set_play_def view)

lemma view_tick_follow [view]: "view (tick_follow ev n) = view n"
  by (simp add: tick_follow_def Let_def view)

lemma view_tick_edges [view]:
  "view (tick_edge_seen n) = view n" "view (tick_reannounce ev n) = view n"
  by (simp_all add: tick_edge_seen_def tick_reannounce_def view view_fold case_prod_beta)

lemma view_tick_messages [view]:
  "view (tick_buffer_map ev n) = view n" "view (tick_ping ev n) = view n"
  "view (tick_presence ev n) = view n" "view (tick_stats n) = view n"
  by (simp_all add: tick_buffer_map_def tick_ping_def tick_presence_def tick_stats_def Let_def view
      split: option.split)

lemma view_init_segment [view]:
  "view (on_init_segment ev b n) = view n" "view (on_init_data ev p b n) = view n"
  by (simp_all add: on_init_segment_def on_init_data_def Let_def view)

lemma view_announce_produced [view]: "view (announce_produced ev s i n) = view n"
  by (simp add: announce_produced_def Let_def view split: option.split)

lemma view_set_cfg [view]:
  "view (set_cfg f n) = (view n)\<lparr>nv_budget := cfg_upload_budget_bps (f (n_cfg n))\<rparr>"
  by (simp add: set_cfg_def view)

text \<open>The loop of \<open>push_to_subscribers\<close> spends tokens and nothing else.\<close>

lemma push_fold_view:
  assumes "\<And>s n. view (g s n) = view n" and "0 \<le> cost"
  shows "\<exists>t \<le> nv_tokens (view n). (0 \<le> nv_tokens (view n) \<longrightarrow> 0 \<le> t) \<and>
    view (fst (fold (\<lambda>s (n, stopped).
      if stopped then (n, True)
      else if metered then
        (if n_upload_tokens n < cost then (n, True)
         else (g s (n\<lparr>n_upload_tokens := n_upload_tokens n - cost\<rparr>), False))
      else (g s n, False)) targets (n, stop))) = (view n)\<lparr>nv_tokens := t\<rparr>"
proof (induction targets arbitrary: n stop)
  case Nil
  show ?case by (intro exI [of _ "nv_tokens (view n)"]) simp
next
  case (Cons s targets)
  let ?n = "n\<lparr>n_upload_tokens := n_upload_tokens n - cost\<rparr>"
  have t: "n_upload_tokens n = nv_tokens (view n)" by (simp add: sel_view)
  show ?case
  proof (cases "\<not> stop \<and> metered \<and> \<not> n_upload_tokens n < cost")
    case True
    from Cons.IH [of "g s ?n" False] obtain t' where "t' \<le> nv_tokens (view n) - cost"
      "0 \<le> nv_tokens (view n) - cost \<longrightarrow> 0 \<le> t'"
      and eq: "view (fst (fold (\<lambda>s (n, stopped).
        if stopped then (n, True)
        else if metered then
          (if n_upload_tokens n < cost then (n, True)
           else (g s (n\<lparr>n_upload_tokens := n_upload_tokens n - cost\<rparr>), False))
        else (g s n, False)) targets (g s ?n, False))) = (view n)\<lparr>nv_tokens := t'\<rparr>"
      using t by (auto simp: assms view)
    with True t assms(2) show ?thesis by (intro exI [of _ t']) auto
  next
    case False
    then show ?thesis using Cons.IH [of n True] Cons.IH [of "g s n" False] by (auto simp: assms)
  qed
qed

lemma view_push_to_subscribers:
  "\<exists>t \<le> nv_tokens (view n). (0 \<le> nv_tokens (view n) \<longrightarrow> 0 \<le> t) \<and>
     view (push_to_subscribers ev s n) = (view n)\<lparr>nv_tokens := t\<rparr>"
proof -
  have same: "\<exists>t \<le> nv_tokens (view n). (0 \<le> nv_tokens (view n) \<longrightarrow> 0 \<le> t) \<and> view n = (view n)\<lparr>nv_tokens := t\<rparr>"
    by (intro exI [of _ "nv_tokens (view n)"]) simp
  show ?thesis
  proof (cases "n_subscribers n = [] \<or> st_get s (en_store (n_eng n)) (n_disk n) = None")
    case True
    then show ?thesis using same by (auto simp: push_to_subscribers_def)
  next
    case False
    then obtain bs where get: "st_get s (en_store (n_eng n)) (n_disk n) = Some bs" by auto
    from False have ns: "n_subscribers n \<noteq> []" by simp
    show ?thesis
      unfolding push_to_subscribers_def Let_def get option.case if_not_P [OF ns]
      by (rule push_fold_view [where g = "\<lambda>i n. case hm_get (n_links n) i of
            Some l \<Rightarrow> send_segment ev l s bs n | None \<Rightarrow> n"]) (auto simp: view split: option.split)
  qed
qed

end
