(* ===== verification/Node_Inv.thy ===== *)
theory Node_Inv
  imports Node_View
begin

section \<open>The mesh node: invariant\<close>

text \<open>
  The invariant of the node, in parts: the reassembly table and its byte count, the
  push-ahead buffer, the known-peer set, the in-flight requests and the per-peer byte
  budget they account for, the authenticity of everything that is stored or handed on,
  the upload bucket and the durable-floor fetches. Every operation preserves it.
\<close>

subsection \<open>The parts\<close>

definition reasm_inv :: "node_view \<Rightarrow> bool" where
  "reasm_inv v \<longleftrightarrow> hm_ok (nv_reasm v) \<and> length (nv_reasm v) \<le> MAX_REASM
     \<and> (\<forall>k e. hm_get (nv_reasm v) k = Some e \<longrightarrow> rs_good (re_r e) \<and> rs_total_len (re_r e) \<le> MAX_SEGMENT_BYTES)
     \<and> unat (nv_reasm_bytes v) = hm.total (\<lambda>e. unat (rs_buffered (re_r e))) (nv_reasm v)"

definition pv_inv :: "node_view \<Rightarrow> bool" where
  "pv_inv v \<longleftrightarrow> hm_ok (nv_pv v) \<and> unat (nv_pv_bytes v) = hm.total (\<lambda>(_, raw). length raw) (nv_pv v)
     \<and> nv_pv_bytes v \<le> MAX_PENDING_VERIFY_BYTES"

definition known_inv :: "node_view \<Rightarrow> bool" where
  "known_inv v \<longleftrightarrow> distinct (nv_known v) \<and> length (nv_known v) \<le> KNOWN_PEERS_MAX \<and> nv_me v \<notin> set (nv_known v)"

definition req_inv :: "node_view \<Rightarrow> bool" where
  "req_inv v \<longleftrightarrow> hm_ok (nv_pending v) \<and> hm_ok (nv_hedge v)
     \<and> (\<forall>s p t. hm_get (nv_hedge v) s = Some (p, t) \<longrightarrow> (\<exists>q u. hm_get (nv_pending v) s = Some (q, u) \<and> q \<noteq> p))"

definition peer_ok :: "peer_state \<Rightarrow> bool" where
  "peer_ok p \<longleftrightarrow> length (ps_serve_queue p) \<le> SERVE_QUEUE_MAX \<and> distinct (ps_serve_queue p)
     \<and> 0 \<le> ps_reputation p \<and> ps_reputation p \<le> 1"

definition inflight_count :: "peer_id \<Rightarrow> (u64, peer_id \<times> u64) hash_map \<Rightarrow> nat" where
  "inflight_count p m = length (filter (\<lambda>(_, (q, _)). q = p) m)"

definition peers_inv :: "node_view \<Rightarrow> bool" where
  "peers_inv v \<longleftrightarrow> hm_ok (nv_peers v)
     \<and> (\<forall>p ps. hm_get (nv_peers v) p = Some ps \<longrightarrow> ps_id ps = p \<and> peer_ok ps
          \<and> unat (ps_pending_bytes ps) \<le>
              unat (nv_seg_bytes v) * (inflight_count p (nv_pending v) + inflight_count p (nv_hedge v)))"

definition store_inv :: "libs \<Rightarrow> (u64 \<Rightarrow> segment_id \<Rightarrow> bool) \<Rightarrow> segment_store \<Rightarrow> bool" where
  "store_inv L P st \<longleftrightarrow> bt_ok (st_mem st) \<and> bt_ok (st_index st)
     \<and> (\<forall>s b. map_of (st_mem st) s = Some b \<longrightarrow> map_of (st_index st) s = Some (segment_id_of L b))
     \<and> (\<forall>s i. map_of (st_index st) s = Some i \<longrightarrow> P s i)"

definition trust_inv :: "libs \<Rightarrow> (u64 \<Rightarrow> segment_id \<Rightarrow> bool) \<Rightarrow> stream_id \<Rightarrow> bytes set \<Rightarrow> node_view \<Rightarrow> bool" where
  "trust_inv L P sid K v \<longleftrightarrow> nv_stream v = sid \<and> set_option (nv_key v) \<subseteq> K
     \<and> hm_ok (nv_ids v) \<and> (\<forall>s i. hm_get (nv_ids v) s = Some i \<longrightarrow> P s i)
     \<and> (\<forall>s b. PushSegment s b \<in> set (nv_out v) \<longrightarrow> P s (segment_id_of L b))
     \<and> (\<forall>s i. SpawnFetch s i \<in> set (nv_out v) \<longrightarrow> P s i)
     \<and> store_inv L P (nv_store v)"

definition up_inv :: "node_view \<Rightarrow> bool" where
  "up_inv v \<longleftrightarrow> 0 \<le> nv_tokens v
     \<and> (0 < nv_budget v \<longrightarrow> nv_tokens v \<le> burst_of (nv_budget v) (nv_seg_bytes v))"

definition fb_inv :: "node_view \<Rightarrow> bool" where
  "fb_inv v \<longleftrightarrow> distinct (nv_inflight v) \<and> length (nv_inflight v) \<le> MAX_FALLBACK_INFLIGHT"

definition node_inv :: "libs \<Rightarrow> (u64 \<Rightarrow> segment_id \<Rightarrow> bool) \<Rightarrow> stream_id \<Rightarrow> bytes set \<Rightarrow> node_view \<Rightarrow> bool" where
  "node_inv L P sid K v \<longleftrightarrow> reasm_inv v \<and> pv_inv v \<and> known_inv v \<and> req_inv v \<and> peers_inv v
     \<and> trust_inv L P sid K v \<and> up_inv v \<and> fb_inv v"

lemmas inv_parts = reasm_inv_def pv_inv_def known_inv_def req_inv_def peers_inv_def trust_inv_def up_inv_def fb_inv_def

subsection \<open>In-flight counts\<close>

lemma inflight_total: "inflight_count p m = hm.total (\<lambda>(q, _). if q = p then 1 else 0) m"
  by (induction m) (auto simp: inflight_count_def hm.total_def)

lemma inflight_remove:
  "hm_ok m \<Longrightarrow> inflight_count p m =
     (case hm_get m s of Some (q, _) \<Rightarrow> if q = p then 1 else 0 | None \<Rightarrow> 0) + inflight_count p (hm_remove s m)"
  using hm.total_remove [of m s _ "\<lambda>(q, _). if q = p then 1 else 0"]
    hm.total_remove_absent [of m s "\<lambda>(q, _). if q = p then 1 else 0"]
  by (auto simp: inflight_total split: option.split prod.split)

lemma inflight_put:
  "hm_ok m \<Longrightarrow> hm_get m s = None \<Longrightarrow> inflight_count p (hm_put s (q, t) m) = (if q = p then 1 else 0) + inflight_count p m"
  using hm.total_put [of m "\<lambda>(q, _). if q = p then 1 else 0" s "(q, t)"]
    hm.total_remove_absent [of m s "\<lambda>(q, _). if q = p then 1 else 0"]
  by (simp add: inflight_total)

lemma inflight_retain_other: "p \<noteq> q \<Longrightarrow> inflight_count p (hm_retain (\<lambda>_ (r, _). r \<noteq> q) m) = inflight_count p m"
  unfolding inflight_count_def hm_retain_def filter_filter
  by (rule arg_cong [where f = length], rule filter_cong) auto

subsection \<open>Primitive operations\<close>

text \<open>A change to one peer's record that keeps its identity, its bounds and its byte budget.\<close>

definition benign :: "(peer_state \<Rightarrow> peer_state) \<Rightarrow> bool" where
  "benign f \<longleftrightarrow> (\<forall>p. peer_ok p \<longrightarrow> ps_id (f p) = ps_id p \<and> peer_ok (f p) \<and> ps_pending_bytes (f p) = ps_pending_bytes p)"

lemma peers_inv_modify:
  assumes "peers_inv v" and "benign f"
  shows "peers_inv (v\<lparr>nv_peers := hm_modify p f (nv_peers v)\<rparr>)"
proof -
  have "ps_id ps = q \<and> peer_ok ps \<and> unat (ps_pending_bytes ps) \<le>
      unat (nv_seg_bytes v) * (inflight_count q (nv_pending v) + inflight_count q (nv_hedge v))"
    if ps: "hm_get (hm_modify p f (nv_peers v)) q = Some ps" for q ps
  proof -
    from ps obtain ps0 where g: "hm_get (nv_peers v) q = Some ps0" and "ps = f ps0 \<or> ps = ps0"
      by (auto split: if_splits)
    moreover have "benign id" by (simp add: benign_def)
    ultimately obtain h where h: "ps = h ps0" "benign h" using assms(2) by (metis id_apply)
    from assms(1) g have "ps_id ps0 = q" "peer_ok ps0" "unat (ps_pending_bytes ps0) \<le>
        unat (nv_seg_bytes v) * (inflight_count q (nv_pending v) + inflight_count q (nv_hedge v))"
      by (simp_all add: peers_inv_def)
    then show ?thesis using h by (simp add: benign_def)
  qed
  then show ?thesis using assms(1) by (simp add: peers_inv_def del: hm_get_modify)
qed

lemma inv_modify:
  assumes "node_inv L P sid K v" and "benign f"
  shows "node_inv L P sid K (v\<lparr>nv_peers := hm_modify p f (nv_peers v)\<rparr>)"
proof -
  have "peers_inv (v\<lparr>nv_peers := hm_modify p f (nv_peers v)\<rparr>)"
    using assms by (intro peers_inv_modify) (simp_all add: node_inv_def)
  with assms(1) show ?thesis
    by (simp add: node_inv_def reasm_inv_def pv_inv_def known_inv_def req_inv_def trust_inv_def up_inv_def fb_inv_def)
qed

lemma inv_upd_peer: "node_inv L P sid K (view n) \<Longrightarrow> benign f \<Longrightarrow> node_inv L P sid K (view (upd_peer p f n))"
  by (simp add: view inv_modify)

lemma inv_ensure_peer: "node_inv L P sid K (view n) \<Longrightarrow> node_inv L P sid K (view (ensure_peer p n))"
proof -
  assume I: "node_inv L P sid K (view n)"
  have "peer_ok (peer_state_new p)" "ps_pending_bytes (peer_state_new p) = 0" "ps_id (peer_state_new p) = p"
    by (simp_all add: peer_ok_def peer_state_new_def)
  then have "peers_inv ((view n)\<lparr>nv_peers := hm_put p (peer_state_new p) (nv_peers (view n))\<rparr>)"
    using I by (auto simp: node_inv_def peers_inv_def hm.ok_put update_conv' split: if_splits)
  then show ?thesis using I by (simp add: view) (simp add: node_inv_def inv_parts)
qed

text \<open>Giving back the budget of a request that is no longer in flight.\<close>

lemma release_budget:
  assumes "unat (ps_pending_bytes ps) \<le> unat k * Suc c"
  shows "unat (ps_pending_bytes (release_bytes k ps)) \<le> unat k * c"
  using assms by (simp add: release_bytes_def word_nat)

lemma release_bytes_simps [simp]:
  "ps_id (release_bytes k ps) = ps_id ps" "peer_ok (release_bytes k ps) = peer_ok ps"
  by (simp_all add: release_bytes_def peer_ok_def)

lemma inv_clear_pending:
  assumes I: "node_inv L P sid K (view n)"
  shows "node_inv L P sid K (view (fst (clear_pending s n)))"
proof -
  let ?v = "view n" and ?w = "view (fst (clear_pending s n))"
  have ok: "hm_ok (nv_pending ?v)" "hm_ok (nv_hedge ?v)" "hm_ok (nv_peers ?v)"
    using I by (simp_all add: node_inv_def req_inv_def peers_inv_def)
  have "unat (ps_pending_bytes ps) \<le> unat (nv_seg_bytes ?w) *
      (inflight_count p (nv_pending ?w) + inflight_count p (nv_hedge ?w)) \<and> ps_id ps = p \<and> peer_ok ps"
    if ps: "hm_get (nv_peers ?w) p = Some ps" for p ps
  proof -
    let ?k = "nv_seg_bytes ?v"
    let ?a = "case hm_get (nv_pending ?v) s of Some (q, _) \<Rightarrow> q = p | None \<Rightarrow> False"
    let ?b = "case hm_get (nv_hedge ?v) s of Some (q, _) \<Rightarrow> q = p | None \<Rightarrow> False"
    from ps obtain ps0 where ps0: "hm_get (nv_peers ?v) p = Some ps0"
      and eq: "ps = (if ?b then release_bytes ?k else id) ((if ?a then release_bytes ?k else id) ps0)"
      by (auto simp: view release_peer_def split: option.splits prod.splits if_splits)
    have old: "ps_id ps0 = p" "peer_ok ps0" "unat (ps_pending_bytes ps0) \<le>
        unat ?k * (inflight_count p (nv_pending ?v) + inflight_count p (nv_hedge ?v))"
      using I ps0 by (auto simp: node_inv_def peers_inv_def)
    have "inflight_count p (nv_pending ?v) = of_bool ?a + inflight_count p (nv_pending ?w)"
      and "inflight_count p (nv_hedge ?v) = of_bool ?b + inflight_count p (nv_hedge ?w)"
      using inflight_remove [OF ok(1), of p s] inflight_remove [OF ok(2), of p s]
      by (auto simp: view split: option.splits)
    then have "unat (ps_pending_bytes ps) \<le> unat ?k * (inflight_count p (nv_pending ?w) + inflight_count p (nv_hedge ?w))"
      using old(3) unfolding eq by (auto intro!: release_budget)
    then show ?thesis using old eq by (simp add: view)
  qed
  moreover have "hm_ok (nv_peers ?w)"
    using ok by (simp add: view release_peer_def split: option.split prod.split)
  ultimately have "peers_inv ?w" by (simp add: peers_inv_def)
  moreover have "req_inv ?w"
    using I ok by (auto simp: node_inv_def req_inv_def view hm.ok_remove delete_conv')
  ultimately show ?thesis using I by (simp add: view) (simp add: node_inv_def inv_parts)
qed

subsection \<open>Reassemblies\<close>

lemma inv_fold: "(\<And>x n. node_inv L P sid K (view n) \<Longrightarrow> node_inv L P sid K (view (f x n))) \<Longrightarrow>
    node_inv L P sid K (view n) \<Longrightarrow> node_inv L P sid K (view (fold f xs n))"
  by (induction xs arbitrary: n) simp_all

lemma inv_reasmI:
  "node_inv L P sid K v \<Longrightarrow> reasm_inv (v\<lparr>nv_reasm := a, nv_reasm_bytes := b\<rparr>) \<Longrightarrow>
     node_inv L P sid K (v\<lparr>nv_reasm := a, nv_reasm_bytes := b\<rparr>)"
  by (simp add: node_inv_def inv_parts)

lemma reasm_inv_remove:
  assumes R: "reasm_inv v" and e: "hm_get (nv_reasm v) k = Some e"
  shows "reasm_inv (v\<lparr>nv_reasm := hm_remove k (nv_reasm v),
     nv_reasm_bytes := sat_sub (nv_reasm_bytes v) (rs_buffered_bytes (re_r e))\<rparr>)"
proof -
  have ok: "hm_ok (nv_reasm v)" using R by (simp add: reasm_inv_def)
  have "unat (nv_reasm_bytes v) = unat (rs_buffered (re_r e)) +
      hm.total (\<lambda>e. unat (rs_buffered (re_r e))) (hm_remove k (nv_reasm v))"
    using R hm.total_remove [OF ok e] by (simp add: reasm_inv_def)
  with R ok e show ?thesis
    by (auto simp: reasm_inv_def hm.ok_remove hm.len_remove delete_conv' word_nat rs_buffered_bytes_def)
qed

lemma inv_remove_reasm: "node_inv L P sid K (view n) \<Longrightarrow> node_inv L P sid K (view (remove_reasm k n))"
  by (auto simp: view intro!: inv_reasmI reasm_inv_remove split: option.split) (simp add: node_inv_def)

lemma inv_remove_reasm_of: "node_inv L P sid K (view n) \<Longrightarrow> node_inv L P sid K (view (remove_reasm_of p n))"
  unfolding remove_reasm_of_def by (rule inv_fold [OF inv_remove_reasm])

lemma benign_decay: "benign (decay why)" "benign (\<lambda>p. decay why p\<lparr>ps_banned := True\<rparr>)"
  by (cases why; auto simp: benign_def decay_def Let_def peer_ok_def TIMEOUT_REP_FLOOR_def)+

lemma inv_penalize: "node_inv L P sid K (view n) \<Longrightarrow> node_inv L P sid K (view (penalize ev p why n))"
  by (auto simp: penalize_def Let_def view simp del: view_peer
      intro!: inv_remove_reasm_of inv_upd_peer benign_decay split: option.split)

subsection \<open>Delivery\<close>

lemma bt_ok_drop: "bt_ok m \<Longrightarrow> bt_ok (drop k m)"
  by (simp add: bt_ok_def drop_map [symmetric] sorted_wrt_drop)

lemma bt_get_drop: "bt_ok m \<Longrightarrow> map_of (drop k m) x = Some b \<Longrightarrow> map_of m x = Some b"
  using bt.entries_iff [of m x b] by (auto dest!: map_of_SomeD in_set_dropD)

lemma store_inv_insert:
  assumes "store_inv L P st" and "P s (segment_id_of L b)"
  shows "store_inv L P (fst (st_insert f s (segment_id_of L b) b st d))"
proof -
  have bt: "bt_ok (st_mem st)" "bt_ok (st_index st)" using assms(1) by (simp_all add: store_inv_def)
  have kept: "if x = s then c = b else map_of (st_mem st) x = Some c"
    if "map_of (drop k (bt_put s b (st_mem st))) x = Some c" for k x c
    using bt_get_drop [OF bt_ok_put [OF bt(1)] that] bt(1) by (auto simp: bt.get_put split: if_splits)
  have "map_of (bt_put s (segment_id_of L b) (st_index st)) x = Some (segment_id_of L c)"
    if "map_of (drop k (bt_put s b (st_mem st))) x = Some c" for k x c
    using kept [OF that] assms(1) bt by (auto simp: bt.get_put store_inv_def split: if_splits)
  then show ?thesis
    using assms bt unfolding store_inv_def st_insert_fields
    by (auto simp: bt_ok_put bt_ok_drop bt.get_put split: if_splits)
qed

lemma store_inv_prune: "store_inv L P st \<Longrightarrow> store_inv L P (fst (st_prune_below f fl st d))"
  by (auto simp: store_inv_def st_prune_fields bt_ok_split_off bt_get_split_off split: if_splits)

lemma inv_obtain:
  "node_inv L P sid K (view n) \<Longrightarrow> P s (segment_id_of L b) \<Longrightarrow>
     node_inv L P sid K (view (obtain_segment ev s (segment_id_of L b) b n))"
  by (simp add: view node_inv_def inv_parts store_inv_insert)

lemma inv_tokens:
  assumes "node_inv L P sid K v" and "t \<le> nv_tokens v" and "0 \<le> nv_tokens v \<longrightarrow> 0 \<le> t"
  shows "node_inv L P sid K (v\<lparr>nv_tokens := t\<rparr>)"
  using assms by (auto simp: node_inv_def inv_parts)

lemma inv_push: "node_inv L P sid K (view n) \<Longrightarrow> node_inv L P sid K (view (push_to_subscribers ev s n))"
  using view_push_to_subscribers [of n ev s] inv_tokens by metis

lemma inv_deliver:
  assumes "node_inv L P sid K (view n)" and "P s (segment_id_of L b)"
  shows "node_inv L P sid K (view (deliver_verified ev s (segment_id_of L b) b n))"
proof -
  have "node_inv L P sid K (view (sink_push s b m))" if "node_inv L P sid K (view m)" for m
    using that assms(2) by (simp add: view) (auto simp: node_inv_def inv_parts)
  then show ?thesis unfolding deliver_verified_def using inv_obtain assms by (intro inv_push) blast
qed

lemma benign_simps [simp]:
  "benign (\<lambda>p. p\<lparr>ps_throughput_bps := g p\<rparr>)" "benign (\<lambda>p. p\<lparr>ps_rtt_ms := g p\<rparr>)"
  "benign (\<lambda>p. p\<lparr>ps_buffer := h p\<rparr>)" "benign (\<lambda>p. p\<lparr>ps_choked_by := b\<rparr>)"
  "benign (\<lambda>s. s\<lparr>ps_serve_queue := tl (ps_serve_queue s)\<rparr>)"
  "benign (\<lambda>p. if \<not> ps_banned p then p\<lparr>ps_reputation := min (ps_reputation p + REPUTATION_HEAL) 1\<rparr> else p)"
  by (auto simp: benign_def peer_ok_def REPUTATION_HEAL_def distinct_tl)

lemma inv_stats: "node_inv L P sid K (view n) \<Longrightarrow> node_inv L P sid K (view (n\<lparr>n_stats := st\<rparr>))"
  by (simp add: view)

lemma inv_accept:
  assumes "node_inv L P sid K (view n)" and "P s (segment_id_of L b)"
  shows "node_inv L P sid K (view (accept_segment ev p s (segment_id_of L b) b n))"
proof -
  obtain n2 asked where c: "clear_pending s (n\<lparr>n_stats := (n_stats n)\<lparr>ns_peer_bytes :=
      ns_peer_bytes (n_stats n) + of_nat (length b)\<rparr>\<rparr>) = (n2, asked)" by force
  then have "node_inv L P sid K (view n2)"
    using inv_clear_pending [OF inv_stats [OF assms(1)], of s] by (metis fst_conv)
  then show ?thesis
    using assms(2) unfolding accept_segment_def Let_def c
    by (auto intro!: inv_deliver inv_upd_peer split: option.split)
qed

subsection \<open>Push-ahead bytes\<close>

lemma inv_pvI:
  assumes "node_inv L P sid K v" and "pv_inv (v\<lparr>nv_pv := a, nv_pv_bytes := b\<rparr>)"
  shows "node_inv L P sid K (v\<lparr>nv_pv := a, nv_pv_bytes := b\<rparr>)"
  using assms by (simp add: node_inv_def inv_parts)

lemma pv_inv_remove:
  assumes V: "pv_inv v" and e: "hm_get (nv_pv v) s = Some (p, raw)"
  shows "pv_inv (v\<lparr>nv_pv := hm_remove s (nv_pv v), nv_pv_bytes := sat_sub (nv_pv_bytes v) (of_nat (length raw))\<rparr>)"
proof -
  have ok: "hm_ok (nv_pv v)" using V by (simp add: pv_inv_def)
  have sum: "unat (nv_pv_bytes v) = length raw + hm.total (\<lambda>(_, raw). length raw) (hm_remove s (nv_pv v))"
    using V hm.total_remove [OF ok e, of "\<lambda>(_, raw). length raw"] by (simp add: pv_inv_def)
  then have "length raw < 2 ^ 64" using unat_less_2p [of "nv_pv_bytes v"] by simp
  then have "unat (of_nat (length raw) :: u64) = length raw" by (simp add: unat_of_nat_exact)
  with sum show ?thesis
    using V ok order_trans [OF sat_sub_le] by (auto simp: pv_inv_def hm.ok_remove word_nat)
qed

lemma inv_drop_pending_verify:
  "node_inv L P sid K (view n) \<Longrightarrow> node_inv L P sid K (view (drop_pending_verify s n))"
  by (auto simp: view intro!: inv_pvI pv_inv_remove split: option.split prod.split) (simp add: node_inv_def)

lemma inv_buffer_pending_verify:
  assumes I: "node_inv L P sid K (view n)" and len: "length raw < 2 ^ 32"
  shows "node_inv L P sid K (view (buffer_pending_verify p s raw n))"
proof (cases "hm_has (nv_pv (view n)) s \<or> MAX_PENDING_VERIFY_BYTES < nv_pv_bytes (view n) + of_nat (length raw)")
  case True
  then show ?thesis using I by (simp add: view)
next
  case False
  let ?v = "view n"
  have V: "pv_inv ?v" using I by (simp add: node_inv_def)
  then have ok: "hm_ok (nv_pv ?v)" and b: "unat (nv_pv_bytes ?v) \<le> 8 * 1024 * 1024"
    by (simp_all add: pv_inv_def MAX_PENDING_VERIFY_BYTES_def word_le_nat_alt)
  have u: "unat (of_nat (length raw) :: u64) = length raw" using len by (simp add: unat_of_nat_exact)
  have sum: "unat (nv_pv_bytes ?v + of_nat (length raw)) = unat (nv_pv_bytes ?v) + length raw"
    using unat_plus_exact [of "nv_pv_bytes ?v" "of_nat (length raw)"] b len u by simp
  have none: "hm_get (nv_pv ?v) s = None" using False unfolding hm_has_def by blast
  have "hm.total (\<lambda>(_, raw). length raw) (hm_put s (p, raw) (nv_pv ?v)) =
      length raw + hm.total (\<lambda>(_, raw). length raw) (nv_pv ?v)"
    using hm.total_put [OF ok, of "\<lambda>(_, raw). length raw" s "(p, raw)"] hm.total_remove_absent [OF ok none] by simp
  with False V sum ok show ?thesis using I
    by (simp add: view) (rule inv_pvI, simp_all add: pv_inv_def hm.ok_put not_less)
qed

lemma inv_try_verify_pending:
  assumes I: "node_inv L P sid K (view n)" and L: "ev_libs ev = L"
  shows "node_inv L P sid K (view (try_verify_pending ev s n))"
proof (cases "hm_get (n_pending_verify n) s")
  case None
  then show ?thesis using I by (simp add: try_verify_pending_def)
next
  case (Some pr)
  obtain p raw where pr: "pr = (p, raw)" by (cases pr)
  let ?n = "n\<lparr>n_pending_verify := hm_remove s (n_pending_verify n),
      n_pending_verify_bytes := sat_sub (n_pending_verify_bytes n) (of_nat (length raw))\<rparr>"
  have "view ?n = (view n)\<lparr>nv_pv := hm_remove s (nv_pv (view n)),
      nv_pv_bytes := sat_sub (nv_pv_bytes (view n)) (of_nat (length raw))\<rparr>"
    by (simp add: view sel_view)
  then have I1: "node_inv L P sid K (view ?n)"
    using I Some pr by (simp add: sel_view) (rule inv_pvI, simp, rule pv_inv_remove, simp_all add: node_inv_def)
  have P: "P s i" if "hm_get (n_segment_ids n) s = Some i" for i
    using I that by (simp add: node_inv_def trust_inv_def sel_view)
  have "node_inv L P sid K (view (accept_segment ev p s i raw ?n))"
    if "hm_get (n_segment_ids n) s = Some i" "verify_segment L raw i" for i
  proof -
    have "segment_id_of L raw = i" using that(2) by (simp add: verify_segment_def segment_id_of_def)
    then show ?thesis using inv_accept [OF I1, of s raw] P [OF that(1)] by simp
  qed
  then show ?thesis
    using Some pr I1 L
    by (auto simp: try_verify_pending_def Let_def intro!: inv_penalize inv_stats split: option.split)
qed

subsection \<open>Edges and reassembled segments\<close>

lemma inv_ids:
  assumes "node_inv L P sid K v" and "P s i"
  shows "node_inv L P sid K (v\<lparr>nv_ids := hm_put s i (nv_ids v)\<rparr>)"
  using assms by (simp add: node_inv_def inv_parts hm.ok_put update_conv')

lemma inv_apply_edge:
  assumes "node_inv L P sid K (view n)" and "ev_libs ev = L" and "P s i"
  shows "node_inv L P sid K (view (apply_edge ev s i n))"
proof -
  have "view (n\<lparr>n_segment_ids := hm_put s i (n_segment_ids n), n_eng := (n_eng n)\<lparr>en_head_seq := h\<rparr>\<rparr>) =
      (view n)\<lparr>nv_ids := hm_put s i (nv_ids (view n))\<rparr>" for h
    by (simp add: view_def)
  then show ?thesis
    unfolding apply_edge_def using inv_ids [OF assms(1,3)] assms(2) by (intro inv_try_verify_pending) simp_all
qed

lemma rs_assemble_len: "rs_good r \<Longrightarrow> rs_assemble r = Some raw \<Longrightarrow> length raw < 2 ^ 32"
  using unat_less_2p [of "rs_buffered r"]
  by (auto simp: rs_good_def rs_ok_def rs_assemble_def chunk_sum_concat split: if_splits)

lemma inv_finish_segment:
  assumes I: "node_inv L P sid K (view n)" and L: "ev_libs ev = L" and r: "rs_good r"
  shows "node_inv L P sid K (view (finish_segment ev p s r n))"
proof (cases "hm_get (n_segment_ids n) s")
  case None
  then show ?thesis
    using I rs_assemble_len [OF r]
    by (auto simp: finish_segment_def Let_def intro!: inv_clear_pending inv_buffer_pending_verify split: option.split)
next
  case (Some i)
  then have P: "P s i" using I by (simp add: node_inv_def trust_inv_def sel_view)
  have "segment_id_of L data = i" if "rs_finish_verified L i r = Some data" for data
    using that by (auto simp: rs_finish_verified_def verify_segment_def segment_id_of_def split: bind_splits if_splits)
  then have "node_inv L P sid K (view (accept_segment ev p s i data n))"
    if "rs_finish_verified L i r = Some data" for data
    using inv_accept [OF I, of s data ev p] P that by fastforce
  then show ?thesis
    using Some I L
    by (auto simp: finish_segment_def intro!: inv_penalize inv_clear_pending inv_stats split: option.split)
qed

lemma rs_new_good: "n \<le> MAX_SEGMENT_BYTES \<Longrightarrow> rs_good (rs_new n)"
proof -
  assume "n \<le> MAX_SEGMENT_BYTES"
  moreover have "MAX_SEGMENT_BYTES < - 1" by (simp add: MAX_SEGMENT_BYTES_def)
  ultimately have "n < - 1" by (rule order_le_less_trans)
  then show ?thesis by (rule rs.new_good)
qed

text \<open>Adding a chunk: the counter moves by what the reassembler reports.\<close>

lemma reasm_inv_add:
  assumes R: "reasm_inv v" and bs: "length bs < 2 ^ 32" and n: "n \<le> MAX_SEGMENT_BYTES"
    and e: "e = (case hm_get (nv_reasm v) k of Some e \<Rightarrow> e | None \<Rightarrow> \<lparr>re_r = rs_new n, re_created_ms = t\<rparr>)"
    and room: "hm_get (nv_reasm v) k = None \<longrightarrow> length (nv_reasm v) < MAX_REASM"
    and add: "rs_add off bs (re_r e) = (r, added)"
  shows "reasm_inv (v\<lparr>nv_reasm := hm_put k (e\<lparr>re_r := r\<rparr>) (nv_reasm v), nv_reasm_bytes := nv_reasm_bytes v + of_nat added\<rparr>)
    \<and> rs_good r"
proof -
  let ?used = "\<lambda>e. unat (rs_buffered (re_r e))" and ?m = "nv_reasm v" and ?e = "e\<lparr>re_r := r\<rparr>"
  have ok: "hm_ok ?m" and sum: "unat (nv_reasm_bytes v) = hm.total ?used ?m" and len: "length ?m \<le> 64"
    and all: "\<And>k e. hm_get ?m k = Some e \<Longrightarrow> rs_good (re_r e) \<and> rs_total_len (re_r e) \<le> MAX_SEGMENT_BYTES"
    using R by (auto simp: reasm_inv_def MAX_REASM_def)
  have ge: "rs_good (re_r e)" "rs_total_len (re_r e) \<le> MAX_SEGMENT_BYTES"
    using all rs_new_good [OF n] n e by (auto split: option.splits) (simp add: rs_new_def)
  have gr: "rs_good r" "rs_total_len r = rs_total_len (re_r e)" "?used ?e = ?used e + added"
    using rs.add_good [OF ge(1) bs, of off] rs_total_add [of off bs "re_r e"] rs.add_used [OF ge(1) bs, of off] add
    by simp_all
  have old: "hm.total ?used ?m = (if hm_get ?m k = None then 0 else ?used e) + hm.total ?used (hm_remove k ?m)"
    using hm.total_remove [OF ok, of k _ ?used] hm.total_remove_absent [OF ok, of k ?used] e
    by (auto split: option.splits)
  have zero: "?used e = 0" if "hm_get ?m k = None" using that e by (simp add: rs_new_def)
  have new: "hm.total ?used (hm_put k ?e ?m) = hm.total ?used ?m + added"
    using hm.total_put [OF ok, of ?used k ?e] old zero gr(3) by (auto split: if_splits)
  have bound: "?used f \<le> 4 * 1024 * 1024" if "rs_good (re_r f)" "rs_total_len (re_r f) \<le> MAX_SEGMENT_BYTES" for f
    using rs.used_room [OF that(1)] that(2) by (simp add: word_le_nat_alt MAX_SEGMENT_BYTES_def)
  have "hm.total ?used ?m \<le> length ?m * (4 * 1024 * 1024)"
    using all bound by (intro hm.total_bound [OF ok]) blast
  also have "\<dots> \<le> 64 * (4 * 1024 * 1024)" using len by simp
  finally have tb: "hm.total ?used ?m \<le> 64 * (4 * 1024 * 1024)" .
  have "added \<le> 4 * 1024 * 1024" using bound [of ?e] gr ge by simp
  with tb sum have "unat (nv_reasm_bytes v + of_nat added) = unat (nv_reasm_bytes v) + added"
    using unat_plus_exact [of "nv_reasm_bytes v" "of_nat added"] by (simp add: unat_of_nat_exact)
  then show ?thesis
    using ok new sum gr ge all room len
    by (auto simp: reasm_inv_def hm.ok_put hm.len_put update_conv' MAX_REASM_def)
qed

lemma inv_on_segment_data:
  assumes I: "node_inv L P sid K (view n)" and L: "ev_libs ev = L" and bs: "length bs < 2 ^ 32"
  shows "node_inv L P sid K (view (on_segment_data ev p s tlen off bs n))"
proof -
  define e where "e = (case hm_get (n_reasm n) (p, s) of
      Some e \<Rightarrow> e | None \<Rightarrow> \<lparr>re_r = rs_new tlen, re_created_ms = n_now_ms n\<rparr>)"
  obtain r added where add: "rs_add off bs (re_r e) = (r, added)" by force
  define n1 where "n1 = n\<lparr>n_reasm := hm_put (p, s) (e\<lparr>re_r := r\<rparr>) (n_reasm n), n_reasm_bytes := n_reasm_bytes n + of_nat added\<rparr>"
  have step: "node_inv L P sid K (view n1) \<and> rs_good r"
    if "tlen \<le> MAX_SEGMENT_BYTES" "hm_has (n_reasm n) (p, s) \<or> length (n_reasm n) < MAX_REASM"
  proof -
    have "hm_get (n_reasm n) (p, s) = None \<longrightarrow> length (n_reasm n) < MAX_REASM"
      using that(2) unfolding hm_has_def by blast
    then have "reasm_inv ((view n)\<lparr>nv_reasm := hm_put (p, s) (e\<lparr>re_r := r\<rparr>) (nv_reasm (view n)),
        nv_reasm_bytes := nv_reasm_bytes (view n) + of_nat added\<rparr>) \<and> rs_good r"
      using I that(1) bs e_def add
      by (intro reasm_inv_add [where n = tlen and t = "n_now_ms n"]) (auto simp: node_inv_def sel_view)
    then show ?thesis using inv_reasmI [OF I] by (simp add: n1_def view sel_view)
  qed
  have fin: "node_inv L P sid K (view (finish_segment ev p s r
      (n1\<lparr>n_reasm := hm_remove (p, s) (n_reasm n1), n_reasm_bytes := sat_sub (n_reasm_bytes n1) (rs_buffered_bytes r)\<rparr>)))"
    if g: "node_inv L P sid K (view n1)" "rs_good r"
  proof -
    have "hm_get (nv_reasm (view n1)) (p, s) = Some (e\<lparr>re_r := r\<rparr>)" by (simp add: n1_def view update_conv')
    then have "reasm_inv ((view n1)\<lparr>nv_reasm := hm_remove (p, s) (nv_reasm (view n1)),
        nv_reasm_bytes := sat_sub (nv_reasm_bytes (view n1)) (rs_buffered_bytes r)\<rparr>)"
      using reasm_inv_remove [of "view n1" "(p, s)" "e\<lparr>re_r := r\<rparr>"] g(1) by (simp add: node_inv_def)
    from inv_reasmI [OF g(1) this] show ?thesis
      using L g(2) by (intro inv_finish_segment) (simp_all add: view sel_view)
  qed
  have eq: "on_segment_data ev p s tlen off bs n =
    (if bm_has (en_local (n_eng n)) s then n
     else if tlen = 0 \<or> MAX_SEGMENT_BYTES < tlen then n
     else if \<not> asked_this_peer p s n \<and> \<not> in_push_window s n then
        (if sat_add (en_head_seq (n_eng n)) (PUSH_AHEAD * 4) < s
            \<or> sat_add s (ucast (cfg_window (n_cfg n))) < en_play_seq (n_eng n)
         then penalize ev p ProtocolAbuse n else n)
     else if \<not> hm_has (n_reasm n) (p, s)
              \<and> (MAX_REASM \<le> length (n_reasm n) \<or> MAX_REASM_BYTES < sat_add (n_reasm_bytes n) (ucast tlen)) then n
     else if \<not> rs_is_complete r then n1
     else finish_segment ev p s r
            (n1\<lparr>n_reasm := hm_remove (p, s) (n_reasm n1), n_reasm_bytes := sat_sub (n_reasm_bytes n1) (rs_buffered_bytes r)\<rparr>))"
    unfolding on_segment_data_def Let_def e_def [symmetric] add prod.case n1_def [symmetric] ..
  show ?thesis
    unfolding eq using I step fin inv_penalize [OF I] by (simp add: not_less not_le)
qed

end
