(* ===== verification/Node_Reach.thy ===== *)
theory Node_Reach
  imports Node_Inv
begin

section \<open>The mesh node: every reachable state\<close>

text \<open>
  The remaining preservation lemmas (messages, connections, production, the durable floor
  and the blocks of the tick), the step relation of the actor loop, and the properties
  that follow for every reachable state.
\<close>

subsection \<open>Messages\<close>

lemma dec_bytes_len: "dec_bytes sc r = Some (b, r') \<Longrightarrow> length b < 2 ^ 32"
proof -
  assume "dec_bytes sc r = Some (b, r')"
  then obtain n r0 where "dec_array (unat (n :: u32)) r0 = Some (b, r')"
    by (auto simp: dec_bytes_def split: bind_splits prod.splits)
  then have "length b = unat n" by (auto simp: dec_array_def split: if_splits)
  then show ?thesis using unat_less_2p [of n] by simp
qed

lemma dec_segment_data: "dec_msg sc bs = Some (SegmentData s t n off b) \<Longrightarrow> length b < 2 ^ 32"
proof -
  assume "dec_msg sc bs = Some (SegmentData s t n off b)"
  then obtain tag r r' where "dec_fields sc tag r = Some (SegmentData s t n off b, r')"
    by (auto simp: dec_msg_def Option.bind_eq_Some_conv)
  then have "\<exists>r0 r1. dec_bytes sc r0 = Some (b, r1)"
    unfolding dec_fields_def
    by (simp only: Option.bind_eq_Some_conv split: if_split_asm) (auto simp: Option.bind_eq_Some_conv)
  then show ?thesis by (blast dest: dec_bytes_len)
qed

lemma benign_enqueue: "benign (enqueue_wants ss)"
proof -
  let ?f = "\<lambda>seq (p, stopped). if stopped \<or> SERVE_QUEUE_MAX \<le> length (ps_serve_queue p) then (p, True)
    else (if seq \<notin> set (ps_serve_queue p) then p\<lparr>ps_serve_queue := ps_serve_queue p @ [seq]\<rparr> else p, False)"
  have "ps_id (fst (fold ?f ss (p, b))) = ps_id p \<and> peer_ok (fst (fold ?f ss (p, b)))
      \<and> ps_pending_bytes (fst (fold ?f ss (p, b))) = ps_pending_bytes p" if "peer_ok p" for p b
    using that
  proof (induction ss arbitrary: p b)
    case (Cons s ss)
    have "peer_ok (p\<lparr>ps_serve_queue := ps_serve_queue p @ [s]\<rparr>)"
      if "length (ps_serve_queue p) < SERVE_QUEUE_MAX" "s \<notin> set (ps_serve_queue p)"
      using Cons.prems that by (simp add: peer_ok_def)
    then show ?case
      using Cons.IH [of p True] Cons.IH [of p False] Cons.IH [of "p\<lparr>ps_serve_queue := ps_serve_queue p @ [s]\<rparr>" False]
        Cons.prems by (auto simp: not_le)
  qed simp
  then show ?thesis by (simp add: benign_def enqueue_wants_def)
qed

lemma inv_learn_peer: "node_inv L P sid K (view n) \<Longrightarrow> node_inv L P sid K (view (learn_peer p n))"
  by (simp add: view) (auto simp: node_inv_def inv_parts length_hs_insert)

lemma inv_learn_peers: "node_inv L P sid K (view n) \<Longrightarrow> node_inv L P sid K (view (fold learn_peer ps n))"
  by (rule inv_fold [OF inv_learn_peer])

lemma inv_on_edge_announce:
  assumes I: "node_inv L P sid K (view n)" and L: "ev_libs ev = L"
    and signed: "\<And>k s i sg. k \<in> K \<Longrightarrow> verify_sr25519 L k (edge_payload L sid s i) sg \<Longrightarrow> P s i"
  shows "node_inv L P sid K (view (on_edge_announce ev p s i sg n))"
proof -
  have "P s i" if "n_publisher_key n = Some k" "verify_sr25519 L k (edge_payload L (n_stream_id n) s i) sg" for k
    using I that signed [of k s i sg] by (auto simp: node_inv_def trust_inv_def sel_view)
  moreover have "node_inv L P sid K (view (n\<lparr>n_edge_seen := es\<rparr>))" for es using I by (simp add: view)
  ultimately show ?thesis
    using I L by (auto simp: on_edge_announce_def view intro!: inv_apply_edge split: option.split)
qed

lemma inv_on_msg:
  assumes I: "node_inv L P sid K (view n)" and L: "ev_libs ev = L"
    and signed: "\<And>k s i sg. k \<in> K \<Longrightarrow> verify_sr25519 L k (edge_payload L sid s i) sg \<Longrightarrow> P s i"
    and m: "\<And>s t k off b. m = SegmentData s t k off b \<Longrightarrow> length b < 2 ^ 32"
  shows "node_inv L P sid K (view (on_msg ev p m n))"
proof (cases m)
  case (SegmentData s t k off b)
  then show ?thesis using m I L by (simp add: on_msg_def inv_on_segment_data)
next
  case (EdgeAnnounce s i sg)
  then show ?thesis using I L signed by (simp add: on_msg_def inv_on_edge_announce)
next
  case (Want ss d)
  then show ?thesis using I by (simp add: on_msg_def on_want_def inv_penalize inv_upd_peer benign_enqueue)
next
  case (PresenceGossip rs)
  then show ?thesis using I by (simp add: on_msg_def inv_penalize inv_learn_peers view)
next
  case (PeerGossip ps)
  then show ?thesis using I by (simp add: on_msg_def inv_penalize inv_learn_peers)
qed (use I in \<open>auto simp: on_msg_def on_buffer_map_def view inv_penalize inv_upd_peer inv_ensure_peer
      simp del: view_peer intro!: inv_upd_peer inv_ensure_peer inv_penalize split: option.split\<close>)

lemma inv_on_inbound:
  assumes "node_inv L P sid K (view n)" and L: "ev_libs ev = L"
    and "\<And>k s i sg. k \<in> K \<Longrightarrow> verify_sr25519 L k (edge_payload L sid s i) sg \<Longrightarrow> P s i"
  shows "node_inv L P sid K (view (on_inbound ev p bs n))"
  unfolding on_inbound_def
  using assms dec_segment_data [of L bs]
  by (auto intro!: inv_on_msg split: option.split)

subsection \<open>Connections\<close>

lemma inv_on_connected:
  "node_inv L P sid K (view n) \<Longrightarrow> node_inv L P sid K (view (on_connected ev p l n))"
proof -
  assume I: "node_inv L P sid K (view n)"
  have "view (on_connected ev p l n) = view n \<or> view (on_connected ev p l n) = view (ensure_peer p n)"
    by (auto simp: on_connected_def Let_def view split: option.split)
  then show ?thesis using I inv_ensure_peer [OF I] by metis
qed

text \<open>Dropping the requests of a peer whose record is already gone.\<close>

lemma inv_promote_hedge:
  assumes I: "node_inv L P sid K (view n)" and dead: "hm_get (nv_peers (view n)) p = None"
    and s: "hm_get (nv_pending (view n)) s = None \<or> (\<exists>t. hm_get (nv_pending (view n)) s = Some (p, t))"
  shows "node_inv L P sid K (view (promote_hedge s n))"
proof -
  let ?v = "view n" and ?w = "view (promote_hedge s n)"
  have ok: "hm_ok (nv_pending ?v)" "hm_ok (nv_hedge ?v)" using I by (simp_all add: node_inv_def req_inv_def)
  have cnt: "inflight_count q (nv_pending ?w) + inflight_count q (nv_hedge ?w) =
      inflight_count q (nv_pending ?v) + inflight_count q (nv_hedge ?v)" if "q \<noteq> p" for q
    using inflight_remove [OF ok(1), of q s] inflight_remove [OF ok(2), of q s] that s
      inflight_put [OF hm.ok_remove [OF ok(1)], of s s q]
    by (auto simp: view delete_conv' split: option.split)
  have "peers_inv ?w"
  proof -
    have "nv_peers ?w = nv_peers ?v" "nv_seg_bytes ?w = nv_seg_bytes ?v" by (simp_all add: view split: option.split)
    moreover have "q \<noteq> p" if "hm_get (nv_peers ?v) q = Some ps" for q ps using that dead by auto
    ultimately show ?thesis using I cnt by (auto simp: node_inv_def peers_inv_def)
  qed
  moreover have "req_inv ?w"
    using I ok by (auto simp: node_inv_def req_inv_def view hm.ok_remove hm.ok_put delete_conv' update_conv'
        split: option.split)
  moreover have "reasm_inv ?w \<and> pv_inv ?w \<and> known_inv ?w \<and> trust_inv L P sid K ?w \<and> up_inv ?w \<and> fb_inv ?w"
    using I by (simp add: node_inv_def inv_parts view split: option.split)
  ultimately show ?thesis by (simp add: node_inv_def)
qed

lemma promote_hedge_view:
  "nv_peers (view (promote_hedge s n)) = nv_peers (view n)"
  "r \<noteq> s \<Longrightarrow> hm_get (nv_pending (view (promote_hedge s n))) r = hm_get (nv_pending (view n)) r"
  by (simp_all add: view delete_conv' update_conv' split: option.split)

lemma inv_promote_all:
  assumes "node_inv L P sid K (view n)" and "hm_get (nv_peers (view n)) p = None" and "distinct ss"
    and "\<forall>s \<in> set ss. \<exists>t. hm_get (nv_pending (view n)) s = Some (p, t)"
  shows "node_inv L P sid K (view (fold promote_hedge ss n))
    \<and> nv_peers (view (fold promote_hedge ss n)) = nv_peers (view n)"
  using assms
proof (induction ss arbitrary: n)
  case (Cons s ss)
  have "node_inv L P sid K (view (promote_hedge s n))"
    using Cons.prems by (intro inv_promote_hedge) auto
  moreover have "\<forall>r \<in> set ss. \<exists>t. hm_get (nv_pending (view (promote_hedge s n))) r = Some (p, t)"
    using Cons.prems promote_hedge_view(2) [of _ s n] by (metis distinct.simps(2) list.set_intros(2))
  ultimately show ?case using Cons.IH [of "promote_hedge s n"] Cons.prems
    by (simp add: promote_hedge_view(1))
qed simp

lemma inv_drop_peer:
  assumes "node_inv L P sid K v"
  shows "node_inv L P sid K (v\<lparr>nv_peers := hm_remove p (nv_peers v)\<rparr>)"
proof -
  have "peers_inv (v\<lparr>nv_peers := hm_remove p (nv_peers v)\<rparr>)"
    using assms by (auto simp: node_inv_def peers_inv_def hm.ok_remove delete_conv' split: if_splits)
  with assms show ?thesis
    by (simp add: node_inv_def reasm_inv_def pv_inv_def known_inv_def req_inv_def trust_inv_def up_inv_def fb_inv_def)
qed

lemma inv_drop_hedges:
  assumes I: "node_inv L P sid K v" and dead: "hm_get (nv_peers v) p = None"
  shows "node_inv L P sid K (v\<lparr>nv_hedge := hm_retain (\<lambda>_ (q, _). q \<noteq> p) (nv_hedge v)\<rparr>)"
proof -
  let ?w = "v\<lparr>nv_hedge := hm_retain (\<lambda>_ (q, _). q \<noteq> p) (nv_hedge v)\<rparr>"
  have ok: "hm_ok (nv_hedge v)" using I by (simp add: node_inv_def req_inv_def)
  have "q \<noteq> p" if "hm_get (nv_peers v) q = Some ps" for q ps using that dead by auto
  then have "peers_inv ?w" using I by (auto simp: node_inv_def peers_inv_def inflight_retain_other)
  moreover have "req_inv ?w"
    using I ok by (auto simp: node_inv_def req_inv_def hm_get_retain split: option.splits if_splits)
  ultimately show ?thesis using I
    by (simp add: node_inv_def reasm_inv_def pv_inv_def known_inv_def trust_inv_def up_inv_def fb_inv_def)
qed

lemma inv_on_disconnected:
  assumes I: "node_inv L P sid K (view n)"
  shows "node_inv L P sid K (view (on_disconnected p n))"
proof -
  define n1 where "n1 = n\<lparr>n_links := hm_remove p (n_links n),
      n_eng := (n_eng n)\<lparr>en_peers := hm_remove p (n_peers n)\<rparr>, n_subscribers := hs_remove p (n_subscribers n)\<rparr>"
  define ss where "ss = map fst (filter (\<lambda>(_, (q, _)). q = p) (n_pending n1))"
  define n2 where "n2 = fold promote_hedge ss n1"
  have v1: "view n1 = (view n)\<lparr>nv_peers := hm_remove p (nv_peers (view n))\<rparr>" by (simp add: n1_def view_def)
  then have I1: "node_inv L P sid K (view n1)" using inv_drop_peer [OF I] by simp
  have dead: "hm_get (nv_peers (view n1)) p = None" by (simp add: v1 delete_conv')
  have ok: "hm_ok (nv_pending (view n1))" using I1 by (simp add: node_inv_def req_inv_def)
  have "distinct ss"
    using ok distinct_filter unfolding ss_def sel_view hm_ok_def
    by (metis (no_types, lifting) distinct_map_filter)
  moreover have "\<forall>s \<in> set ss. \<exists>t. hm_get (nv_pending (view n1)) s = Some (p, t)"
    using ok by (auto simp: ss_def sel_view hm.entries_iff)
  ultimately have I2: "node_inv L P sid K (view n2)" "nv_peers (view n2) = nv_peers (view n1)"
    using inv_promote_all [OF I1 dead] by (auto simp: n2_def)
  have "node_inv L P sid K (view (n2\<lparr>n_hedge := hm_retain (\<lambda>_ (q, _). q \<noteq> p) (n_hedge n2)\<rparr>))"
    using inv_drop_hedges [OF I2(1), of p] I2(2) dead by (simp add: view sel_view)
  from inv_remove_reasm_of [OF this] show ?thesis
    by (simp only: on_disconnected_def Let_def n1_def [symmetric] ss_def [symmetric] n2_def [symmetric])
qed

subsection \<open>Production, budget and the durable floor\<close>

lemma inv_on_produced:
  assumes I: "node_inv L P sid K (view n)" and P: "P s (segment_id_of L b)"
  shows "node_inv L P sid K (view (on_produced ev s (segment_id_of L b) b n))"
proof -
  let ?i = "segment_id_of L b" and ?n = "obtain_segment ev s (segment_id_of L b) b n"
  have "view (?n\<lparr>n_segment_ids := hm_put s ?i (n_segment_ids ?n), n_eng := (n_eng ?n)\<lparr>en_head_seq := h\<rparr>\<rparr>) =
      (view ?n)\<lparr>nv_ids := hm_put s ?i (nv_ids (view ?n))\<rparr>" for h by (simp add: view_def)
  then show ?thesis
    unfolding on_produced_def Let_def
    using inv_ids [OF inv_obtain [OF I P], of s ?i ev] P by (intro inv_push) (simp add: view_announce_produced)
qed

lemma unsigned_real_nonneg [simp]: "0 \<le> (unsigned (a :: 'a::len word) :: real)"
  using of_nat_0_le_iff [of "unat a"] by (simp only: of_nat_unat)

lemma burst_nonneg: "0 \<le> burst_of bps sb"
  by (simp add: burst_of_def le_max_iff_disj)

lemma inv_set_upload_budget:
  "node_inv L P sid K (view n) \<Longrightarrow> node_inv L P sid K (view (set_upload_budget bps n))"
  by (simp add: set_upload_budget_def Let_def view sel_view)
     (auto simp: node_inv_def inv_parts burst_nonneg)

lemma inv_set_cfg:
  "node_inv L P sid K (view n) \<Longrightarrow> cfg_upload_budget_bps (f (n_cfg n)) = cfg_upload_budget_bps (n_cfg n) \<Longrightarrow>
     node_inv L P sid K (view (set_cfg f n))"
  by (simp add: view sel_view)

lemma inv_request_fallback:
  "node_inv L P sid K (view n) \<Longrightarrow> node_inv L P sid K (view (request_fallback s n))"
  by (simp add: view split: option.split)
     (auto simp: node_inv_def inv_parts length_hs_insert)

lemma inv_on_fallback:
  assumes I: "node_inv L P sid K (view n)" and L: "ev_libs ev = L" and P: "P s i"
  shows "node_inv L P sid K (view (on_fallback ev s i bs n))"
proof -
  let ?n = "n\<lparr>n_fallback_inflight := hs_remove s (n_fallback_inflight n)\<rparr>"
  have I1: "node_inv L P sid K (view ?n)"
    using I order_trans [OF length_hs_remove_le] by (auto simp: view sel_view node_inv_def inv_parts)
  have "node_inv L P sid K (view (deliver_verified ev s i b ((fst (clear_pending s ?n))\<lparr>n_stats := st\<rparr>)))"
    if "verify_segment L b i" for b st
  proof -
    have "segment_id_of L b = i" using that by (simp add: verify_segment_def segment_id_of_def)
    then show ?thesis using inv_deliver [OF inv_stats [OF inv_clear_pending [OF I1]], of s b] P by simp
  qed
  then show ?thesis
    using I1 L by (auto simp: on_fallback_def Let_def split: option.split)
qed

subsection \<open>The tick\<close>

lemma inv_tick_prune: "node_inv L P sid K (view n) \<Longrightarrow> node_inv L P sid K (view (tick_prune ev n))"
proof -
  assume I: "node_inv L P sid K (view n)"
  obtain st d where p: "st_prune_below (ev_fault ev) (prune_floor n) (en_store (n_eng n)) (n_disk n) = (st, d)" by force
  have S: "store_inv L P st"
    using I store_inv_prune [of L P "en_store (n_eng n)" "ev_fault ev" "prune_floor n" "n_disk n"] p
    by (simp add: node_inv_def trust_inv_def sel_view)
  have "view (n\<lparr>n_last_prune_floor := prune_floor n,
      n_eng := (n_eng n)\<lparr>en_store := st, en_local := bm_prune_below (prune_floor n) (en_local (n_eng n))\<rparr>,
      n_disk := d, n_segment_ids := hm_retain (\<lambda>s _. prune_floor n \<le> s) (n_segment_ids n)\<rparr>) =
      (view n)\<lparr>nv_store := st, nv_ids := hm_retain (\<lambda>s _. prune_floor n \<le> s) (nv_ids (view n))\<rparr>"
    by (simp add: view_def)
  moreover have "node_inv L P sid K ((view n)\<lparr>nv_store := st, nv_ids := hm_retain (\<lambda>s _. prune_floor n \<le> s) (nv_ids (view n))\<rparr>)"
    using I S by (auto simp: node_inv_def inv_parts hm_get_retain split: option.splits if_splits)
  ultimately show ?thesis using I p by (auto simp: tick_prune_def Let_def)
qed

lemma inv_tick_tokens: "node_inv L P sid K (view n) \<Longrightarrow> node_inv L P sid K (view (tick_tokens n))"
  by (simp add: tick_tokens_def Let_def view sel_view)
     (auto simp: node_inv_def inv_parts burst_nonneg)

lemma inv_charge:
  "node_inv L P sid K (view n) \<Longrightarrow> 0 \<le> cost \<Longrightarrow> charge cost n = Some n' \<Longrightarrow> node_inv L P sid K (view n')"
  by (auto simp: charge_def view sel_view intro!: inv_tokens split: if_splits)

lemma inv_pop_serve: "node_inv L P sid K (view n) \<Longrightarrow> node_inv L P sid K (view (pop_serve p n))"
  unfolding pop_serve_def by (rule inv_upd_peer) simp_all

lemma inv_serve_one:
  assumes I: "node_inv L P sid K (view n)" and "serve_one ev p s n = Some (k, n')"
  shows "node_inv L P sid K (view n')"
proof -
  have pop: "node_inv L P sid K (view (pop_serve p m))" if "charge cost n = Some m" "0 \<le> cost" for cost m
    using inv_pop_serve [OF inv_charge [OF I that(2,1)]] .
  show ?thesis
    using assms(2) inv_pop_serve [OF I]
    by (auto simp: serve_one_def Let_def Option.bind_eq_Some_conv view_send view_emit
        split: segment_location.splits option.splits) (rule pop, assumption, simp)+
qed

lemma inv_serve_loop: "node_inv L P sid K (view n) \<Longrightarrow> node_inv L P sid K (view (serve_loop ev p served n))"
proof (induction ev p served n rule: serve_loop.induct)
  case (1 ev p served n)
  then show ?case
    by (subst serve_loop.simps) (auto split: option.split dest: inv_serve_one)
qed

lemma inv_tick_serve: "node_inv L P sid K (view n) \<Longrightarrow> node_inv L P sid K (view (tick_serve ev n))"
  unfolding tick_serve_def by (rule inv_fold) (simp_all add: inv_serve_loop)

lemma inv_tick_expire: "node_inv L P sid K (view n) \<Longrightarrow> node_inv L P sid K (view (tick_expire ev n))"
  unfolding tick_expire_def
proof (rule inv_fold)
  fix s n assume "node_inv L P sid K (view n)"
  then have "node_inv L P sid K (view (fst (clear_pending s n)))" by (rule inv_clear_pending)
  then show "node_inv L P sid K (view (expire_one ev s n))"
    by (auto simp: expire_one_def inv_penalize inv_remove_reasm split: prod.split option.split)
qed

lemma inv_tick_sweeps:
  assumes "node_inv L P sid K (view n)"
  shows "node_inv L P sid K (view (tick_reasm_ttl n))" "node_inv L P sid K (view (tick_pending_verify n))"
  using assms unfolding tick_reasm_ttl_def tick_pending_verify_def
  by (auto intro: inv_fold inv_remove_reasm inv_drop_pending_verify)

lemma inv_recompute_unchokes:
  assumes I: "node_inv L P sid K (view n)"
  shows "node_inv L P sid K (view (recompute_unchokes ev n))"
proof -
  have tell: "view (fold (\<lambda>i n. case hm_get (n_links n) i of Some l \<Rightarrow> send_msg ev l m n | None \<Rightarrow> n) xs n) = view n" for m xs n
    by (rule view_fold) (simp add: view split: option.split)
  have get: "map_of (map (\<lambda>(i, p). (i, g i p)) m) j = map_option (g j) (map_of m j)" for g j and m :: "(peer_id, peer_state) hash_map"
    by (induction m) auto
  have "node_inv L P sid K ((view n)\<lparr>nv_peers := map (\<lambda>(i, p). (i, p\<lparr>ps_choked := i \<notin> c\<rparr>)) (nv_peers (view n))\<rparr>)" for c
  proof -
    have "hm_ok (map (\<lambda>(i, p). (i, p\<lparr>ps_choked := i \<notin> c\<rparr>)) (nv_peers (view n))) = hm_ok (nv_peers (view n))"
      unfolding hm_ok_def by (rule arg_cong [where f = distinct]) auto
    then have "peers_inv ((view n)\<lparr>nv_peers := map (\<lambda>(i, p). (i, p\<lparr>ps_choked := i \<notin> c\<rparr>)) (nv_peers (view n))\<rparr>)"
      using I by (auto simp: node_inv_def peers_inv_def get peer_ok_def)
    then show ?thesis using I
      by (simp add: node_inv_def reasm_inv_def pv_inv_def known_inv_def req_inv_def trust_inv_def up_inv_def fb_inv_def)
  qed
  moreover have "view (n\<lparr>n_last_choke_ms := a, n_optimistic_rr := b, n_eng := (n_eng n)\<lparr>en_peers := ps\<rparr>\<rparr>) =
      (view n)\<lparr>nv_peers := ps\<rparr>" for a b ps by (simp add: view_def)
  ultimately show ?thesis using I
    by (simp add: recompute_unchokes_def Let_def tell sel_view(9)) (simp add: view)
qed

lemma issue_want_budget:
  assumes ps: "peers_inv v" and ok: "hm_ok (nv_pending v)" "hm_ok (nv_hedge v)"
    and new: "\<And>q. inflight_count q pend + inflight_count q hedge =
        (if q = p then 1 else 0) + (inflight_count q (nv_pending v) + inflight_count q (nv_hedge v))"
  shows "peers_inv (v\<lparr>nv_pending := pend, nv_hedge := hedge, nv_peers :=
    hm_modify p (\<lambda>s. s\<lparr>ps_pending_bytes := sat_add (ps_pending_bytes s) (nv_seg_bytes v)\<rparr>) (nv_peers v)\<rparr>)"
proof -
  have "unat (sat_add a b) \<le> unat b * (1 + c)" if "unat a \<le> unat b * c" for a b :: u64 and c
    using that by (simp add: word_nat)
  then show ?thesis using ps by (auto simp: peers_inv_def new peer_ok_def split: if_splits)
qed

lemma inv_issue_want:
  assumes I: "node_inv L P sid K (view n)"
  shows "node_inv L P sid K (view (issue_want ev r p n))"
proof -
  let ?v = "view n" and ?s = "rq_seq r" and ?now = "n_now_ms n"
  let ?upd = "\<lambda>s. s\<lparr>ps_pending_bytes := sat_add (ps_pending_bytes s) (nv_seg_bytes ?v)\<rparr>"
  have R: "req_inv ?v" and PI: "peers_inv ?v" using I by (simp_all add: node_inv_def)
  have ok: "hm_ok (nv_pending ?v)" "hm_ok (nv_hedge ?v)" using R by (simp_all add: req_inv_def)
  have nohedge: "hm_get (nv_hedge ?v) ?s = None" if "hm_get (nv_pending ?v) ?s = None"
  proof (rule ccontr)
    assume "hm_get (nv_hedge ?v) ?s \<noteq> None"
    then obtain a b where "hm_get (nv_hedge ?v) ?s = Some (a, b)" by auto
    then have "\<exists>q u. hm_get (nv_pending ?v) ?s = Some (q, u)" using R unfolding req_inv_def by blast
    with that show False by auto
  qed
  have rest: "node_inv L P sid K (?v\<lparr>nv_pending := a, nv_hedge := b, nv_peers := c\<rparr>)"
    if "req_inv (?v\<lparr>nv_pending := a, nv_hedge := b, nv_peers := c\<rparr>)" "peers_inv (?v\<lparr>nv_pending := a, nv_hedge := b, nv_peers := c\<rparr>)" for a b c
    using I that by (simp add: node_inv_def reasm_inv_def pv_inv_def known_inv_def trust_inv_def up_inv_def fb_inv_def)
  have prim: "node_inv L P sid K (?v\<lparr>nv_pending := hm_put ?s (p, ?now) (nv_pending ?v), nv_hedge := nv_hedge ?v,
      nv_peers := hm_modify p ?upd (nv_peers ?v)\<rparr>)" if "hm_get (nv_pending ?v) ?s = None"
  proof (rule rest)
    show "req_inv (?v\<lparr>nv_pending := hm_put ?s (p, ?now) (nv_pending ?v), nv_hedge := nv_hedge ?v,
        nv_peers := hm_modify p ?upd (nv_peers ?v)\<rparr>)"
      using R nohedge [OF that] by (auto simp: req_inv_def hm.ok_put update_conv')
  qed (rule issue_want_budget [OF PI ok], use inflight_put [OF ok(1) that] in auto)
  have sec: "node_inv L P sid K (?v\<lparr>nv_pending := nv_pending ?v, nv_hedge := hm_put ?s (p, ?now) (nv_hedge ?v),
      nv_peers := hm_modify p ?upd (nv_peers ?v)\<rparr>)"
    if "hm_get (nv_pending ?v) ?s = Some (q, t)" "q \<noteq> p" "hm_get (nv_hedge ?v) ?s = None" for q t
  proof (rule rest)
    show "req_inv (?v\<lparr>nv_pending := nv_pending ?v, nv_hedge := hm_put ?s (p, ?now) (nv_hedge ?v),
        nv_peers := hm_modify p ?upd (nv_peers ?v)\<rparr>)"
      using R that by (auto simp: req_inv_def hm.ok_put update_conv')
  qed (rule issue_want_budget [OF PI ok], use inflight_put [OF ok(2) that(3)] in auto)
  have eq1: "view (upd_peer p (\<lambda>s. s\<lparr>ps_pending_bytes := sat_add (ps_pending_bytes s) (en_seg_bytes (n_eng m))\<rparr>)
      (m\<lparr>n_pending := hm_put ?s (p, ?now) (n_pending m)\<rparr>)) =
      ?v\<lparr>nv_pending := hm_put ?s (p, ?now) (nv_pending ?v), nv_hedge := nv_hedge ?v, nv_peers := hm_modify p ?upd (nv_peers ?v)\<rparr>"
    if "view m = ?v" for m using that by (simp add: view sel_view)
  have eq2: "view (upd_peer p (\<lambda>s. s\<lparr>ps_pending_bytes := sat_add (ps_pending_bytes s) (en_seg_bytes (n_eng m))\<rparr>)
      (m\<lparr>n_hedge := hm_put ?s (p, ?now) (n_hedge m)\<rparr>)) =
      ?v\<lparr>nv_pending := nv_pending ?v, nv_hedge := hm_put ?s (p, ?now) (nv_hedge ?v), nv_peers := hm_modify p ?upd (nv_peers ?v)\<rparr>"
    if "view m = ?v" for m using that by (simp add: view sel_view)
  have now: "n_now_ms (send_msg ev l m n) = n_now_ms n" for l m by (simp add: send_msg_def emit_def)
  show ?thesis
  proof (cases "hm_get (n_pending n) ?s")
    case None
    then have "hm_get (nv_pending ?v) ?s = None" by (simp add: sel_view)
    from prim [OF this] eq1 [OF view_send(1)] None I show ?thesis
      by (auto simp: issue_want_def Let_def now split: option.split)
  next
    case (Some qt)
    obtain q t where qt: "qt = (q, t)" by (cases qt)
    show ?thesis
    proof (cases "\<not> rq_redundant r \<or> q = p \<or> hm_has (n_hedge n) ?s")
      case True
      then show ?thesis using Some qt I by (auto simp: issue_want_def Let_def)
    next
      case False
      then have h: "hm_get (nv_hedge ?v) ?s = None" "q \<noteq> p" unfolding hm_has_def sel_view by blast+
      have "hm_get (nv_pending ?v) ?s = Some (q, t)" using Some qt by (simp add: sel_view)
      from sec [OF this h(2,1)] eq2 [OF view_send(1)] False Some qt I show ?thesis
        by (auto simp: issue_want_def Let_def now split: option.split)
    qed
  qed
qed

lemma inv_issue_request: "node_inv L P sid K (view n) \<Longrightarrow> node_inv L P sid K (view (issue_request ev r n))"
  by (simp add: issue_request_def inv_issue_want inv_request_fallback split: source.split)

lemma inv_tick_requests: "node_inv L P sid K (view n) \<Longrightarrow> node_inv L P sid K (view (tick_requests ev n))"
  unfolding tick_requests_def
  by (auto simp: view_other intro!: inv_fold inv_issue_request split: prod.split)

lemma inv_on_tick:
  assumes "node_inv L P sid K (view n)"
  shows "node_inv L P sid K (view (on_tick ev n))"
proof -
  have "node_inv L P sid K (view (tick_pending_verify (tick_reasm_ttl (tick_expire ev (tick_serve ev
      (tick_tokens (tick_prune ev (tick_follow ev n))))))))"
    using assms by (intro inv_tick_sweeps inv_tick_expire inv_tick_serve inv_tick_tokens inv_tick_prune)
      (simp add: view_tick_follow)
  then show ?thesis
    unfolding on_tick_def Let_def
    by (intro inv_tick_requests) (simp add: view_tick_messages view_tick_edges tick_choke_def inv_recompute_unchokes)
qed

subsection \<open>The actor loop\<close>

text \<open>
  What the node may treat as the content id of a sequence number: what the local pipeline
  or the chain poll told it (\<open>A\<close>), or what a publisher key it was given (\<open>K\<close>) has signed
  for this stream.
\<close>

definition auth :: "libs \<Rightarrow> stream_id \<Rightarrow> (u64 \<times> segment_id) set \<Rightarrow> bytes set \<Rightarrow> u64 \<Rightarrow> segment_id \<Rightarrow> bool" where
  "auth L sid A K s i \<longleftrightarrow> (s, i) \<in> A \<or> (\<exists>k \<in> K. \<exists>sg. verify_sr25519 L k (edge_payload L sid s i) sg)"

definition edges_of :: "engine_event \<Rightarrow> (u64 \<times> segment_id) set" where
  "edges_of e = (case e of Produced s i _ \<Rightarrow> {(s, i)} | LiveEdge s i \<Rightarrow> {(s, i)} | _ \<Rightarrow> {})"

definition keys_of :: "engine_event \<Rightarrow> bytes set" where
  "keys_of e = (case e of SetPublisherKey k \<Rightarrow> {k} | _ \<Rightarrow> {})"

text \<open>The segmenter content-addresses what it produces.\<close>

definition event_ok :: "libs \<Rightarrow> engine_event \<Rightarrow> bool" where
  "event_ok L e = (case e of Produced _ i b \<Rightarrow> i = segment_id_of L b | _ \<Rightarrow> True)"

text \<open>
  One rule per arm of the actor's \<open>select\<close> loop (the ticker, the inbox, a completed
  durable-floor fetch), per constructor and builder, and one for what other tasks do to
  the maps and the directory the node shares with them.
\<close>

inductive node_reach :: "libs \<Rightarrow> stream_id \<Rightarrow> (u64 \<times> segment_id) set \<Rightarrow> bytes set \<Rightarrow> mesh_node \<Rightarrow> bool"
  for L :: libs and sid :: stream_id where
  viewer: "hm_ok ids \<Longrightarrow> node_reach L sid (set ids) {} (with_stream_id sid (new_viewer seed me cfg sb ids h d))"
| seed: "hm_ok ids \<Longrightarrow> node_reach L sid (set ids) {} (with_stream_id sid (new_seed seed me cfg sb ids h d))"
| live: "node_reach L sid {} {} (with_stream_id sid (new_live_publisher seed me cfg sb d))"
| vod: "ev_libs ev = L \<Longrightarrow>
    node_reach L sid ((\<lambda>j. (of_nat j, segment_id_of L (segs ! j))) ` {..<length segs}) {}
      (with_stream_id sid (new_publisher ev seed me cfg sb segs d))"
| signer: "node_reach L sid A K n \<Longrightarrow> node_reach L sid A K (with_edge_signer f n)"
| key: "node_reach L sid A K n \<Longrightarrow> node_reach L sid A (insert k K) (with_publisher_key k n)"
| stats: "node_reach L sid A K n \<Longrightarrow> node_reach L sid A K (with_stats n)"
| floor: "node_reach L sid A K n \<Longrightarrow> node_reach L sid A K (with_fallback n)"
| shared: "node_reach L sid A K n \<Longrightarrow>
    node_reach L sid A K (n\<lparr>n_presence_book := book, n_ban_list := bans, n_disk := d\<rparr>)"
| event: "node_reach L sid A K n \<Longrightarrow> ev_libs ev = L \<Longrightarrow> event_ok L e \<Longrightarrow>
    node_reach L sid (A \<union> edges_of e) (K \<union> keys_of e) (on_event ev e n)"
| tick: "node_reach L sid A K n \<Longrightarrow> ev_libs ev = L \<Longrightarrow> node_reach L sid A K (run_tick ev ms n)"
| fetched: "node_reach L sid A K n \<Longrightarrow> ev_libs ev = L \<Longrightarrow> SpawnFetch s i \<in> set (n_out n) \<Longrightarrow>
    node_reach L sid A K (on_fallback ev s i bs n)"

lemma inv_mono:
  assumes "node_inv L P sid K v" and "\<And>s i. P s i \<Longrightarrow> Q s i" and "K \<subseteq> M"
  shows "node_inv L Q sid M v"
proof -
  have "trust_inv L P sid K v" using assms(1) by (simp add: node_inv_def)
  then have "trust_inv L Q sid M v"
    using assms(2,3) unfolding trust_inv_def store_inv_def by (meson subset_trans)
  with assms(1) show ?thesis by (simp add: node_inv_def)
qed

lemma inv_on_event:
  assumes I: "node_inv L P sid K (view n)" and L: "ev_libs ev = L" and ok: "event_ok L e"
    and signed: "\<And>k s i sg. k \<in> K \<Longrightarrow> verify_sr25519 L k (edge_payload L sid s i) sg \<Longrightarrow> P s i"
    and edges: "\<And>s i. (s, i) \<in> edges_of e \<Longrightarrow> P s i" and keys: "keys_of e \<subseteq> K"
  shows "node_inv L P sid K (view (on_event ev e n))"
proof (cases e)
  case (Produced s i b)
  then have "i = segment_id_of L b" "P s i" using ok edges by (auto simp: event_ok_def edges_of_def)
  then show ?thesis using Produced I inv_on_produced [of L P sid K n s b ev] by (simp add: on_event_def)
next
  case (LiveEdge s i)
  then show ?thesis using I L edges by (simp add: on_event_def edges_of_def inv_apply_edge)
next
  case (SetPublisherKey k)
  then show ?thesis using I keys by (simp add: on_event_def view keys_of_def) (simp add: node_inv_def inv_parts)
next
  case (Inbound p c bs)
  then show ?thesis using I L signed by (simp add: on_event_def inv_on_inbound)
next
  case (SetRole r)
  then show ?thesis using I by (simp add: on_event_def inv_set_cfg)
next
  case (SetSegMs ms)
  then show ?thesis using I by (simp add: on_event_def inv_set_cfg)
qed (use I in \<open>simp_all add: on_event_def inv_on_connected inv_on_disconnected view_init_segment
      inv_set_upload_budget inv_on_tick\<close>)

lemma inv_with_engine:
  assumes "hm_ok ids" and "\<And>s i. hm_get ids s = Some i \<Longrightarrow> P s i" and "store_inv L P (en_store eng)"
    and "en_peers eng = []"
  shows "node_inv L P sid {} (view (with_stream_id sid (with_engine seed me eng disc ids d)))"
  using assms
  by (simp add: with_stream_id_def with_engine_def view_def node_inv_def inv_parts burst_nonneg hm.total_def
      inflight_count_def)

lemma preload_inv:
  assumes "ev_libs ev = L" and "store_inv L P (en_store eng)" and "hm_ok ids"
    and "\<forall>s i. hm_get ids s = Some i \<longrightarrow> P s i" and "en_peers eng = []"
    and "\<forall>j < length bs. P (of_nat (k + j)) (segment_id_of L (bs ! j))"
  shows "case preload ev k bs (eng, ids, d) of (eng', ids', d') \<Rightarrow>
    store_inv L P (en_store eng') \<and> hm_ok ids' \<and> (\<forall>s i. hm_get ids' s = Some i \<longrightarrow> P s i) \<and> en_peers eng' = []"
  using assms(2-)
proof (induction bs arbitrary: k eng ids d)
  case (Cons b bs)
  let ?i = "segment_id_of L b"
  obtain st d' where ins: "st_insert (ev_fault ev) (of_nat k) ?i b (en_store eng) d = (st, d')" by force
  have P: "P (of_nat k) ?i" using Cons.prems(5) by (auto dest: spec [of _ 0])
  have "store_inv L P st" using store_inv_insert [OF Cons.prems(1), of "of_nat k" b "ev_fault ev" d] P ins by simp
  moreover have "\<forall>j < length bs. P (of_nat (k + 1 + j)) (segment_id_of L (bs ! j))"
  proof (intro allI impI)
    fix j assume "j < length bs"
    then have "P (of_nat (k + Suc j)) (segment_id_of L ((b # bs) ! Suc j))"
      using Cons.prems(5) by (simp only: length_Cons Suc_less_eq)
    then show "P (of_nat (k + 1 + j)) (segment_id_of L (bs ! j))" by simp
  qed
  moreover have "\<forall>s i. hm_get (hm_put (of_nat k) ?i ids) s = Some i \<longrightarrow> P s i"
    using Cons.prems(3) P by (simp add: update_conv')
  ultimately show ?case
    using Cons.IH [where k = "k + 1" and ids = "hm_put (of_nat k) ?i ids" and d = d'
        and eng = "eng\<lparr>en_store := st, en_local := bm_set (of_nat k) (en_local eng)\<rparr>"]
      Cons.prems(2,4) ins assms(1) by (simp add: hm.ok_put Let_def)
qed simp

lemma store_inv_new: "store_inv L P (st_new c)"
  by (simp add: store_inv_def st_new_def)

lemma engine_new_simps [simp]:
  "en_store (engine_new cfg sb) = st_new 4096" "en_peers (engine_new cfg sb) = []"
  "en_store (fetching_engine cfg sb h) = st_new 4096" "en_peers (fetching_engine cfg sb h) = []"
  by (simp_all add: engine_new_def fetching_engine_def)

lemma node_reach_inv:
  assumes "node_reach L sid A K n"
  shows "node_inv L (auth L sid A K) sid K (view n)"
  using assms
proof (induction rule: node_reach.induct)
  case (viewer ids seed me cfg sb h d)
  then show ?case unfolding new_viewer_def
    by (intro inv_with_engine) (auto simp: store_inv_new auth_def hm.entries_iff)
next
  case (seed ids seed me cfg sb h d)
  then show ?case unfolding new_seed_def
    by (intro inv_with_engine) (auto simp: store_inv_new auth_def hm.entries_iff)
next
  case (live seed me cfg sb d)
  show ?case unfolding new_live_publisher_def by (intro inv_with_engine) (auto simp: store_inv_new)
next
  case (vod ev segs seed me cfg sb d)
  let ?P = "auth L sid ((\<lambda>j. (of_nat j, segment_id_of L (segs ! j))) ` {..<length segs}) {}"
  obtain eng ids d' where pre: "preload ev 0 segs (engine_new cfg sb, [], d) = (eng, ids, d')" by (metis prod_cases3)
  have "\<forall>j < length segs. ?P (of_nat (0 + j)) (segment_id_of L (segs ! j))" by (auto simp: auth_def)
  from preload_inv [where k = 0 and ids = "[]" and d = d and P = ?P, OF vod _ _ _ _ this, of "engine_new cfg sb"] pre
  show ?case by (auto simp: new_publisher_def store_inv_new intro!: inv_with_engine)
next
  case (key A K n k)
  have "node_inv L (auth L sid A (insert k K)) sid (insert k K) (view n)"
    using key.IH by (rule inv_mono) (auto simp: auth_def)
  then show ?case by (simp add: with_publisher_key_def view) (simp add: node_inv_def inv_parts)
next
  case (event A K n ev e)
  let ?P = "auth L sid (A \<union> edges_of e) (K \<union> keys_of e)"
  have "node_inv L ?P sid (K \<union> keys_of e) (view n)"
    using event.IH by (rule inv_mono) (auto simp: auth_def)
  from inv_on_event [OF this event.hyps(2,3)] show ?case unfolding auth_def by blast
next
  case (tick A K n ev ms)
  then show ?case by (simp add: run_tick_def inv_on_tick view)
next
  case (fetched A K n ev s i bs)
  then have "SpawnFetch s i \<in> set (nv_out (view n))" by (simp add: view_def)
  then have "auth L sid A K s i" using fetched.IH by (simp add: node_inv_def trust_inv_def)
  then show ?case using fetched by (intro inv_on_fallback) auto
qed (simp_all add: with_edge_signer_def with_stats_def with_fallback_def view view_def)

end
