(* ===== verification/Node_Props.thy ===== *)
theory Node_Props
  imports Node_Reach
begin

section \<open>The mesh node: properties\<close>

text \<open>
  What holds of every node the actor loop can reach, whatever its peers send, and the
  behaviour of single operations: penalties and bans, upload slots, the sliding window.
\<close>

subsection \<open>A node that is handed a segment\<close>

text \<open>
  A viewer learns one edge from the chain and is then pushed the segment's bytes by a peer.
\<close>

definition demo_env :: env where
  "demo_env = \<lparr>ev_libs = toy_libs, ev_gen = (\<lambda>g. (1 / 2, g)), ev_fault = no_fault, ev_now = 0, ev_play_head = 0\<rparr>"

definition demo_viewer :: mesh_node where
  "demo_viewer = with_stream_id [7] (new_viewer (\<lambda>_. 0) [1] default_config 1000 [] 0 (\<lambda>_. None))"

definition demo_bytes :: bytes where
  "demo_bytes = [10, 20, 30]"

definition demo_edge :: mesh_node where
  "demo_edge = on_event demo_env (LiveEdge 5 (segment_id_of toy_libs demo_bytes)) demo_viewer"

definition demo_run :: mesh_node where
  "demo_run = on_event demo_env (Inbound [2] Bulk (enc_msg toy_libs (SegmentData 5 0 3 0 demo_bytes))) demo_edge"

lemma demo_env_libs [simp]: "ev_libs demo_env = toy_libs"
  by (simp add: demo_env_def)

lemma demo_viewer_reach: "node_reach toy_libs [7] {} {} demo_viewer"
  unfolding demo_viewer_def using node_reach.viewer [of "[]" toy_libs "[7]"] by simp

lemma demo_reach: "node_reach toy_libs [7] {(5, segment_id_of toy_libs demo_bytes)} {} demo_run"
proof -
  have L: "ev_libs demo_env = toy_libs" by (simp add: demo_env_def)
  from node_reach.event [OF node_reach.event [OF demo_viewer_reach L, of "LiveEdge 5 (segment_id_of toy_libs demo_bytes)"]
      L, of "Inbound [2] Bulk (enc_msg toy_libs (SegmentData 5 0 3 0 demo_bytes))"]
  show ?thesis by (simp add: demo_run_def demo_edge_def event_ok_def edges_of_def keys_of_def)
qed

lemma demo_decodes: "dec_msg toy_libs (enc_msg toy_libs (SegmentData 5 0 3 0 demo_bytes)) = Some (SegmentData 5 0 3 0 demo_bytes)"
  using scale_codec.dec_msg_enc [OF toy_scale.scale_codec_axioms, of "SegmentData 5 0 3 0 demo_bytes" "[]"]
  by (simp add: wf_msg_def wf_bytes_def demo_bytes_def)

lemma demo_reassembles:
  "rs_add 0 demo_bytes (rs_new 3) = (\<lparr>rs_total_len = 3, rs_chunks = [(0, demo_bytes)], rs_buffered = 3\<rparr>, 3)"
  by (simp add: rs_add_def rs_new_def Let_def demo_bytes_def sat_add_def)

lemma demo_complete:
  "rs_is_complete \<lparr>rs_total_len = 3, rs_chunks = [(0, demo_bytes)], rs_buffered = 3\<rparr>"
  "rs_finish_verified toy_libs (segment_id_of toy_libs demo_bytes)
     \<lparr>rs_total_len = 3, rs_chunks = [(0, demo_bytes)], rs_buffered = 3\<rparr> = Some demo_bytes"
  by (simp_all add: rs_is_complete_def rs_finish_verified_def rs_assemble_def verify_segment_def
      segment_id_of_def demo_bytes_def sat_add_def)

lemma demo_edge_fields:
  "en_peers (n_eng demo_edge) = []" "en_local (n_eng demo_edge) = bm_new 0" "n_pending demo_edge = []"
  "n_hedge demo_edge = []" "en_play_seq (n_eng demo_edge) = 0" "en_head_seq (n_eng demo_edge) = 5"
  "n_reasm demo_edge = []" "n_reasm_bytes demo_edge = 0" "n_subscribers demo_edge = []"
  "n_segment_ids demo_edge = [(5, segment_id_of toy_libs demo_bytes)]" "n_discard_sink demo_edge = False"
  "n_out demo_edge = []"
  by (simp_all add: demo_edge_def on_event_def demo_viewer_def with_stream_id_def new_viewer_def with_engine_def
      fetching_engine_def engine_new_def apply_edge_def try_verify_pending_def)

lemma push_kept:
  assumes "x \<in> set (n_out n)" and "is_out x"
  shows "x \<in> set (n_out (push_to_subscribers ev s n))"
proof -
  have "nv_out (view (push_to_subscribers ev s n)) = nv_out (view n)"
    using view_push_to_subscribers [of n ev s] by auto
  moreover have "x \<in> set (nv_out (view n))" using assms by (simp add: view_def)
  ultimately have "x \<in> set (nv_out (view (push_to_subscribers ev s n)))" by simp
  then show ?thesis by (simp add: view_def)
qed

lemma discard_sink_frame [simp]:
  "n_discard_sink (upd_peer p f n) = n_discard_sink n"
  "n_discard_sink (fst (clear_pending s n)) = n_discard_sink n"
  "n_discard_sink (obtain_segment ev s i b n) = n_discard_sink n"
  by (simp_all add: upd_peer_def clear_pending_def obtain_segment_def store_insert_def Let_def
      split: option.split prod.split)

lemma deliver_pushes:
  "\<not> n_discard_sink n \<Longrightarrow> PushSegment s b \<in> set (n_out (deliver_verified ev s i b n))"
  unfolding deliver_verified_def by (rule push_kept) (simp_all add: sink_push_def emit_def)

lemma accept_pushes:
  assumes "\<not> n_discard_sink n"
  shows "PushSegment s b \<in> set (n_out (accept_segment ev p s i b n))"
proof -
  let ?n = "n\<lparr>n_stats := (n_stats n)\<lparr>ns_peer_bytes := ns_peer_bytes (n_stats n) + of_nat (length b)\<rparr>\<rparr>"
  obtain m asked where c: "clear_pending s ?n = (m, asked)" by force
  have "n_discard_sink m = n_discard_sink n" using discard_sink_frame(2) [of s ?n] c by simp
  with assms show ?thesis
    unfolding accept_segment_def Let_def c by (auto intro!: deliver_pushes split: option.split)
qed

lemma demo_pushes: "PushSegment 5 demo_bytes \<in> set (n_out demo_run)"
proof -
  have "demo_run = on_segment_data demo_env [2] 5 3 0 demo_bytes demo_edge"
    by (simp add: demo_run_def on_event_def on_inbound_def demo_edge_fields on_msg_def demo_decodes)
  also have "\<dots> = accept_segment demo_env [2] 5 (segment_id_of toy_libs demo_bytes) demo_bytes
      (demo_edge\<lparr>n_reasm := [], n_reasm_bytes := sat_sub 3 (rs_buffered_bytes
        \<lparr>rs_total_len = 3, rs_chunks = [(0, demo_bytes)], rs_buffered = 3\<rparr>)\<rparr>)"
    by (simp add: on_segment_data_def demo_edge_fields MAX_SEGMENT_BYTES_def in_push_window_def PUSH_AHEAD_def
        sat_add_def MAX_REASM_def MAX_REASM_BYTES_def hm_has_def Let_def demo_reassembles demo_complete finish_segment_def)
  finally have eq: "demo_run = \<dots>" .
  show ?thesis unfolding eq by (rule accept_pushes) (simp add: demo_edge_fields)
qed

subsection \<open>Reachable states\<close>

text \<open>
  C1: Whatever peers send and in whatever order, every segment a node hands to its player
  and every segment it holds in memory hashes to a content id that is authentic for that
  sequence number: given by its own pipeline or the chain poll, or signed for this stream
  by a publisher key it was configured with.
\<close>

theorem only_authentic_segments:
  assumes "node_reach L sid A K n"
  shows "(\<forall>s b. PushSegment s b \<in> set (n_out n) \<longrightarrow> auth L sid A K s (segment_id_of L b))
    \<and> (\<forall>s b. st_get_mem s (en_store (n_eng n)) = Some b \<longrightarrow> auth L sid A K s (segment_id_of L b))
    \<and> (\<forall>s i. hm_get (n_segment_ids n) s = Some i \<longrightarrow> auth L sid A K s i)"
proof -
  have "trust_inv L (auth L sid A K) sid K (view n)"
    using node_reach_inv [OF assms] by (simp add: node_inv_def)
  then show ?thesis
    by (auto simp: trust_inv_def store_inv_def view_def st_get_mem_def)
qed

theorem only_authentic_segments_witness:
  "PushSegment 5 demo_bytes \<in> set (n_out demo_run)
    \<and> auth toy_libs [7] {(5, segment_id_of toy_libs demo_bytes)} {} 5 (segment_id_of toy_libs demo_bytes)"
  using only_authentic_segments [OF demo_reach] demo_pushes by blast

text \<open>
  C4: No peer can grow the node's tables without bound. At most 64 reassemblies of at most
  4 MiB each are open, and the byte counter is exactly what they hold; the push-ahead
  buffer holds exactly what its counter says, at most 8 MiB; at most 4096 peers are
  remembered, never the node itself; no peer's serve queue exceeds 64 entries or repeats
  one; at most three durable-floor fetches run at once.
\<close>

theorem hostile_input_bounded:
  assumes "node_reach L sid A K n"
  shows "length (n_reasm n) \<le> 64
    \<and> unat (n_reasm_bytes n) = (\<Sum>(_, e) \<leftarrow> n_reasm n. unat (rs_buffered_bytes (re_r e)))
    \<and> unat (n_reasm_bytes n) \<le> 64 * (4 * 1024 * 1024)
    \<and> unat (n_pending_verify_bytes n) = (\<Sum>(_, (_, raw)) \<leftarrow> n_pending_verify n. length raw)
    \<and> unat (n_pending_verify_bytes n) \<le> 8 * 1024 * 1024
    \<and> length (n_known_peers n) \<le> 4096 \<and> n_me n \<notin> set (n_known_peers n)
    \<and> (\<forall>p ps. hm_get (n_peers n) p = Some ps \<longrightarrow>
         length (ps_serve_queue ps) \<le> 64 \<and> distinct (ps_serve_queue ps))
    \<and> length (n_fallback_inflight n) \<le> 3"
proof -
  let ?v = "view n" and ?used = "\<lambda>e. unat (rs_buffered (re_r e))"
  have I: "node_inv L (auth L sid A K) sid K ?v" by (rule node_reach_inv [OF assms])
  then have R: "reasm_inv ?v" by (simp add: node_inv_def)
  have "?used e \<le> 4 * 1024 * 1024" if "hm_get (nv_reasm ?v) k = Some e" for k e
  proof -
    have "rs_good (re_r e)" "rs_total_len (re_r e) \<le> MAX_SEGMENT_BYTES"
      using R that unfolding reasm_inv_def by blast+
    then show ?thesis using rs.used_room [of "re_r e"] by (simp add: word_le_nat_alt MAX_SEGMENT_BYTES_def)
  qed
  then have "hm.total ?used (nv_reasm ?v) \<le> length (nv_reasm ?v) * (4 * 1024 * 1024)"
    using R by (intro hm.total_bound) (auto simp: reasm_inv_def)
  also have "\<dots> \<le> 64 * (4 * 1024 * 1024)" using R by (simp add: reasm_inv_def MAX_REASM_def)
  finally have tot: "hm.total ?used (nv_reasm ?v) \<le> 64 * (4 * 1024 * 1024)" .
  have eqs: "nv_reasm ?v = n_reasm n" "nv_reasm_bytes ?v = n_reasm_bytes n" "nv_pv ?v = n_pending_verify n"
    "nv_pv_bytes ?v = n_pending_verify_bytes n" "nv_known ?v = n_known_peers n" "nv_me ?v = n_me n"
    "nv_peers ?v = n_peers n" "nv_inflight ?v = n_fallback_inflight n"
    by (simp_all add: view_def)
  have pv: "unat (n_pending_verify_bytes n) = (\<Sum>(_, (_, raw)) \<leftarrow> n_pending_verify n. length raw)
      \<and> unat (n_pending_verify_bytes n) \<le> 8 * 1024 * 1024"
    using I by (simp add: node_inv_def pv_inv_def eqs hm.total_def MAX_PENDING_VERIFY_BYTES_def word_le_nat_alt)
  have rs: "length (n_reasm n) \<le> 64
      \<and> unat (n_reasm_bytes n) = (\<Sum>(_, e) \<leftarrow> n_reasm n. unat (rs_buffered_bytes (re_r e)))
      \<and> unat (n_reasm_bytes n) \<le> 64 * (4 * 1024 * 1024)"
    using R tot by (simp add: reasm_inv_def eqs hm.total_def MAX_REASM_def rs_buffered_bytes_def word_nat)
  have "length (n_known_peers n) \<le> 4096 \<and> n_me n \<notin> set (n_known_peers n) \<and> length (n_fallback_inflight n) \<le> 3"
    using I by (simp add: node_inv_def known_inv_def fb_inv_def eqs KNOWN_PEERS_MAX_def MAX_FALLBACK_INFLIGHT_def)
  moreover have "\<forall>p ps. hm_get (n_peers n) p = Some ps \<longrightarrow> length (ps_serve_queue ps) \<le> 64 \<and> distinct (ps_serve_queue ps)"
    using I by (simp add: node_inv_def peers_inv_def eqs peer_ok_def SERVE_QUEUE_MAX_def)
  ultimately show ?thesis using rs pv by simp
qed

theorem hostile_input_bounded_witness: "length (n_reasm demo_run) \<le> 64"
  using hostile_input_bounded [OF demo_reach] by simp

text \<open>
  C5: The byte budget the picker ranks peers by is never inflated: what a peer is charged
  for is at most one nominal segment per request that is really in flight to it, so a peer
  with nothing in flight is charged nothing. A hedged request always rides beside a primary
  request to a different peer, and reputations stay in the unit interval.
\<close>

theorem request_budget_released:
  assumes "node_reach L sid A K n"
  shows "(\<forall>p ps. hm_get (n_peers n) p = Some ps \<longrightarrow>
      unat (ps_pending_bytes ps) \<le> unat (en_seg_bytes (n_eng n)) *
        (length (filter (\<lambda>(_, (q, _)). q = p) (n_pending n)) + length (filter (\<lambda>(_, (q, _)). q = p) (n_hedge n)))
      \<and> 0 \<le> ps_reputation ps \<and> ps_reputation ps \<le> 1)
    \<and> (\<forall>s p t. hm_get (n_hedge n) s = Some (p, t) \<longrightarrow> (\<exists>q u. hm_get (n_pending n) s = Some (q, u) \<and> q \<noteq> p))"
proof -
  have "peers_inv (view n)" "req_inv (view n)"
    using node_reach_inv [OF assms] by (simp_all add: node_inv_def)
  then show ?thesis
    by (simp add: peers_inv_def req_inv_def inflight_count_def view_def peer_ok_def)
qed

theorem request_budget_released_witness:
  "\<nexists>s p t. hm_get (n_hedge demo_run) s = Some (p, t) \<and> (\<nexists>q u. hm_get (n_pending demo_run) s = Some (q, u) \<and> q \<noteq> p)"
  using request_budget_released [OF demo_reach] by blast

text \<open>
  The upload bucket is never overdrawn and, while a budget is set, never holds more
  than its burst of half a second of budget or two segments.
\<close>

theorem upload_bucket_bounds:
  assumes "node_reach L sid A K n"
  shows "0 \<le> n_upload_tokens n
    \<and> (0 < cfg_upload_budget_bps (n_cfg n) \<longrightarrow>
         n_upload_tokens n \<le> burst_of (cfg_upload_budget_bps (n_cfg n)) (en_seg_bytes (n_eng n)))"
  using node_reach_inv [OF assms] by (simp add: node_inv_def up_inv_def view_def)

theorem upload_bucket_bounds_witness: "0 \<le> n_upload_tokens demo_run"
  using upload_bucket_bounds [OF demo_reach] by simp

subsection \<open>Penalties and bans\<close>

lemma penalize_peer:
  assumes "hm_get (n_peers n) p = Some ps"
  shows "hm_get (n_peers (penalize ev p why n)) p =
    Some ((decay why ps)\<lparr>ps_banned := ps_banned ps \<or> ps_reputation (decay why ps) < REPUTATION_FLOOR\<rparr>)"
proof -
  have b: "ps_banned (decay why ps) = ps_banned ps" by (simp add: decay_def Let_def)
  have same: "hm_get (n_peers (remove_reasm_of q m)) = hm_get (n_peers m)" for q m
  proof -
    have "nv_peers (view (fold remove_reasm ks m)) = nv_peers (view m)" for ks
      by (induction ks arbitrary: m) (simp_all add: view split: option.split)
    then show ?thesis by (simp add: remove_reasm_of_def sel_view(9))
  qed
  have upd: "hm_get (n_peers (upd_peer p f n)) p = Some (f ps)" for f using assms by (simp add: upd_peer_def)
  have id: "decay why ps = (decay why ps)\<lparr>ps_banned := ps_banned ps\<rparr>" using b by simp
  show ?thesis
  proof (cases "ps_reputation (decay why ps) < REPUTATION_FLOOR \<and> \<not> ps_banned ps")
    case True
    then show ?thesis
      using assms same upd [of "\<lambda>p. decay why p\<lparr>ps_banned := True\<rparr>"]
      by (simp add: penalize_def Let_def send_msg_def emit_def split: option.split)
  next
    case False
    then have "hm_get (n_peers (penalize ev p why n)) p = Some (decay why ps)"
      using assms upd [of "decay why"] by (auto simp: penalize_def Let_def)
    moreover have "(ps_banned ps \<or> ps_reputation (decay why ps) < REPUTATION_FLOOR) = ps_banned ps"
      using False by blast
    ultimately show ?thesis using id by (simp only:)
  qed
qed

text \<open>The reputation after several penalties of one kind.\<close>

lemma hash_fails_rep:
  assumes "hm_get (n_peers n) p = Some ps"
  shows "\<exists>ps'. hm_get (n_peers ((penalize ev p HashFail ^^ k) n)) p = Some ps'
    \<and> ps_reputation ps' = ps_reputation ps / 2 ^ k
    \<and> (ps_banned ps' \<longleftrightarrow> ps_banned ps \<or> (\<exists>j \<in> {1..k}. ps_reputation ps / 2 ^ j < REPUTATION_FLOOR))"
proof (induction k)
  case (Suc k)
  then obtain ps' where "hm_get (n_peers ((penalize ev p HashFail ^^ k) n)) p = Some ps'"
    and r: "ps_reputation ps' = ps_reputation ps / 2 ^ k"
    and b: "ps_banned ps' \<longleftrightarrow> ps_banned ps \<or> (\<exists>j \<in> {1..k}. ps_reputation ps / 2 ^ j < REPUTATION_FLOOR)"
    by blast
  from penalize_peer [OF this(1), of ev HashFail] r b show ?case
    by (simp add: decay_def atLeastAtMostSuc_conv) (auto simp: algebra_simps)
qed (simp add: assms)

text \<open>
  C14: Timeouts alone never ban a peer, however many: they lower its reputation to no less
  than a tenth. Forged bytes do: from a clean record the fifth forgery bans and the fourth
  does not. (The comment on the floor, which also names a long run of timeouts as crossing it,
  is older than the clamp at a tenth.)
\<close>

theorem ban_policy:
  assumes "hm_get (n_peers n) p = Some ps" and "ps_reputation ps = 1" and "\<not> ps_banned ps"
  shows "(\<exists>ps'. hm_get (n_peers ((penalize ev p Timeout ^^ k) n)) p = Some ps'
        \<and> \<not> ps_banned ps' \<and> 1 / 10 \<le> ps_reputation ps')
    \<and> (\<exists>ps'. hm_get (n_peers ((penalize ev p HashFail ^^ k) n)) p = Some ps' \<and> (ps_banned ps' \<longleftrightarrow> 5 \<le> k))"
proof -
  have "\<exists>ps'. hm_get (n_peers ((penalize ev p Timeout ^^ k) n)) p = Some ps' \<and> \<not> ps_banned ps' \<and> 1 / 10 \<le> ps_reputation ps'"
  proof (induction k)
    case (Suc k)
    then obtain ps' where ps': "hm_get (n_peers ((penalize ev p Timeout ^^ k) n)) p = Some ps'" "\<not> ps_banned ps'" by blast
    from penalize_peer [OF ps'(1), of ev Timeout] ps'(2) show ?case
      by (auto simp: decay_def TIMEOUT_REP_FLOOR_def REPUTATION_FLOOR_def max_def)
  qed (simp add: assms)
  moreover have "(\<exists>j \<in> {1..k}. 1 / 2 ^ j < (5 / 100 :: real)) \<longleftrightarrow> 5 \<le> k"
  proof
    assume "\<exists>j \<in> {1..k}. 1 / 2 ^ j < (5 / 100 :: real)"
    then obtain j where j: "j \<le> k" "1 / 2 ^ j < (5 / 100 :: real)" by auto
    have "\<not> j \<le> 4"
    proof
      assume "j \<le> 4"
      then have "(2 :: real) ^ j \<le> 2 ^ 4" by (intro power_increasing) simp_all
      with j(2) show False by (simp add: field_simps)
    qed
    with j(1) show "5 \<le> k" by simp
  qed (intro bexI [of _ 5], simp_all)
  ultimately show ?thesis
    using hash_fails_rep [OF assms(1), where ev = ev and k = k] assms(2,3) by (auto simp: REPUTATION_FLOOR_def)
qed

definition demo_peered :: mesh_node where
  "demo_peered = ensure_peer [2] demo_viewer"

lemma demo_peered_get: "hm_get (n_peers demo_peered) [2] = Some (peer_state_new [2])"
  by (simp add: demo_peered_def ensure_peer_def hm_has_def demo_viewer_def with_stream_id_def new_viewer_def with_engine_def)

theorem ban_policy_witness:
  "\<exists>ps. hm_get (n_peers ((penalize demo_env [2] HashFail ^^ 5) demo_peered)) [2] = Some ps \<and> ps_banned ps"
  using ban_policy [OF demo_peered_get, where ev = demo_env and k = 5] by (simp add: peer_state_new_def)

lemma reasm_remove_keeps_none: "hm_get (n_reasm m) k = None \<Longrightarrow> hm_get (n_reasm (remove_reasm j m)) k = None"
  by (simp add: remove_reasm_def delete_conv' split: option.split)

lemma reasm_fold_keeps_none: "hm_get (n_reasm m) k = None \<Longrightarrow> hm_get (n_reasm (fold remove_reasm ks m)) k = None"
  by (induction ks arbitrary: m) (simp_all add: reasm_remove_keeps_none)

lemma reasm_fold_removes: "k \<in> set ks \<Longrightarrow> hm_get (n_reasm (fold remove_reasm ks m)) k = None"
proof (induction ks arbitrary: m)
  case (Cons j ks)
  have "hm_get (n_reasm (remove_reasm j m)) j = None" by (simp add: remove_reasm_def delete_conv' split: option.split)
  with Cons show ?case using reasm_fold_keeps_none by (metis fold_simps(2) set_ConsD)
qed simp

lemma remove_reasm_of_gone: "hm_get (n_reasm (remove_reasm_of p m)) (p, s) = None"
proof (cases "hm_get (n_reasm m) (p, s)")
  case None
  then show ?thesis unfolding remove_reasm_of_def by (rule reasm_fold_keeps_none)
next
  case (Some e)
  then have "(p, s) \<in> set (filter (\<lambda>(q, _). q = p) (map fst (n_reasm m)))"
    by (auto dest: map_of_SomeD intro: rev_image_eqI)
  then show ?thesis unfolding remove_reasm_of_def by (rule reasm_fold_removes)
qed

lemma remove_reasm_of_frame:
  "n_links (remove_reasm_of p m) = n_links m" "n_ban_list (remove_reasm_of p m) = n_ban_list m"
  "n_subscribers (remove_reasm_of p m) = n_subscribers m"
proof -
  have "n_links (fold remove_reasm ks m) = n_links m \<and> n_ban_list (fold remove_reasm ks m) = n_ban_list m
      \<and> n_subscribers (fold remove_reasm ks m) = n_subscribers m" for ks
    by (induction ks arbitrary: m) (auto simp: remove_reasm_def split: option.split)
  then show "n_links (remove_reasm_of p m) = n_links m" "n_ban_list (remove_reasm_of p m) = n_ban_list m"
    "n_subscribers (remove_reasm_of p m) = n_subscribers m" by (simp_all add: remove_reasm_of_def)
qed

text \<open>
  The penalty that crosses the floor takes effect at once: the peer's partial
  reassemblies are gone, it is unsubscribed, its link is closed and, when the node shares
  a ban list, the peer is on it.
\<close>

theorem ban_takes_effect:
  assumes "hm_get (n_peers n) p = Some ps" and "\<not> ps_banned ps"
    and "ps_reputation (decay why ps) < REPUTATION_FLOOR" and "hm_get (n_links n) p = Some l"
    and "n_ban_list n = Some g"
  shows "hm_get (n_reasm (penalize ev p why n)) (p, s) = None \<and> p \<notin> set (n_subscribers (penalize ev p why n))
    \<and> CloseLink l \<in> set (n_out (penalize ev p why n))
    \<and> (\<exists>g'. n_ban_list (penalize ev p why n) = Some g' \<and> bl_contains (ev_now ev) p g')"
  using assms
  by (simp add: penalize_def Let_def remove_reasm_of_frame remove_reasm_of_gone upd_peer_def send_msg_def emit_def
      bl_contains_def bl_ban_def BAN_TTL_def secs_def)

text \<open>A peer already at a reputation of one sixteenth, linked, on a node with a ban list.\<close>

definition demo_suspect :: mesh_node where
  "demo_suspect = (upd_peer [2] (\<lambda>p. p\<lparr>ps_reputation := 1 / 16\<rparr>) demo_peered)
     \<lparr>n_links := [([2], 7)], n_ban_list := Some []\<rparr>"

theorem ban_takes_effect_witness:
  "CloseLink 7 \<in> set (n_out (penalize demo_env [2] HashFail demo_suspect))"
proof -
  have "hm_get (n_peers demo_suspect) [2] = Some ((peer_state_new [2])\<lparr>ps_reputation := 1 / 16\<rparr>)"
    by (simp add: demo_suspect_def upd_peer_def demo_peered_get)
  from ban_takes_effect [OF this, where l = 7 and why = HashFail] show ?thesis
    by (simp add: decay_def peer_state_new_def REPUTATION_FLOOR_def demo_suspect_def)
qed

end
