(* ===== verification/Volunteer.thy ===== *)
theory Volunteer
  imports Rendezvous
begin

section \<open>Manifests, the origin of record and volunteer recruitment\<close>

text \<open>
  Models \<open>manifest.rs\<close>, \<open>origin_mem.rs\<close> and \<open>volunteer.rs\<close> of
  \<open>src/crates/unstation-core/src/\<close>: the signed stream manifest and its verification against
  the trust anchor, the in-memory origin that stores it by content address, and the records
  of the volunteer rendezvous. A future that completes at once is its result; a CID and a
  Rust \<open>String\<close> are their UTF-8 bytes.
\<close>

datatype core_error = HashMismatch | BadSignature | NotFound | TransportErr string | SignalingErr string | OriginErr string

type_synonym cid = bytes

datatype kind = KLive | KVod

record track =
  tr_id :: bytes
  tr_bitrate :: u32
  tr_w :: u32
  tr_h :: u32

record manifest =
  m_stream_id :: stream_id
  m_kind :: kind
  m_codec :: bytes
  m_init_segment_cid :: cid
  m_target_segment_ms :: u32
  m_ll_mode :: bool
  m_tracks :: "track list"
  m_publisher :: bytes
  m_created_at :: u64
  m_encrypted :: bool

record signed_manifest =
  sm_manifest :: manifest
  sm_sig :: bytes

subsection \<open>Encoding of manifests\<close>

definition enc_kind :: "kind \<Rightarrow> bytes" where
  "enc_kind k = (case k of KLive \<Rightarrow> [0] | KVod \<Rightarrow> [1])"

fun dec_kind :: "bytes \<Rightarrow> (kind \<times> bytes) option" where
  "dec_kind [] = None"
| "dec_kind (b # r) = (if b = 0 then Some (KLive, r) else if b = 1 then Some (KVod, r) else None)"

definition enc_track :: "'s scale_scheme \<Rightarrow> track \<Rightarrow> bytes" where
  "enc_track sc t = enc_bytes sc (tr_id t) @ enc_u32 sc (tr_bitrate t) @ enc_u32 sc (tr_w t) @ enc_u32 sc (tr_h t)"

definition dec_track :: "'s scale_scheme \<Rightarrow> bytes \<Rightarrow> (track \<times> bytes) option" where
  "dec_track sc r = do {
     (i, r) \<leftarrow> dec_string sc r; (b, r) \<leftarrow> dec_u32 sc r; (w, r) \<leftarrow> dec_u32 sc r; (h, r) \<leftarrow> dec_u32 sc r;
     Some (\<lparr>tr_id = i, tr_bitrate = b, tr_w = w, tr_h = h\<rparr>, r) }"

definition enc_manifest :: "'s scale_scheme \<Rightarrow> manifest \<Rightarrow> bytes" where
  "enc_manifest sc m =
     m_stream_id m @ enc_kind (m_kind m) @ enc_bytes sc (m_codec m) @ enc_bytes sc (m_init_segment_cid m)
     @ enc_u32 sc (m_target_segment_ms m) @ enc_bool (m_ll_mode m) @ enc_vec sc (enc_track sc) (m_tracks m)
     @ m_publisher m @ enc_u64 sc (m_created_at m) @ enc_bool (m_encrypted m)"

definition dec_manifest :: "'s scale_scheme \<Rightarrow> bytes \<Rightarrow> (manifest \<times> bytes) option" where
  "dec_manifest sc r = do {
     (sid, r) \<leftarrow> dec_array 32 r; (k, r) \<leftarrow> dec_kind r; (c, r) \<leftarrow> dec_string sc r;
     (i, r) \<leftarrow> dec_string sc r; (t, r) \<leftarrow> dec_u32 sc r; (ll, r) \<leftarrow> dec_bool r;
     (ts, r) \<leftarrow> dec_vec sc (dec_track sc) r; (p, r) \<leftarrow> dec_array 32 r;
     (ca, r) \<leftarrow> dec_u64 sc r; (e, r) \<leftarrow> dec_bool r;
     Some (\<lparr>m_stream_id = sid, m_kind = k, m_codec = c, m_init_segment_cid = i, m_target_segment_ms = t,
       m_ll_mode = ll, m_tracks = ts, m_publisher = p, m_created_at = ca, m_encrypted = e\<rparr>, r) }"

definition enc_signed :: "'s scale_scheme \<Rightarrow> signed_manifest \<Rightarrow> bytes" where
  "enc_signed sc m = enc_manifest sc (sm_manifest m) @ sm_sig m"

definition dec_signed :: "'s scale_scheme \<Rightarrow> bytes \<Rightarrow> (signed_manifest \<times> bytes) option" where
  "dec_signed sc r = do {
     (m, r) \<leftarrow> dec_manifest sc r; (sg, r) \<leftarrow> dec_array 64 r;
     Some (\<lparr>sm_manifest = m, sm_sig = sg\<rparr>, r) }"

definition wf_track :: "track \<Rightarrow> bool" where
  "wf_track t \<longleftrightarrow> wf_string (tr_id t)"

definition wf_manifest :: "manifest \<Rightarrow> bool" where
  "wf_manifest m \<longleftrightarrow> length (m_stream_id m) = 32 \<and> length (m_publisher m) = 32
     \<and> wf_string (m_codec m) \<and> wf_string (m_init_segment_cid m) \<and> wf_vec wf_track (m_tracks m)"

definition wf_signed :: "signed_manifest \<Rightarrow> bool" where
  "wf_signed m \<longleftrightarrow> wf_manifest (sm_manifest m) \<and> length (sm_sig m) = 64"

subsection \<open>Verification\<close>

definition signing_payload :: "'s scale_scheme \<Rightarrow> manifest \<Rightarrow> bytes" where
  "signing_payload sc m = enc_manifest sc m"

definition manifest_verify :: "libs \<Rightarrow> manifest \<Rightarrow> bytes \<Rightarrow> bytes \<Rightarrow> core_error + unit" where
  "manifest_verify L m expected sg =
     (if m_publisher m \<noteq> expected then Inl BadSignature
      else if verify_sr25519 L (m_publisher m) (signing_payload L m) sg then Inr ()
      else Inl BadSignature)"

definition sm_verify :: "libs \<Rightarrow> signed_manifest \<Rightarrow> bytes \<Rightarrow> core_error + unit" where
  "sm_verify L m expected = manifest_verify L (sm_manifest m) expected (sm_sig m)"

subsection \<open>The in-memory origin\<close>

record memory_origin =
  mo_manifests :: "(cid, signed_manifest) hash_map"
  mo_segments :: "(segment_id, bytes) hash_map"

definition origin_new :: memory_origin where
  "origin_new = \<lparr>mo_manifests = [], mo_segments = []\<rparr>"

definition mem_cid :: "bytes \<Rightarrow> cid" where
  "mem_cid h = ascii (''mem://'' @ hex32 h)"

definition seed_segment :: "libs \<Rightarrow> bytes \<Rightarrow> memory_origin \<Rightarrow> memory_origin \<times> segment_id" where
  "seed_segment L b g = (let i = segment_id_of L b in (g\<lparr>mo_segments := hm_put i b (mo_segments g)\<rparr>, i))"

definition fetch_manifest :: "cid \<Rightarrow> memory_origin \<Rightarrow> core_error + signed_manifest" where
  "fetch_manifest c g = (case hm_get (mo_manifests g) c of Some m \<Rightarrow> Inr m | None \<Rightarrow> Inl NotFound)"

definition put_manifest :: "libs \<Rightarrow> signed_manifest \<Rightarrow> memory_origin \<Rightarrow> memory_origin \<times> (core_error + cid)" where
  "put_manifest L m g =
     (let c = mem_cid (blake2b256 L (enc_signed L m))
      in (g\<lparr>mo_manifests := hm_put c m (mo_manifests g)\<rparr>, Inr c))"

definition fetch_segment :: "segment_id \<Rightarrow> memory_origin \<Rightarrow> core_error + bytes" where
  "fetch_segment i g = (case hm_get (mo_segments g) i of Some b \<Rightarrow> Inr b | None \<Rightarrow> Inl NotFound)"

definition put_segment :: "segment_id \<Rightarrow> bytes \<Rightarrow> memory_origin \<Rightarrow> memory_origin \<times> (core_error + cid)" where
  "put_segment i b g = (g\<lparr>mo_segments := hm_put i b (mo_segments g)\<rparr>, Inr (mem_cid i))"

subsection \<open>Volunteer records and recruitments\<close>

definition VOLUNTEER_VERSION :: u16 where "VOLUNTEER_VERSION = 1"
definition RECRUITMENT_VERSION :: u16 where "RECRUITMENT_VERSION = 1"
definition RECRUIT_CONTEXT :: bytes where "RECRUIT_CONTEXT = ascii ''unstation-recruit''"
definition RECRUIT_MAX_SKEW_S :: u64 where "RECRUIT_MAX_SKEW_S = 600"

record volunteer_record =
  vr_version :: u16
  vr_peer_id :: bytes
  vr_account :: bytes
  vr_enc_pub :: bytes
  vr_caps_upload_bps :: u64
  vr_active_streams :: u32
  vr_max_streams :: u32
  vr_ttl_s :: u32
  vr_issued_at :: u64

datatype recruit_action = Recruit | Release

record recruitment =
  rc_version :: u16
  rc_stream_id :: bytes
  rc_manifest_cid :: cid
  rc_publisher :: bytes
  rc_issued_at :: u64
  rc_action :: recruit_action
  rc_sig :: bytes

definition enc_volunteer :: "'s scale_scheme \<Rightarrow> volunteer_record \<Rightarrow> bytes" where
  "enc_volunteer sc v =
     enc_u16 sc (vr_version v) @ vr_peer_id v @ vr_account v @ vr_enc_pub v @ enc_u64 sc (vr_caps_upload_bps v)
     @ enc_u32 sc (vr_active_streams v) @ enc_u32 sc (vr_max_streams v) @ enc_u32 sc (vr_ttl_s v)
     @ enc_u64 sc (vr_issued_at v)"

definition dec_volunteer :: "'s scale_scheme \<Rightarrow> bytes \<Rightarrow> (volunteer_record \<times> bytes) option" where
  "dec_volunteer sc r = do {
     (v, r) \<leftarrow> dec_u16 sc r; (p, r) \<leftarrow> dec_array 32 r; (a, r) \<leftarrow> dec_array 32 r; (e, r) \<leftarrow> dec_array 32 r;
     (c, r) \<leftarrow> dec_u64 sc r; (n, r) \<leftarrow> dec_u32 sc r; (mx, r) \<leftarrow> dec_u32 sc r; (t, r) \<leftarrow> dec_u32 sc r;
     (ca, r) \<leftarrow> dec_u64 sc r;
     Some (\<lparr>vr_version = v, vr_peer_id = p, vr_account = a, vr_enc_pub = e, vr_caps_upload_bps = c,
       vr_active_streams = n, vr_max_streams = mx, vr_ttl_s = t, vr_issued_at = ca\<rparr>, r) }"

definition wf_volunteer :: "volunteer_record \<Rightarrow> bool" where
  "wf_volunteer v \<longleftrightarrow> length (vr_peer_id v) = 32 \<and> length (vr_account v) = 32 \<and> length (vr_enc_pub v) = 32"

definition enc_action :: "recruit_action \<Rightarrow> bytes" where
  "enc_action a = (case a of Recruit \<Rightarrow> [0] | Release \<Rightarrow> [1])"

fun dec_action :: "bytes \<Rightarrow> (recruit_action \<times> bytes) option" where
  "dec_action [] = None"
| "dec_action (b # r) = (if b = 0 then Some (Recruit, r) else if b = 1 then Some (Release, r) else None)"

text \<open>Every field but the signature, in wire order: the signed part of a recruitment.\<close>

definition enc_assignment :: "'s scale_scheme \<Rightarrow> recruitment \<Rightarrow> bytes" where
  "enc_assignment sc r =
     enc_u16 sc (rc_version r) @ rc_stream_id r @ enc_bytes sc (rc_manifest_cid r) @ rc_publisher r
     @ enc_u64 sc (rc_issued_at r) @ enc_action (rc_action r)"

definition enc_recruitment :: "'s scale_scheme \<Rightarrow> recruitment \<Rightarrow> bytes" where
  "enc_recruitment sc r = enc_assignment sc r @ rc_sig r"

definition dec_recruitment :: "'s scale_scheme \<Rightarrow> bytes \<Rightarrow> (recruitment \<times> bytes) option" where
  "dec_recruitment sc r = do {
     (v, r) \<leftarrow> dec_u16 sc r; (s, r) \<leftarrow> dec_array 32 r; (c, r) \<leftarrow> dec_string sc r; (p, r) \<leftarrow> dec_array 32 r;
     (t, r) \<leftarrow> dec_u64 sc r; (a, r) \<leftarrow> dec_action r; (sg, r) \<leftarrow> dec_array 64 r;
     Some (\<lparr>rc_version = v, rc_stream_id = s, rc_manifest_cid = c, rc_publisher = p, rc_issued_at = t,
       rc_action = a, rc_sig = sg\<rparr>, r) }"

definition wf_assignment :: "recruitment \<Rightarrow> bool" where
  "wf_assignment r \<longleftrightarrow> length (rc_stream_id r) = 32 \<and> length (rc_publisher r) = 32 \<and> wf_string (rc_manifest_cid r)"

definition wf_recruitment :: "recruitment \<Rightarrow> bool" where
  "wf_recruitment r \<longleftrightarrow> wf_assignment r \<and> length (rc_sig r) = 64"

definition recruit_payload :: "'s scale_scheme \<Rightarrow> recruitment \<Rightarrow> peer_id \<Rightarrow> bytes" where
  "recruit_payload sc r volunteer = enc_assignment sc r @ volunteer"

definition abs_diff :: "u64 \<Rightarrow> u64 \<Rightarrow> u64" where
  "abs_diff a b = (if a \<le> b then b - a else a - b)"

definition recruit_verify :: "libs \<Rightarrow> recruitment \<Rightarrow> peer_id \<Rightarrow> u64 \<Rightarrow> string + unit" where
  "recruit_verify L r volunteer now =
     (if rc_version r \<noteq> RECRUITMENT_VERSION then Inl ''unsupported recruitment version''
      else if RECRUIT_MAX_SKEW_S < abs_diff now (rc_issued_at r) then Inl ''recruitment outside freshness window''
      else if \<not> verify_sr25519_ctx L RECRUIT_CONTEXT (rc_publisher r) (recruit_payload L r volunteer) (rc_sig r)
        then Inl ''bad recruitment signature''
      else Inr ())"

subsection \<open>Round trips\<close>

context scale_codec
begin

lemma dec_kind_enc: "dec_kind (enc_kind k @ r) = Some (k, r)"
  by (cases k) (simp_all add: enc_kind_def)

lemma dec_action_enc: "dec_action (enc_action a @ r) = Some (a, r)"
  by (cases a) (simp_all add: enc_action_def)

sublocale ctrack: byte_codec "enc_track sc" "dec_track sc" wf_track
  by unfold_locales (simp add: wf_track_def enc_track_def dec_track_def scale_laws)

sublocale cmanifest: byte_codec "enc_manifest sc" "dec_manifest sc" wf_manifest
  by unfold_locales
    (simp add: wf_manifest_def enc_manifest_def dec_manifest_def scale_laws dec_kind_enc
      dec_vec_enc [OF ctrack.byte_codec_axioms])

sublocale csigned: byte_codec "enc_signed sc" "dec_signed sc" wf_signed
  by unfold_locales (simp add: wf_signed_def enc_signed_def dec_signed_def cmanifest.dec_enc)

sublocale cvolunteer: byte_codec "enc_volunteer sc" "dec_volunteer sc" wf_volunteer
  by unfold_locales (simp add: wf_volunteer_def enc_volunteer_def dec_volunteer_def scale_laws)

sublocale crecruit: byte_codec "enc_recruitment sc" "dec_recruitment sc" wf_recruitment
  by unfold_locales
    (simp add: wf_recruitment_def wf_assignment_def enc_recruitment_def enc_assignment_def dec_recruitment_def
      scale_laws dec_action_enc)

lemma manifest_inj: "wf_manifest m \<Longrightarrow> wf_manifest m' \<Longrightarrow> enc_manifest sc m = enc_manifest sc m' \<Longrightarrow> m = m'"
  by (rule cmanifest.enc_inj)

lemma recruitment_dec: "wf_recruitment r \<Longrightarrow> dec_recruitment sc (enc_recruitment sc r) = Some (r, [])"
  by (rule crecruit.dec_enc_all)

lemma volunteer_dec: "wf_volunteer v \<Longrightarrow> dec_volunteer sc (enc_volunteer sc v) = Some (v, [])"
  by (rule cvolunteer.dec_enc_all)

text \<open>The signed part splits one way only, whatever follows it.\<close>

lemma assignment_split:
  assumes "wf_assignment r" and "wf_assignment r'" and "enc_assignment sc r @ x = enc_assignment sc r' @ y"
  shows "r'\<lparr>rc_sig := rc_sig r\<rparr> = r \<and> x = y"
proof -
  have dec: "(do { (v, r) \<leftarrow> dec_u16 sc i; (s, r) \<leftarrow> dec_array 32 r; (c, r) \<leftarrow> dec_string sc r; (p, r) \<leftarrow> dec_array 32 r;
      (t, r) \<leftarrow> dec_u64 sc r; (b, r) \<leftarrow> dec_action r; Some ((v, s, c, p, t, b), r) })
      = Some ((rc_version a, rc_stream_id a, rc_manifest_cid a, rc_publisher a, rc_issued_at a, rc_action a), z)"
    if "wf_assignment a" "i = enc_assignment sc a @ z" for a i z
    using that by (simp add: wf_assignment_def enc_assignment_def scale_laws dec_action_enc)
  from dec [OF assms(1) refl, of x] dec [OF assms(2) assms(3)] show ?thesis
    by (cases r; cases r') auto
qed

end

subsection \<open>Properties\<close>


definition demo_manifest :: manifest where
  "demo_manifest = \<lparr>m_stream_id = replicate 32 3, m_kind = KLive, m_codec = ascii ''avc1'', m_init_segment_cid = ascii ''bafy'',
     m_target_segment_ms = 1000, m_ll_mode = False, m_tracks = [], m_publisher = replicate 32 5, m_created_at = 9,
     m_encrypted = True\<rparr>"

lemma demo_manifest_wf: "wf_manifest demo_manifest"
  by (simp add: demo_manifest_def wf_manifest_def wf_string_def wf_bytes_def wf_vec_def ascii_def)

text \<open>A library under which one signature is in circulation, over one manifest.\<close>

definition one_signature :: libs where
  "one_signature = toy_libs\<lparr>sr_verify := (\<lambda>ctx pk msg s. msg = signing_payload toy_libs demo_manifest \<and> s = replicate 64 1)\<rparr>"

lemma one_signature_scale:
  "enc_u32 one_signature = enc_u32 toy_libs" "enc_u64 one_signature = enc_u64 toy_libs" "enc_compact one_signature = enc_compact toy_libs"
  by (simp_all add: one_signature_def)

lemma one_signature_codec: "scale_codec one_signature"
  using toy_scale.scale_codec_axioms by (simp add: scale_codec_def one_signature_def)

lemma one_signature_payload: "signing_payload one_signature demo_manifest = signing_payload toy_libs demo_manifest"
  by (simp add: signing_payload_def enc_manifest_def enc_bytes_def enc_len_def enc_vec_def demo_manifest_def one_signature_scale)


text \<open>
  A recruitment is bound to its volunteer and to its moment: the signed bytes determine
  every field and the volunteer's inbox, so that a signature made for one inbox is over a
  different message in any other; and a recruitment signed by its publisher is accepted
  exactly while it is within 600 seconds of its issue time, before or after.
\<close>

theorem recruitment_bound:
  assumes "scale_codec L" and "wf_assignment r" and "wf_assignment r'"
    and "sign_ok L kp (rc_publisher r)" and "rc_version r = RECRUITMENT_VERSION"
    and "rc_sig r = sign_sr25519_ctx L kp RECRUIT_CONTEXT (recruit_payload L r v)"
  shows "(recruit_payload L r v = recruit_payload L r' v' \<longleftrightarrow> r'\<lparr>rc_sig := rc_sig r\<rparr> = r \<and> v = v')
    \<and> (recruit_verify L r v now = Inr () \<longleftrightarrow> \<bar>uint now - uint (rc_issued_at r)\<bar> \<le> 600)"
proof -
  have skew: "abs_diff now t \<le> 600 \<longleftrightarrow> \<bar>uint now - uint t\<bar> \<le> 600" for t
  proof (cases "now \<le> t")
    case True
    then show ?thesis by (simp add: abs_diff_def word_le_def uint_sub_if')
  next
    case False
    then show ?thesis by (simp add: abs_diff_def word_le_def uint_sub_if')
  qed
  have payload: "enc_assignment L r = enc_assignment L r'" if "r'\<lparr>rc_sig := rc_sig r\<rparr> = r"
  proof -
    have "enc_assignment L r = enc_assignment L (r'\<lparr>rc_sig := rc_sig r\<rparr>)" using that by simp
    also have "\<dots> = enc_assignment L r'" by (simp add: enc_assignment_def)
    finally show ?thesis .
  qed
  have "recruit_payload L r v = recruit_payload L r' v' \<longleftrightarrow> r'\<lparr>rc_sig := rc_sig r\<rparr> = r \<and> v = v'"
    using payload scale_codec.assignment_split [OF assms(1-3), of v v']
    unfolding recruit_payload_def by metis
  moreover have "recruit_verify L r v now = Inr () \<longleftrightarrow> abs_diff now (rc_issued_at r) \<le> 600"
    using assms(4-6)
    by (simp add: recruit_verify_def verify_sr25519_ctx_def sign_ok_def sign_sr25519_ctx_def RECRUIT_MAX_SKEW_S_def)
       (metis linorder_not_le)
  ultimately show ?thesis using skew by simp
qed

definition demo_recruitment :: recruitment where
  "demo_recruitment = (let r = \<lparr>rc_version = 1, rc_stream_id = replicate 32 3, rc_manifest_cid = ascii ''bafy'',
       rc_publisher = replicate 32 5, rc_issued_at = 5000, rc_action = Recruit, rc_sig = []\<rparr>
     in r\<lparr>rc_sig := sign_sr25519_ctx toy_libs (replicate 32 5) RECRUIT_CONTEXT (recruit_payload toy_libs r (replicate 32 7))\<rparr>)"

lemma demo_recruitment_signed:
  "rc_sig demo_recruitment = sign_sr25519_ctx toy_libs (replicate 32 5) RECRUIT_CONTEXT
     (recruit_payload toy_libs demo_recruitment (replicate 32 7))"
  by (simp add: demo_recruitment_def Let_def recruit_payload_def enc_assignment_def)

lemma demo_recruitment_wf: "wf_assignment demo_recruitment"
  by (simp add: demo_recruitment_def Let_def wf_assignment_def wf_string_def wf_bytes_def ascii_def)

theorem recruitment_bound_witness:
  "recruit_verify toy_libs demo_recruitment (replicate 32 7) 5600 = Inr ()
   \<and> recruit_verify toy_libs demo_recruitment (replicate 32 7) 5601 \<noteq> Inr ()"
proof -
  have pk: "rc_publisher demo_recruitment = replicate 32 5" and v: "rc_version demo_recruitment = RECRUITMENT_VERSION"
    and t: "rc_issued_at demo_recruitment = 5000"
    by (simp_all add: demo_recruitment_def Let_def RECRUITMENT_VERSION_def)
  have sg: "sign_ok toy_libs (replicate 32 5) (rc_publisher demo_recruitment)" unfolding pk by (rule toy_sign_ok) simp
  note b = recruitment_bound [OF toy_scale.scale_codec_axioms demo_recruitment_wf demo_recruitment_wf sg v demo_recruitment_signed]
  show ?thesis using b [where now = 5600] b [where now = 5601] by (simp add: t)
qed

end
