(* ===== verification/Chain.thy ===== *)
theory Chain
  imports Volunteer
begin

section \<open>Signaling and recruitment over the chain's statement store\<close>

text \<open>
  Models \<open>src/crates/unstation-chain/src/lib.rs\<close> (sealed envelopes, signal bundles, live
  edge and durable map) and \<open>volunteer.rs\<close> beside it (the volunteer rendezvous). The
  statement store itself is an SDK outside the repository: what a function submits to it
  is the \<open>submission\<close> it returns, what it reads is the list of statements it is given. The
  process-wide identity secret is an argument, \<open>None\<close> before it is initialised, and so is
  the random nonce of each sealing. Error values keep the message up to its dash.
\<close>

record submission =
  sub_topic :: topic_id
  sub_data :: bytes
  sub_prio :: u32

record statement =
  stm_data :: bytes
  stm_proof_pubkey :: "bytes option"

subsection \<open>Sealed envelopes\<close>

definition ENVELOPE_SEALED :: u8 where
  "ENVELOPE_SEALED = 2"

definition identity_enc_keypair :: "libs \<Rightarrow> bytes option \<Rightarrow> (bytes \<times> bytes) option" where
  "identity_enc_keypair L ident = do {
     secret \<leftarrow> ident;
     Some (enc_keypair_from_seed L (blake2b256 L secret)) }"

definition identity_enc_public :: "libs \<Rightarrow> bytes option \<Rightarrow> bytes option" where
  "identity_enc_public L ident = map_option snd (identity_enc_keypair L ident)"

definition seal_to :: "libs \<Rightarrow> bytes \<Rightarrow> bytes option \<Rightarrow> bytes \<Rightarrow> bytes \<Rightarrow> bytes option" where
  "seal_to L nonce ident recipient plaintext = do {
     (secret, public) \<leftarrow> identity_enc_keypair L ident;
     Some ([ENVELOPE_SEALED] @ public @ seal L nonce recipient secret plaintext) }"

definition open_framed :: "libs \<Rightarrow> bytes option \<Rightarrow> bytes \<Rightarrow> (bytes \<times> bytes) option" where
  "open_framed L ident bs =
     (if bs = [] \<or> hd bs \<noteq> ENVELOPE_SEALED \<or> length bs < 1 + 32 then None
      else do {
        let sender = take 32 (drop 1 bs);
        (secret, _) \<leftarrow> identity_enc_keypair L ident;
        plaintext \<leftarrow> open_sealed L sender secret (drop 33 bs);
        Some (sender, plaintext) })"

definition encode_envelope :: "libs \<Rightarrow> bytes \<Rightarrow> bytes option \<Rightarrow> peer_id \<Rightarrow> signal_msg \<Rightarrow> bytes \<Rightarrow> bytes option" where
  "encode_envelope L nonce ident from' msg recipient =
     seal_to L nonce ident recipient (from' @ encode_signal L msg)"

definition decode_envelope :: "libs \<Rightarrow> bytes option \<Rightarrow> bytes \<Rightarrow> (peer_id \<times> signal_msg \<times> bytes) option" where
  "decode_envelope L ident bs = do {
     (sender, body) \<leftarrow> open_framed L ident bs;
     if length body < 32 then None
     else do {
       msg \<leftarrow> decode_signal L (drop 32 body);
       Some (take 32 body, msg, sender) } }"

definition encode_bundle :: "'s scale_scheme \<Rightarrow> bytes list \<Rightarrow> bytes" where
  "encode_bundle sc envs = enc_vec sc (enc_bytes sc) envs"

definition decode_bundle :: "'s scale_scheme \<Rightarrow> bytes \<Rightarrow> bytes list" where
  "decode_bundle sc d = (case dec_vec sc (dec_bytes sc) d of Some (envs, _) \<Rightarrow> envs | None \<Rightarrow> [])"

subsection \<open>Signals\<close>

record chain_signaling =
  cs_stream :: stream_id
  cs_n_shards :: u32
  cs_outbox :: "(peer_id, bytes list) hash_map"
  cs_prio :: u32
  cs_enc_keys :: "(peer_id, bytes) hash_map"

definition cs_new :: "stream_id \<Rightarrow> u32 \<Rightarrow> chain_signaling" where
  "cs_new stream n_shards =
     \<lparr>cs_stream = stream, cs_n_shards = max n_shards 1, cs_outbox = [], cs_prio = 1, cs_enc_keys = []\<rparr>"

definition note_enc_key :: "peer_id \<Rightarrow> bytes \<Rightarrow> chain_signaling \<Rightarrow> chain_signaling" where
  "note_enc_key p k c = (if k \<noteq> zeros32 then c\<lparr>cs_enc_keys := hm_put p k (cs_enc_keys c)\<rparr> else c)"

definition recipient_enc_key :: "peer_id \<Rightarrow> chain_signaling \<Rightarrow> bytes option" where
  "recipient_enc_key to c = hm_get (cs_enc_keys c) to"

definition publish_presence :: "libs \<Rightarrow> presence \<Rightarrow> chain_signaling \<Rightarrow> submission" where
  "publish_presence L p c =
     \<lparr>sub_topic = discovery_topic L (cs_stream c) (shard_for (p_peer_id p) (cs_n_shards c)),
      sub_data = enc_presence L (record_of_presence p), sub_prio = 0\<rparr>"

definition read_presence_signed :: "libs \<Rightarrow> nat \<Rightarrow> statement list \<Rightarrow> (presence \<times> bytes option) list" where
  "read_presence_signed L mx sts =
     List.map_filter (\<lambda>st. case dec_presence L (stm_data st) of
         Some (rec, _) \<Rightarrow> Some (presence_of_record rec, stm_proof_pubkey st) | None \<Rightarrow> None) (take mx sts)"

definition read_presence :: "libs \<Rightarrow> nat \<Rightarrow> statement list \<Rightarrow> presence list" where
  "read_presence L mx sts = map fst (read_presence_signed L mx sts)"

definition send_signal :: "libs \<Rightarrow> peer_id \<Rightarrow> signal_msg \<Rightarrow> chain_signaling \<Rightarrow> submission" where
  "send_signal L to msg cs = \<lparr>sub_topic = signaling_topic L (cs_stream cs) to, sub_data = encode_signal L msg, sub_prio = 0\<rparr>"

definition publish_signal ::
  "libs \<Rightarrow> bytes \<Rightarrow> bytes option \<Rightarrow> peer_id \<Rightarrow> peer_id \<Rightarrow> signal_msg \<Rightarrow> chain_signaling
     \<Rightarrow> chain_signaling \<times> (core_error + submission)" where
  "publish_signal L nonce ident from' to msg c =
     (case recipient_enc_key to c of
        None \<Rightarrow> (c, Inl (SignalingErr ''no signaling key for recipient''))
      | Some key \<Rightarrow>
          (case encode_envelope L nonce ident from' msg key of
             None \<Rightarrow> (c, Inl (SignalingErr ''no local identity''))
           | Some env \<Rightarrow>
               (let lst = (case hm_get (cs_outbox c) to of Some l \<Rightarrow> l | None \<Rightarrow> []) @ [env]
                in (c\<lparr>cs_outbox := hm_put to lst (cs_outbox c), cs_prio := cs_prio c + 1\<rparr>,
                    Inr \<lparr>sub_topic = signaling_topic L (cs_stream c) to, sub_data = encode_bundle L lst,
                         sub_prio = cs_prio c\<rparr>))))"

definition publish_fast_signal ::
  "libs \<Rightarrow> bytes \<Rightarrow> bytes option \<Rightarrow> peer_id \<Rightarrow> peer_id \<Rightarrow> signal_msg \<Rightarrow> chain_signaling
     \<Rightarrow> chain_signaling \<times> (core_error + submission)" where
  "publish_fast_signal L nonce ident from' to msg c =
     (case recipient_enc_key to c of
        None \<Rightarrow> (c, Inl (SignalingErr ''no signaling key for recipient''))
      | Some key \<Rightarrow>
          (case encode_envelope L nonce ident from' msg key of
             None \<Rightarrow> (c, Inl (SignalingErr ''no local identity''))
           | Some env \<Rightarrow>
               (c\<lparr>cs_prio := cs_prio c + 1\<rparr>,
                Inr \<lparr>sub_topic = fast_signaling_topic L (cs_stream c) to, sub_data = encode_bundle L [env],
                     sub_prio = cs_prio c\<rparr>)))"

text \<open>The reading loop: every envelope that opens is returned and its sender's key noted.\<close>

definition read_envelope :: "libs \<Rightarrow> bytes option \<Rightarrow> bytes
    \<Rightarrow> chain_signaling \<times> (peer_id \<times> signal_msg) list \<Rightarrow> chain_signaling \<times> (peer_id \<times> signal_msg) list" where
  "read_envelope L ident env = (\<lambda>(c, out).
     case decode_envelope L ident env of
       Some (from', msg, key) \<Rightarrow> (note_enc_key from' key c, out @ [(from', msg)])
     | None \<Rightarrow> (c, out))"

definition read_signals :: "libs \<Rightarrow> bytes option \<Rightarrow> bytes list \<Rightarrow> chain_signaling
    \<Rightarrow> chain_signaling \<times> (peer_id \<times> signal_msg) list" where
  "read_signals L ident sts c =
     fold (\<lambda>st. fold (read_envelope L ident) (decode_bundle L st)) sts (c, [])"

definition read_fast_signals :: "libs \<Rightarrow> bytes option \<Rightarrow> bytes list \<Rightarrow> chain_signaling
    \<Rightarrow> chain_signaling \<times> (peer_id \<times> signal_msg) list" where
  "read_fast_signals L ident sts c =
     fold (\<lambda>st. fold (read_envelope L ident) (decode_bundle L st)) sts (c, [])"

subsection \<open>The live edge and the durable map\<close>

definition enc_edge_entry :: "'s scale_scheme \<Rightarrow> u64 \<times> segment_id \<Rightarrow> bytes" where
  "enc_edge_entry sc = (\<lambda>(s, i). enc_u64 sc s @ i)"

definition dec_edge_entry :: "'s scale_scheme \<Rightarrow> bytes \<Rightarrow> ((u64 \<times> segment_id) \<times> bytes) option" where
  "dec_edge_entry sc r = do { (s, r) \<leftarrow> dec_u64 sc r; (i, r) \<leftarrow> dec_array 32 r; Some ((s, i), r) }"

definition publish_edge :: "libs \<Rightarrow> (u64 \<times> segment_id) list \<Rightarrow> chain_signaling \<Rightarrow> submission" where
  "publish_edge L entries c =
     \<lparr>sub_topic = edge_topic L (cs_stream c), sub_data = enc_vec L (enc_edge_entry L) entries, sub_prio = 0\<rparr>"

definition read_edge :: "libs \<Rightarrow> bytes list \<Rightarrow> (u64 \<times> segment_id) list" where
  "read_edge L sts =
     fold (\<lambda>st m. case dec_vec L (dec_edge_entry L) st of
        Some (raw, _) \<Rightarrow> fold (\<lambda>(s, i) m. bt_put s i m) raw m
      | None \<Rightarrow> m) sts []"

definition enc_durable_entry :: "'s scale_scheme \<Rightarrow> u64 \<times> cid \<Rightarrow> bytes" where
  "enc_durable_entry sc = (\<lambda>(s, c). enc_u64 sc s @ enc_bytes sc c)"

definition dec_durable_entry :: "'s scale_scheme \<Rightarrow> bytes \<Rightarrow> ((u64 \<times> bytes) \<times> bytes) option" where
  "dec_durable_entry sc r = do { (s, r) \<leftarrow> dec_u64 sc r; (c, r) \<leftarrow> dec_bytes sc r; Some ((s, c), r) }"

definition publish_durable :: "libs \<Rightarrow> (u64 \<times> cid) list \<Rightarrow> chain_signaling \<Rightarrow> submission" where
  "publish_durable L entries c =
     \<lparr>sub_topic = durable_topic L (cs_stream c), sub_data = enc_vec L (enc_durable_entry L) entries, sub_prio = 0\<rparr>"

definition read_durable :: "libs \<Rightarrow> bytes list \<Rightarrow> (u64 \<times> cid) list" where
  "read_durable L sts =
     fold (\<lambda>st m. case dec_vec L (dec_durable_entry L) st of
        Some (raw, _) \<Rightarrow> fold (\<lambda>(s, c) m. if length c \<le> 256 \<and> utf8_valid c then bt_put s c m else m) raw m
      | None \<Rightarrow> m) sts []"

subsection \<open>The volunteer rendezvous\<close>

definition PRIO_EPOCH :: u64 where
  "PRIO_EPOCH = 1750000000"

definition announce_prio :: "u64 \<Rightarrow> u32" where
  "announce_prio issued_at = push_bit 1 (ucast (sat_sub issued_at PRIO_EPOCH AND 0x7FFFFFFF))"

definition publish_volunteer :: "libs \<Rightarrow> volunteer_record \<Rightarrow> submission" where
  "publish_volunteer L rec =
     \<lparr>sub_topic = volunteers_topic L, sub_data = enc_volunteer L rec, sub_prio = announce_prio (vr_issued_at rec)\<rparr>"

definition withdraw_volunteer :: "libs \<Rightarrow> u64 \<Rightarrow> volunteer_record \<Rightarrow> submission" where
  "withdraw_volunteer L now rec =
     (let rec = rec\<lparr>vr_ttl_s := 1, vr_max_streams := 0, vr_active_streams := 0, vr_issued_at := now\<rparr>
      in \<lparr>sub_topic = volunteers_topic L, sub_data = enc_volunteer L rec,
          sub_prio = announce_prio (vr_issued_at rec) OR 1\<rparr>)"

definition filter_volunteers :: "volunteer_record list \<Rightarrow> nat \<Rightarrow> u64 \<Rightarrow> volunteer_record list" where
  "filter_volunteers raw mx now =
     take mx (filter (\<lambda>r. vr_version r = VOLUNTEER_VERSION
        \<and> now \<le> sat_add (vr_issued_at r) (ucast (vr_ttl_s r)) \<and> 0 < vr_max_streams r) raw)"

definition read_volunteers :: "libs \<Rightarrow> nat \<Rightarrow> u64 \<Rightarrow> bytes list \<Rightarrow> volunteer_record list" where
  "read_volunteers L mx now sts =
     filter_volunteers (List.map_filter (\<lambda>st. map_option fst (dec_volunteer L st)) sts) mx now"

definition publish_recruitment :: "libs \<Rightarrow> bytes \<Rightarrow> bytes option \<Rightarrow> bytes \<Rightarrow> peer_id \<Rightarrow> bytes \<Rightarrow> u32 \<Rightarrow> core_error + submission" where
  "publish_recruitment L nonce ident to_enc to_peer encoded prio =
     (case seal_to L nonce ident to_enc encoded of
        None \<Rightarrow> Inl (SignalingErr ''no local identity'')
      | Some sealed \<Rightarrow> Inr \<lparr>sub_topic = recruit_topic L to_peer, sub_data = sealed, sub_prio = prio\<rparr>)"

definition read_recruitment :: "libs \<Rightarrow> bytes option \<Rightarrow> peer_id \<Rightarrow> u64 \<Rightarrow> bytes \<Rightarrow> recruitment option" where
  "read_recruitment L ident me now st = do {
     (_, plaintext) \<leftarrow> open_framed L ident st;
     (rec, _) \<leftarrow> dec_recruitment L plaintext;
     if recruit_verify L rec me now = Inr () then Some rec else None }"

definition read_recruitments :: "libs \<Rightarrow> bytes option \<Rightarrow> peer_id option \<Rightarrow> u64 \<Rightarrow> bytes list \<Rightarrow> recruitment list" where
  "read_recruitments L ident local_peer now sts =
     (case local_peer of
        None \<Rightarrow> []
      | Some me \<Rightarrow> List.map_filter (read_recruitment L ident me now) sts)"

subsection \<open>Envelopes open for their recipient\<close>

text \<open>The encryption key pair of an identity secret.\<close>

definition enc_sk :: "libs \<Rightarrow> bytes \<Rightarrow> bytes" where
  "enc_sk L secret = fst (enc_keypair_from_seed L (blake2b256 L secret))"

definition enc_pk :: "libs \<Rightarrow> bytes \<Rightarrow> bytes" where
  "enc_pk L secret = x25519_public L (enc_sk L secret)"

lemma identity_keys: "identity_enc_keypair L (Some a) = Some (enc_sk L a, enc_pk L a)"
  by (simp add: identity_enc_keypair_def enc_sk_def enc_pk_def enc_keypair_from_seed_def Let_def)

text \<open>What sealing relies on, for a sender \<open>a\<close> with a 32-byte public key.\<close>

definition sealing_ok :: "libs \<Rightarrow> bytes \<Rightarrow> bool" where
  "sealing_ok L a \<longleftrightarrow> aead_ok L \<and> dh_ok L \<and> length (enc_pk L a) = 32"

lemma seal_to_open:
  assumes "sealing_ok L a" and "length nonce = 24"
  shows "\<exists>env. seal_to L nonce (Some a) (enc_pk L b) p = Some env
    \<and> open_framed L (Some b) env = Some (enc_pk L a, p) \<and> length env = length p + 73"
proof -
  let ?env = "[ENVELOPE_SEALED] @ enc_pk L a @ seal L nonce (enc_pk L b) (enc_sk L a) p"
  have "open_sealed L (enc_pk L a) (enc_sk L b) (seal L nonce (enc_pk L b) (enc_sk L a) p) = Some p"
    unfolding enc_pk_def using assms by (intro open_seal) (simp_all add: sealing_ok_def)
  then have "open_framed L (Some b) ?env = Some (enc_pk L a, p)"
    using assms by (simp add: open_framed_def identity_keys sealing_ok_def)
  moreover have "length ?env = length p + 73" using assms by (simp add: length_seal sealing_ok_def)
  ultimately show ?thesis by (simp add: seal_to_def identity_keys)
qed

text \<open>The body of an envelope, and what its recipient reads.\<close>

lemma encode_decode_envelope:
  assumes "scale_codec L" and "sealing_ok L a" and "length nonce = 24" and "length from' = 32" and "wf_signal m"
  shows "\<exists>env. encode_envelope L nonce (Some a) from' m (enc_pk L b) = Some env
    \<and> decode_envelope L (Some b) env = Some (from', m, enc_pk L a)
    \<and> length env = length (encode_signal L m) + 105"
proof -
  obtain env where "seal_to L nonce (Some a) (enc_pk L b) (from' @ encode_signal L m) = Some env"
    "open_framed L (Some b) env = Some (enc_pk L a, from' @ encode_signal L m)"
    "length env = length (from' @ encode_signal L m) + 73"
    using seal_to_open [OF assms(2,3)] by blast
  moreover have "decode_signal L (encode_signal L m) = Some m"
    using assms(1,5) by (rule scale_codec.decode_encode_signal)
  ultimately show ?thesis using assms(4) by (simp add: encode_envelope_def decode_envelope_def)
qed

lemma bundle_roundtrip:
  assumes "scale_codec L" and "wf_vec wf_bytes envs"
  shows "decode_bundle L (encode_bundle L envs) = envs"
proof -
  have "byte_codec (enc_bytes L) (dec_bytes L) wf_bytes"
    by (rule byte_codec.intro) (rule scale_codec.dec_bytes_enc [OF assms(1)])
  from scale_codec.dec_vec_enc [OF assms(1) this assms(2), where r = "[]"] show ?thesis
    by (simp add: decode_bundle_def encode_bundle_def)
qed

lemma read_envelopes:
  assumes "list_all2 (\<lambda>env m. decode_envelope L ident env = Some (from', m, key)) envs ms"
  shows "snd (fold (read_envelope L ident) envs (c, out)) = out @ map (\<lambda>m. (from', m)) ms"
  using assms
  by (induction envs ms arbitrary: c out rule: list_all2_induct) (simp_all add: read_envelope_def)

subsection \<open>A dialogue over one statement\<close>

fun publish_signals :: "libs \<Rightarrow> bytes option \<Rightarrow> peer_id \<Rightarrow> peer_id \<Rightarrow> (bytes \<times> signal_msg) list \<Rightarrow> chain_signaling
    \<Rightarrow> chain_signaling \<times> (core_error + submission) list" where
  "publish_signals L ident from' to [] c = (c, [])"
| "publish_signals L ident from' to ((nonce, m) # xs) c =
     (let (c1, r) = publish_signal L nonce ident from' to m c;
          (c2, rs) = publish_signals L ident from' to xs c1
      in (c2, r # rs))"

lemma publish_signals_shape:
  assumes "hm_get (cs_enc_keys c) to = Some key"
    and "list_all2 (\<lambda>(nonce, m) env. encode_envelope L nonce ident from' m key = Some env) sends envs"
    and "E = (case hm_get (cs_outbox c) to of Some l \<Rightarrow> l | None \<Rightarrow> [])"
  shows "snd (publish_signals L ident from' to sends c) =
     map (\<lambda>i. Inr \<lparr>sub_topic = signaling_topic L (cs_stream c) to,
                   sub_data = encode_bundle L (E @ take (Suc i) envs), sub_prio = cs_prio c + of_nat i\<rparr>)
       [0..<length sends]"
  using assms(2,1,3)
proof (induction sends envs arbitrary: c E rule: list_all2_induct)
  case (Cons x sends env envs)
  obtain nonce m where x: "x = (nonce, m)" by (cases x)
  let ?c1 = "c\<lparr>cs_outbox := hm_put to (E @ [env]) (cs_outbox c), cs_prio := cs_prio c + 1\<rparr>"
  have pub: "publish_signal L nonce ident from' to m c =
      (?c1, Inr \<lparr>sub_topic = signaling_topic L (cs_stream c) to, sub_data = encode_bundle L (E @ [env]), sub_prio = cs_prio c\<rparr>)"
    using Cons.hyps(1) Cons.prems x by (simp add: publish_signal_def recipient_enc_key_def Let_def)
  have "snd (publish_signals L ident from' to sends ?c1) =
     map (\<lambda>i. Inr \<lparr>sub_topic = signaling_topic L (cs_stream c) to,
                   sub_data = encode_bundle L ((E @ [env]) @ take (Suc i) envs), sub_prio = cs_prio c + 1 + of_nat i\<rparr>)
       [0..<length sends]"
    using Cons.IH [of ?c1 "E @ [env]"] Cons.prems(1) by (simp add: update_conv')
  then show ?case
    by (simp add: x pub case_prod_beta upt_conv_Cons map_Suc_upt [symmetric] add.assoc del: upt_Suc)
qed simp

subsection \<open>Properties\<close>

text \<open>
  C15: Signals survive a store that keeps one statement per sender and topic: the statement
  written for the \<open>n\<close>-th signal has a strictly higher priority than those before it, and the
  recipient that reads it alone recovers all signals sent so far, in order and with their
  sender, whatever envelopes others wrote before.
\<close>

theorem signals_delivered:
  assumes "scale_codec L" and "sealing_ok L a"
    and "hm_get (cs_enc_keys c) to = Some (enc_pk L b)" and "hm_get (cs_outbox c) to = None"
    and "length from' = 32"
    and "\<forall>(nonce, m) \<in> set sends. length nonce = 24 \<and> wf_signal m \<and> length (encode_signal L m) < 2 ^ 31"
    and "unat (cs_prio c) + length sends < 2 ^ 32" and "n < length sends"
  shows "\<exists>sub. snd (publish_signals L (Some a) from' to sends c) ! n = Inr sub
    \<and> sub_topic sub = signaling_topic L (cs_stream c) to
    \<and> unat (sub_prio sub) = unat (cs_prio c) + n
    \<and> snd (read_signals L (Some b) [sub_data sub] c') = map (\<lambda>(_, m). (from', m)) (take (Suc n) sends)"
proof -
  let ?enc = "\<lambda>(nonce, m) env. encode_envelope L nonce (Some a) from' m (enc_pk L b) = Some env
    \<and> decode_envelope L (Some b) env = Some (from', m, enc_pk L a) \<and> wf_bytes env"
  have "\<exists>env. ?enc x env" if "x \<in> set sends" for x
  proof (cases x)
    case (Pair nonce m)
    then have m: "length nonce = 24" "wf_signal m" "length (encode_signal L m) < 2 ^ 31" using assms(6) that by auto
    obtain env where env: "encode_envelope L nonce (Some a) from' m (enc_pk L b) = Some env"
        "decode_envelope L (Some b) env = Some (from', m, enc_pk L a)"
        "length env = length (encode_signal L m) + 105"
      using encode_decode_envelope [OF assms(1,2) m(1) assms(5) m(2), of b] by blast
    have "wf_bytes env" unfolding wf_bytes_def env(3) using m(3) by simp
    then have "?enc x env" unfolding Pair split using env(1,2) by (intro conjI)
    then show ?thesis by (rule exI)
  qed
  then have "\<forall>x \<in> set sends. \<exists>env. ?enc x env" by (intro ballI)
  from bchoice [OF this] obtain f where f': "\<forall>x \<in> set sends. ?enc x (f x)" ..
  have f: "?enc x (f x)" if "x \<in> set sends" for x using f' that by (rule bspec)
  let ?envs = "map f sends"
  have shape: "snd (publish_signals L (Some a) from' to sends c) ! n =
      Inr \<lparr>sub_topic = signaling_topic L (cs_stream c) to, sub_data = encode_bundle L (take (Suc n) ?envs),
           sub_prio = cs_prio c + of_nat n\<rparr>"
    using publish_signals_shape [OF assms(3), where sends = sends and envs = ?envs and E = "[]" and L = L
        and ident = "Some a" and from' = from'] f assms(4,8)
    by (auto simp: list_all2_conv_all_nth case_prod_beta)
  have "list_all wf_bytes ?envs" using f by (auto simp: list_all_iff case_prod_beta)
  then have "list_all wf_bytes (take (Suc n) ?envs)" by (metis append_take_drop_id list_all_append)
  then have bun: "decode_bundle L (encode_bundle L (take (Suc n) ?envs)) = take (Suc n) ?envs"
    using assms(7,8) by (intro bundle_roundtrip [OF assms(1)]) (simp add: wf_vec_def)
  have "list_all2 (\<lambda>env m. decode_envelope L (Some b) env = Some (from', m, enc_pk L a))
      (take (Suc n) ?envs) (take (Suc n) (map snd sends))"
    using f by (auto simp: list_all2_conv_all_nth case_prod_beta)
  from read_envelopes [OF this, of c' "[]"]
  have "snd (read_signals L (Some b) [encode_bundle L (take (Suc n) ?envs)] c') =
      map (\<lambda>(_, m). (from', m)) (take (Suc n) sends)"
    by (simp add: read_signals_def bun [unfolded take_map] take_map comp_def split_def)
  moreover have "unat (cs_prio c + of_nat n) = unat (cs_prio c) + n"
    using assms(7,8) by (simp add: unat_plus_exact unat_of_nat_exact)
  ultimately show ?thesis using shape by simp
qed

lemma toy_sealing_ok: "sealing_ok toy_libs a"
  using toy_aead_ok toy_dh_ok length_toy_hash
  by (simp add: sealing_ok_def enc_pk_def enc_sk_def enc_keypair_from_seed_def Let_def toy_libs_def scale.defs)

definition demo_signaling :: chain_signaling where
  "demo_signaling = (cs_new (replicate 32 3) 4)\<lparr>cs_enc_keys := [([7], enc_pk toy_libs [2])]\<rparr>"

lemma demo_signaling_key: "hm_get (cs_enc_keys demo_signaling) [7] = Some (enc_pk toy_libs [2])"
  by (simp add: demo_signaling_def)

theorem signals_delivered_witness:
  "\<exists>sub. snd (publish_signals toy_libs (Some [1]) (replicate 32 9) [7]
      [(replicate 24 0, Offer [5]), (replicate 24 1, Closed [])] demo_signaling) ! 1 = Inr sub
    \<and> snd (read_signals toy_libs (Some [2]) [sub_data sub] (cs_new (replicate 32 3) 4))
        = [(replicate 32 9, Offer [5]), (replicate 32 9, Closed [])]"
proof -
  have sends: "\<forall>(nonce, m) \<in> set [(replicate 24 (0 :: u8), Offer [5]), (replicate 24 1, Closed [])].
      length nonce = 24 \<and> wf_signal m \<and> length (encode_signal toy_libs m) < 2 ^ 31"
    by (simp add: wf_signal_def wf_bytes_def wf_string_def encode_signal_def from_signal_def enc_chat_def
        enc_bytes_def enc_len_def toy_libs_def scale.defs scale_le_def enc_compact_le_def Let_def)
  have "hm_get (cs_outbox demo_signaling) [7] = None" "cs_prio demo_signaling = 1"
    by (simp_all add: demo_signaling_def cs_new_def)
  then show ?thesis
    using signals_delivered [OF toy_scale.scale_codec_axioms toy_sealing_ok demo_signaling_key _ _ sends,
        where n = 1 and from' = "replicate 32 9" and c' = "cs_new (replicate 32 3) 4" and a = "[1]"]
    by auto
qed

text \<open>
  A recruitment the publisher seals and posts reaches its volunteer through any number
  of hostile or malformed statements in the public inbox: it is among those read while it
  verifies, and nothing that does not verify for this volunteer at this time is read.
\<close>

theorem recruitment_delivered:
  assumes "scale_codec L" and "sealing_ok L a" and "length nonce = 24" and "wf_recruitment r"
    and "recruit_verify L r me now = Inr ()"
    and "publish_recruitment L nonce (Some a) (enc_pk L b) me (enc_recruitment L r) prio = Inr sub"
    and "sub_data sub \<in> set sts"
  shows "sub_topic sub = recruit_topic L me
    \<and> r \<in> set (read_recruitments L (Some b) (Some me) now sts)
    \<and> (\<forall>r' \<in> set (read_recruitments L (Some b) (Some me) now sts). recruit_verify L r' me now = Inr ())"
proof -
  obtain env where env: "seal_to L nonce (Some a) (enc_pk L b) (enc_recruitment L r) = Some env"
    "open_framed L (Some b) env = Some (enc_pk L a, enc_recruitment L r)"
    using seal_to_open [OF assms(2,3)] by blast
  then have sub: "sub = \<lparr>sub_topic = recruit_topic L me, sub_data = env, sub_prio = prio\<rparr>"
    using assms(6) by (simp add: publish_recruitment_def)
  have "read_recruitment L (Some b) me now env = Some r"
    using env(2) assms(5) scale_codec.recruitment_dec [OF assms(1,4)] by (simp add: read_recruitment_def)
  moreover have "recruit_verify L r' me now = Inr ()" if "read_recruitment L (Some b) me now st = Some r'" for st r'
    using that by (auto simp: read_recruitment_def bind_eq_Some_conv split: if_splits)
  ultimately show ?thesis
    using sub assms(7) by (force simp: read_recruitments_def List.map_filter_def)
qed

lemma demo_recruitment_verifies: "recruit_verify toy_libs demo_recruitment (replicate 32 7) 5600 = Inr ()"
  by (simp add: recruit_verify_def verify_sr25519_ctx_def demo_recruitment_signed sign_sr25519_ctx_def)
     (simp add: demo_recruitment_def Let_def toy_libs_def scale.defs RECRUITMENT_VERSION_def RECRUIT_MAX_SKEW_S_def
       abs_diff_def length_toy_hash)

theorem recruitment_delivered_witness:
  "\<exists>sub. publish_recruitment toy_libs (replicate 24 4) (Some [1]) (enc_pk toy_libs [2]) (replicate 32 7)
       (enc_recruitment toy_libs demo_recruitment) 1 = Inr sub
     \<and> demo_recruitment \<in> set (read_recruitments toy_libs (Some [2]) (Some (replicate 32 7)) 5600 [[2, 9], sub_data sub, []])"
proof -
  obtain env where env: "seal_to toy_libs (replicate 24 4) (Some [1]) (enc_pk toy_libs [2]) (enc_recruitment toy_libs demo_recruitment) = Some env"
    using seal_to_open [OF toy_sealing_ok, of "replicate 24 4"] by fastforce
  define sub where "sub = \<lparr>sub_topic = recruit_topic toy_libs (replicate 32 7), sub_data = env, sub_prio = 1\<rparr>"
  have pub: "publish_recruitment toy_libs (replicate 24 4) (Some [1]) (enc_pk toy_libs [2]) (replicate 32 7)
       (enc_recruitment toy_libs demo_recruitment) 1 = Inr sub"
    by (simp add: publish_recruitment_def env sub_def)
  have "wf_recruitment demo_recruitment"
    unfolding wf_recruitment_def demo_recruitment_signed
    by (simp add: demo_recruitment_wf sign_sr25519_ctx_def toy_libs_def scale.defs length_toy_hash)
  from recruitment_delivered [OF toy_scale.scale_codec_axioms toy_sealing_ok _ this demo_recruitment_verifies pub,
      where sts = "[[2, 9], sub_data sub, []]"] pub
  show ?thesis by auto
qed

lemma unat_announce_prio:
  assumes "PRIO_EPOCH \<le> w" and "unat w < unat PRIO_EPOCH + 2 ^ 31"
  shows "unat (announce_prio w) = 2 * (unat w - unat PRIO_EPOCH)"
proof -
  let ?d = "sat_sub w PRIO_EPOCH"
  have d: "unat ?d = unat w - unat PRIO_EPOCH" by (simp add: unat_sat_sub)
  have "(0x7FFFFFFF :: u64) = mask 31" by (simp add: mask_eq_exp_minus_1)
  then have "?d AND 0x7FFFFFFF = take_bit 31 ?d" by (simp only: take_bit_eq_mask)
  then have "unat (?d AND 0x7FFFFFFF) = unat ?d mod 2 ^ 31"
    by (simp only: unsigned_take_bit_eq) (simp only: take_bit_eq_mod)
  then have "unat (?d AND 0x7FFFFFFF) = unat ?d" using assms(2) d by simp
  then have u: "unat (ucast (?d AND 0x7FFFFFFF) :: u32) = unat ?d"
    using assms(2) d by (simp add: unsigned_ucast_eq take_bit_eq_mod)
  have "unat (push_bit 1 (ucast (?d AND 0x7FFFFFFF) :: u32)) = 2 * unat ?d"
    using u assms(2) d by (simp add: push_bit_eq_mult unat_word_ariths)
  then show ?thesis by (simp only: announce_prio_def d)
qed

lemma unat_or_one: "even (unat w) \<Longrightarrow> unat (w OR 1) = unat w + 1" for w :: "'a::len word"
  using or_one_eq [of "unat w"] by (simp only: unsigned_or_eq unsigned_1) simp

text \<open>
  The volunteer rendezvous is ordered by time. A withdrawal outranks the announcement
  of the same second, and every announcement of a later second outranks the withdrawal, so
  a restarted volunteer is never masked by its own tombstone; and no reader ever lists a
  tombstone, while a current announcement with capacity is listed until its TTL runs out.
\<close>

theorem rendezvous_order:
  assumes "scale_codec L" and "wf_volunteer rec" and "PRIO_EPOCH \<le> t" and "t \<le> t'" and "unat t' < unat PRIO_EPOCH + 2 ^ 31"
    and "vr_version rec = VOLUNTEER_VERSION" and "0 < vr_max_streams rec" and "vr_issued_at rec = t'" and "0 < mx"
  shows "sub_prio (publish_volunteer L (rec\<lparr>vr_issued_at := t\<rparr>)) < sub_prio (withdraw_volunteer L t rec)
    \<and> (t < t' \<longrightarrow> sub_prio (withdraw_volunteer L t rec) < sub_prio (publish_volunteer L rec))
    \<and> read_volunteers L mx now [sub_data (withdraw_volunteer L t rec)] = []
    \<and> (read_volunteers L mx now [sub_data (publish_volunteer L rec)] = [rec]
        \<longleftrightarrow> now \<le> sat_add t' (ucast (vr_ttl_s rec)))"
proof -
  have tomb: "wf_volunteer (rec\<lparr>vr_ttl_s := 1, vr_max_streams := 0, vr_active_streams := 0, vr_issued_at := t\<rparr>)"
    using assms(2) by (simp add: wf_volunteer_def)
  have rd: "read_volunteers L mx now [enc_volunteer L v] = filter_volunteers [v] mx now" if "wf_volunteer v" for v
    using scale_codec.volunteer_dec [OF assms(1) that] by (simp add: read_volunteers_def List.map_filter_def)
  have t: "unat PRIO_EPOCH \<le> unat t" "unat t \<le> unat t'" using assms(3,4) by (simp_all add: word_le_nat_alt)
  then have p: "unat (announce_prio t) = 2 * (unat t - unat PRIO_EPOCH)"
    "unat (announce_prio t') = 2 * (unat t' - unat PRIO_EPOCH)"
    using assms(3-5) by (auto intro!: unat_announce_prio)
  have o: "unat (announce_prio t OR 1) = unat (announce_prio t) + 1" by (rule unat_or_one) (simp add: p)
  show ?thesis
    using p o t assms(6-9)
    by (simp add: publish_volunteer_def withdraw_volunteer_def Let_def rd [OF tomb] rd [OF assms(2)] filter_volunteers_def
        word_less_nat_alt) linarith
qed

definition demo_volunteer :: volunteer_record where
  "demo_volunteer = \<lparr>vr_version = 1, vr_peer_id = replicate 32 1, vr_account = replicate 32 2, vr_enc_pub = replicate 32 3,
     vr_caps_upload_bps = 9, vr_active_streams = 0, vr_max_streams = 4, vr_ttl_s = 240, vr_issued_at = 1750000100\<rparr>"

theorem rendezvous_order_witness:
  "sub_prio (withdraw_volunteer toy_libs 1750000099 demo_volunteer) < sub_prio (publish_volunteer toy_libs demo_volunteer)
   \<and> read_volunteers toy_libs 5 1750000340 [sub_data (publish_volunteer toy_libs demo_volunteer)] = [demo_volunteer]"
proof -
  have "wf_volunteer demo_volunteer" by (simp add: demo_volunteer_def wf_volunteer_def)
  from rendezvous_order [OF toy_scale.scale_codec_axioms this, where t = 1750000099 and t' = 1750000100 and mx = 5
      and now = 1750000340] show ?thesis
    by (simp add: demo_volunteer_def PRIO_EPOCH_def VOLUNTEER_VERSION_def sat_add_def)
qed

lemma fold_bt_put: "bt_ok m \<Longrightarrow> bt_ok (fold (\<lambda>(s, i) m. bt_put s i m) es m)
    \<and> map_of (fold (\<lambda>(s, i) m. bt_put s i m) es m) = map_of m ++ map_of (rev es)"
proof (induction es arbitrary: m)
  case (Cons e es)
  obtain s i where e: "e = (s, i)" by (cases e)
  have "bt_ok (bt_put s i m)" using Cons.prems by (rule bt_ok_put)
  from Cons.IH [OF this] show ?case
    by (simp add: e bt_get_put [OF Cons.prems] fun_eq_iff map_add_def split: option.split)
qed simp

lemma edge_entry_codec: "scale_codec L \<Longrightarrow> byte_codec (enc_edge_entry L) (dec_edge_entry L) (\<lambda>(s, i). length i = 32)"
  by (rule byte_codec.intro) (auto simp: enc_edge_entry_def dec_edge_entry_def scale_codec.u64)

text \<open>
  The live edge survives the statement store: reading back any sequence of published
  edges gives, in ascending order of sequence number, exactly the published entries, the
  latest entry winning for a sequence number announced twice.
\<close>

theorem edge_roundtrip:
  assumes "scale_codec L" and "\<forall>es \<in> set ess. wf_vec (\<lambda>(s, i). length i = 32) es"
  shows "sorted_wrt (<) (map fst (read_edge L (map (\<lambda>es. sub_data (publish_edge L es c)) ess)))
    \<and> map_of (read_edge L (map (\<lambda>es. sub_data (publish_edge L es c)) ess)) = map_of (rev (concat ess))"
proof -
  let ?step = "\<lambda>st m. case dec_vec L (dec_edge_entry L) st of
      Some (raw, _) \<Rightarrow> fold (\<lambda>(s, i) m. bt_put s i m) raw m | None \<Rightarrow> m"
  have "bt_ok m \<Longrightarrow> bt_ok (fold ?step (map (\<lambda>es. sub_data (publish_edge L es c)) ess) m)
      \<and> map_of (fold ?step (map (\<lambda>es. sub_data (publish_edge L es c)) ess) m) = map_of m ++ map_of (rev (concat ess))" for m
    using assms(2)
  proof (induction ess arbitrary: m)
    case (Cons es ess)
    have "dec_vec L (dec_edge_entry L) (enc_vec L (enc_edge_entry L) es) = Some (es, [])"
      using scale_codec.dec_vec_enc [OF assms(1) edge_entry_codec [OF assms(1)], of es "[]"] Cons.prems(2) by simp
    then have step: "?step (sub_data (publish_edge L es c)) m = fold (\<lambda>(s, i) m. bt_put s i m) es m"
      by (simp add: publish_edge_def)
    from fold_bt_put [OF Cons.prems(1), of es]
    have "bt_ok (fold (\<lambda>(s, i) m. bt_put s i m) es m)" and get: "map_of (fold (\<lambda>(s, i) m. bt_put s i m) es m) = map_of m ++ map_of (rev es)"
      by blast+
    from Cons.IH [OF this(1)] Cons.prems(2) show ?case
      by (simp add: step get)
  qed simp
  from this [of "[]"] show ?thesis by (simp add: read_edge_def bt_ok_def)
qed

theorem edge_roundtrip_witness:
  "map_of (read_edge toy_libs (map (\<lambda>es. sub_data (publish_edge toy_libs es demo_signaling))
      [[(4, replicate 32 1), (3, replicate 32 2)], [(4, replicate 32 5)]])) 4 = Some (replicate 32 5)"
  using edge_roundtrip [OF toy_scale.scale_codec_axioms, where c = demo_signaling
      and ess = "[[(4, replicate 32 1), (3, replicate 32 2)], [(4, replicate 32 5)]]"]
  by (simp add: wf_vec_def)

end
