(* ===== verification/Supervisor.thy ===== *)
theory Supervisor
  imports Chain Signaling "HOL-Library.List_Lexorder"
begin

section \<open>The seed supervisor\<close>

text \<open>
  Models the node daemon of \<open>src/crates/unstation-node/src/\<close>: the admission and eviction
  policy (\<open>policy.rs\<close>), the recruit listener (\<open>recruit.rs\<close>), stream names (\<open>streams.rs\<close>,
  and the app's copy of the function), the bookkeeping of a worker (\<open>worker.rs\<close>) and the
  supervisor that owns the workers (\<open>supervisor.rs\<close>). What a worker's session and node
  report at a call is the observation \<open>ob\<close> of that call, with the clock; whether a worker
  can be spawned is a parameter; commands to workers are appended to \<open>sv_out\<close>. Durations
  are whole seconds, instants nanoseconds.
\<close>

subsection \<open>Stream names\<close>

text \<open>A Rust string is the list of its characters' code points.\<close>

type_synonym ustr = "nat list"

definition char_is_whitespace :: "nat \<Rightarrow> bool" where
  "char_is_whitespace c \<longleftrightarrow> (9 \<le> c \<and> c \<le> 13) \<or> c \<in> {32, 133, 160, 5760, 8232, 8233, 8239, 8287, 12288}
     \<or> (8192 \<le> c \<and> c \<le> 8202)"

definition trim_by :: "('a \<Rightarrow> bool) \<Rightarrow> 'a list \<Rightarrow> 'a list" where
  "trim_by P s = rev (dropWhile P (rev (dropWhile P s)))"

definition is_ascii_alphanumeric :: "nat \<Rightarrow> bool" where
  "is_ascii_alphanumeric c \<longleftrightarrow> (48 \<le> c \<and> c \<le> 57) \<or> (65 \<le> c \<and> c \<le> 90) \<or> (97 \<le> c \<and> c \<le> 122)"

definition to_ascii_lowercase :: "nat \<Rightarrow> nat" where
  "to_ascii_lowercase c = (if 65 \<le> c \<and> c \<le> 90 then c + 32 else c)"

definition ustr :: "string \<Rightarrow> ustr" where
  "ustr s = map of_char s"

definition strip_suffix :: "ustr \<Rightarrow> ustr \<Rightarrow> ustr" where
  "strip_suffix suf s =
     (if length suf \<le> length s \<and> drop (length s - length suf) s = suf then take (length s - length suf) s else s)"

fun slug_loop :: "ustr \<Rightarrow> bool \<Rightarrow> ustr \<Rightarrow> ustr" where
  "slug_loop out prev_dash [] = out"
| "slug_loop out prev_dash (ch # s) =
     (if is_ascii_alphanumeric ch then slug_loop (out @ [to_ascii_lowercase ch]) False s
      else if \<not> prev_dash then slug_loop (out @ [45]) True s
      else slug_loop out prev_dash s)"

definition canonical_stream_name :: "ustr \<Rightarrow> ustr" where
  "canonical_stream_name input =
     (let s = trim_by char_is_whitespace input;
          s = strip_suffix (ustr ''.dot'') s;
          out = trim_by (\<lambda>c. c = 45) (slug_loop [] False s)
      in if out = [] then ustr ''my-stream'' else out)"

definition app_canonical_stream_name :: "ustr \<Rightarrow> ustr" where
  "app_canonical_stream_name input =
     (let s = strip_suffix (ustr ''.dot'') (trim_by char_is_whitespace input);
          trimmed = trim_by (\<lambda>c. c = 45) (slug_loop [] False s)
      in if trimmed = [] then ustr ''my-stream'' else trimmed)"

text \<open>The canonical name is ASCII, so its UTF-8 bytes are its code points.\<close>

definition stream_id_from :: "libs \<Rightarrow> ustr \<Rightarrow> stream_id" where
  "stream_id_from L name = blake2b256 L (map of_nat (canonical_stream_name name))"

subsection \<open>Policy\<close>

definition RELEASED_IDLE_EVICT :: nat where "RELEASED_IDLE_EVICT = 60"

record policy_cfg =
  max_streams :: nat
  total_budget_bps :: u64
  min_stream_budget_bps :: u64
  idle_evict :: nat
  stall_evict :: nat
  join_grace :: nat
  dormant_after :: nat
  per_publisher_cap :: nat

definition policy_default :: policy_cfg where
  "policy_default = \<lparr>max_streams = 8, total_budget_bps = 50 * 1000000, min_stream_budget_bps = 4000000,
     idle_evict = 600, stall_evict = 60, join_grace = 120, dormant_after = 60, per_publisher_cap = 2\<rparr>"

definition env_u64 :: "u64 option \<Rightarrow> u64 \<Rightarrow> u64" where
  "env_u64 parsed dflt = (case parsed of Some v \<Rightarrow> v | None \<Rightarrow> dflt)"

definition policy_from_env :: "u64 option \<Rightarrow> u64 option \<Rightarrow> policy_cfg" where
  "policy_from_env streams mbps = policy_default\<lparr>max_streams := unat (env_u64 streams 8),
     total_budget_bps := env_u64 mbps 50 * 1000000\<rparr>"

definition budget_capacity :: "policy_cfg \<Rightarrow> nat" where
  "budget_capacity cfg = unat (total_budget_bps cfg div max (min_stream_budget_bps cfg) 1)"

record worker_view =
  v_stream :: bytes
  v_publisher :: "bytes option"
  v_pinned :: bool
  v_peers :: nat
  v_head_seq :: u64
  v_secs_since_head_advance :: nat
  v_secs_since_spawn :: nat
  v_secs_at_zero_peers :: nat
  v_released :: bool

datatype evict_reason = Stalled | Idle | Released
datatype verdict = Serve | Dormant | Evict evict_reason

definition evaluate :: "worker_view \<Rightarrow> policy_cfg \<Rightarrow> verdict" where
  "evaluate v cfg =
     (if \<not> v_pinned v \<and> stall_evict cfg \<le> v_secs_since_head_advance v
         \<and> (0 < v_head_seq v \<or> join_grace cfg \<le> v_secs_since_spawn v) then Evict Stalled
      else if \<not> v_pinned v \<and> v_released v \<and> RELEASED_IDLE_EVICT \<le> v_secs_at_zero_peers v then Evict Released
      else if \<not> v_pinned v \<and> idle_evict cfg \<le> v_secs_at_zero_peers v then Evict Idle
      else if dormant_after cfg \<le> v_secs_at_zero_peers v then Dormant
      else Serve)"

datatype admit = Accept | AcceptEvicting bytes | Reject string

text \<open>\<open>Iterator::max_by_key\<close> on a pair of counters: the last of the greatest.\<close>

definition idle_le :: "worker_view \<Rightarrow> worker_view \<Rightarrow> bool" where
  "idle_le a b \<longleftrightarrow> v_secs_at_zero_peers a < v_secs_at_zero_peers b
     \<or> v_secs_at_zero_peers a = v_secs_at_zero_peers b \<and> v_secs_since_spawn a \<le> v_secs_since_spawn b"

fun max_by :: "('a \<Rightarrow> 'a \<Rightarrow> bool) \<Rightarrow> 'a list \<Rightarrow> 'a option" where
  "max_by le [] = None"
| "max_by le (x # xs) = Some (foldl (\<lambda>m y. if le m y then y else m) x xs)"

definition admit_recruit :: "bytes \<Rightarrow> bytes \<Rightarrow> worker_view list \<Rightarrow> policy_cfg \<Rightarrow> admit" where
  "admit_recruit publisher stream views cfg =
     (if list_ex (\<lambda>v. v_stream v = stream) views then Reject ''already serving''
      else if per_publisher_cap cfg \<le> length (filter (\<lambda>v. \<not> v_pinned v \<and> v_publisher v = Some publisher) views)
        then Reject ''per-publisher cap''
      else if length views < min (max_streams cfg) (budget_capacity cfg) then Accept
      else case max_by idle_le (filter (\<lambda>v. \<not> v_pinned v \<and> v_peers v = 0) views) of
             Some v \<Rightarrow> AcceptEvicting (v_stream v)
           | None \<Rightarrow> Reject ''at capacity, every stream has peers'')"

definition serving_share :: "worker_view list \<Rightarrow> policy_cfg \<Rightarrow> u64" where
  "serving_share views cfg =
     (let n = (of_nat (length (filter (\<lambda>v. 0 < v_peers v) views)) :: u64)
      in if n = 0 then min_stream_budget_bps cfg
         else max (total_budget_bps cfg div n) (min_stream_budget_bps cfg))"

definition budgets :: "worker_view list \<Rightarrow> policy_cfg \<Rightarrow> (bytes \<times> u64) list" where
  "budgets views cfg =
     map (\<lambda>v. (v_stream v, if 0 < v_peers v then serving_share views cfg else min_stream_budget_bps cfg)) views"

subsection \<open>The recruit listener\<close>

record verified_recruitment =
  vc_stream :: stream_id
  vc_canon_hint :: string
  vc_publisher :: bytes
  vc_manifest_cid :: cid
  vc_seg_ms :: u32
  vc_action :: recruit_action
  vc_issued_at :: u64

type_synonym dedup_key = "bytes \<times> bytes \<times> u64 \<times> nat"

definition dedup_key :: "recruitment \<Rightarrow> dedup_key" where
  "dedup_key r = (rc_publisher r, rc_stream_id r, rc_issued_at r, (case rc_action r of Recruit \<Rightarrow> 0 | Release \<Rightarrow> 1))"

definition verify_recruitment :: "libs \<Rightarrow> (cid \<Rightarrow> core_error + signed_manifest) \<Rightarrow> recruitment \<Rightarrow> verified_recruitment option" where
  "verify_recruitment L fetch r =
     map_option (\<lambda>seg_ms. \<lparr>vc_stream = rc_stream_id r, vc_canon_hint = take 16 (hex32 (rc_stream_id r)),
         vc_publisher = rc_publisher r, vc_manifest_cid = rc_manifest_cid r, vc_seg_ms = seg_ms,
         vc_action = rc_action r, vc_issued_at = rc_issued_at r\<rparr>)
       (case rc_action r of
          Release \<Rightarrow> Some 0
        | Recruit \<Rightarrow>
            (case fetch (rc_manifest_cid r) of
               Inl e \<Rightarrow> None
             | Inr m \<Rightarrow>
                 if sm_verify L m (rc_publisher r) \<noteq> Inr () then None
                 else if m_stream_id (sm_manifest m) \<noteq> rc_stream_id r then None
                 else Some (if 0 < m_target_segment_ms (sm_manifest m) then m_target_segment_ms (sm_manifest m) else 1000)))"

text \<open>One pass of the listener over what the inbox returned; the first component of the result
  is the dedup set, the second what is forwarded to the supervisor.\<close>

definition retain_seen :: "u64 \<Rightarrow> dedup_key list \<Rightarrow> dedup_key list" where
  "retain_seen now seen = filter (\<lambda>(_, _, issued_at, _). sat_sub now issued_at \<le> 2 * RECRUIT_MAX_SKEW_S) seen"

definition listen_one :: "libs \<Rightarrow> (cid \<Rightarrow> core_error + signed_manifest) \<Rightarrow> recruitment
    \<Rightarrow> dedup_key list \<times> verified_recruitment list \<Rightarrow> dedup_key list \<times> verified_recruitment list" where
  "listen_one L fetch r = (\<lambda>(seen, out).
     if dedup_key r \<in> set seen then (seen, out)
     else (hs_insert (dedup_key r) seen,
           case verify_recruitment L fetch r of Some v \<Rightarrow> out @ [v] | None \<Rightarrow> out))"

definition listen_pass :: "libs \<Rightarrow> (cid \<Rightarrow> core_error + signed_manifest) \<Rightarrow> u64 \<Rightarrow> recruitment list
    \<Rightarrow> dedup_key list \<times> verified_recruitment list \<Rightarrow> dedup_key list \<times> verified_recruitment list" where
  "listen_pass L fetch now recs = (\<lambda>(seen, out). fold (listen_one L fetch) recs (retain_seen now seen, out))"

subsection \<open>Workers and entries\<close>

record worker =
  w_stream :: stream_id
  w_pinned :: bool
  w_publisher :: "bytes option"
  w_spawned_at :: instant
  w_head_track :: "u64 \<times> instant"
  w_dormant :: bool

record worker_report =
  rp_peers :: nat
  rp_head_seq :: u64
  rp_sent_bytes :: u64

record observation =
  ob_now :: instant
  ob_report :: "stream_id \<Rightarrow> worker_report"

record worker_snapshot =
  sn_stream :: stream_id
  sn_pinned :: bool
  sn_peers :: nat
  sn_head_seq :: u64
  sn_sent_bytes :: u64
  sn_spawned_at :: instant
  sn_last_head_advance :: instant
  sn_dormant :: bool

definition worker_spawn :: "instant \<Rightarrow> stream_id \<Rightarrow> bool \<Rightarrow> bytes option \<Rightarrow> worker" where
  "worker_spawn now stream pinned publisher = \<lparr>w_stream = stream, w_pinned = pinned, w_publisher = publisher,
     w_spawned_at = now, w_head_track = (0, now), w_dormant = False\<rparr>"

definition worker_snapshot :: "observation \<Rightarrow> worker \<Rightarrow> worker \<times> worker_snapshot" where
  "worker_snapshot ob w =
     (let rp = ob_report ob (w_stream w);
          w1 = (if fst (w_head_track w) < rp_head_seq rp then w\<lparr>w_head_track := (rp_head_seq rp, ob_now ob)\<rparr> else w)
      in (w1, \<lparr>sn_stream = w_stream w, sn_pinned = w_pinned w, sn_peers = rp_peers rp, sn_head_seq = rp_head_seq rp,
               sn_sent_bytes = rp_sent_bytes rp, sn_spawned_at = w_spawned_at w,
               sn_last_head_advance = snd (w_head_track w1), sn_dormant = w_dormant w\<rparr>))"

record entry =
  e_worker :: worker
  e_released :: bool
  e_zero_since :: "instant option"
  e_last_budget :: u64
  e_prev_sent :: u64

definition entry_new :: "instant \<Rightarrow> worker \<Rightarrow> u64 \<Rightarrow> entry" where
  "entry_new now w budget = \<lparr>e_worker = w, e_released = False, e_zero_since = Some now,
     e_last_budget = budget, e_prev_sent = 0\<rparr>"

datatype command = SetBudget stream_id u64 | SetDormant stream_id bool | Shutdown stream_id

record supervisor =
  sv_entries :: "(bytes, entry) btree_map"
  sv_out :: "command list"

definition tell :: "command \<Rightarrow> supervisor \<Rightarrow> supervisor" where
  "tell c sv = sv\<lparr>sv_out := sv_out sv @ [c]\<rparr>"

definition upd_entry :: "bytes \<Rightarrow> (entry \<Rightarrow> entry) \<Rightarrow> supervisor \<Rightarrow> supervisor" where
  "upd_entry k f sv = sv\<lparr>sv_entries := map (\<lambda>(j, e). (j, if j = k then f e else e)) (sv_entries sv)\<rparr>"

definition elapsed_secs :: "instant \<Rightarrow> instant \<Rightarrow> nat" where
  "elapsed_secs now t = (now - t) div secs 1"

definition roll_entry :: "observation \<Rightarrow> entry \<Rightarrow> entry \<times> worker_snapshot \<times> worker_view" where
  "roll_entry ob e =
     (let (w, snap) = worker_snapshot ob (e_worker e);
          zero = (if sn_peers snap = 0 then
                    (case e_zero_since e of None \<Rightarrow> Some (ob_now ob) | Some t \<Rightarrow> Some t)
                  else None);
          e1 = e\<lparr>e_worker := w, e_zero_since := zero\<rparr>
      in (e1, snap,
          \<lparr>v_stream = sn_stream snap, v_publisher = w_publisher w, v_pinned = sn_pinned snap, v_peers = sn_peers snap,
           v_head_seq = sn_head_seq snap, v_secs_since_head_advance = elapsed_secs (ob_now ob) (sn_last_head_advance snap),
           v_secs_since_spawn = elapsed_secs (ob_now ob) (sn_spawned_at snap),
           v_secs_at_zero_peers = (case zero of Some t \<Rightarrow> elapsed_secs (ob_now ob) t | None \<Rightarrow> 0),
           v_released = e_released e\<rparr>))"

definition collect_views :: "observation \<Rightarrow> supervisor \<Rightarrow> supervisor \<times> (bytes \<times> worker_snapshot) list \<times> worker_view list" where
  "collect_views ob sv =
     (let rolled = map (\<lambda>(k, e). (k, roll_entry ob e)) (sv_entries sv)
      in (sv\<lparr>sv_entries := map (\<lambda>(k, (e, _, _)). (k, e)) rolled\<rparr>,
          map (\<lambda>(k, (_, snap, _)). (sn_stream snap, snap)) rolled,
          map (\<lambda>(k, (_, _, v)). v) rolled))"

definition set_budget :: "bytes \<times> u64 \<Rightarrow> supervisor \<Rightarrow> supervisor" where
  "set_budget = (\<lambda>(stream, bps) sv.
     case map_of (sv_entries sv) stream of
       Some e \<Rightarrow> if e_last_budget e \<noteq> bps
                 then upd_entry stream (\<lambda>e. e\<lparr>e_last_budget := bps\<rparr>) (tell (SetBudget stream bps) sv) else sv
     | None \<Rightarrow> sv)"

definition rebalance :: "observation \<Rightarrow> policy_cfg \<Rightarrow> supervisor \<Rightarrow> supervisor" where
  "rebalance ob cfg sv =
     (let (sv1, _, views) = collect_views ob sv in fold set_budget (budgets views cfg) sv1)"

definition remove_entry :: "bytes \<Rightarrow> supervisor \<Rightarrow> supervisor" where
  "remove_entry k sv =
     (case map_of (sv_entries sv) k of
        Some _ \<Rightarrow> tell (Shutdown k) (sv\<lparr>sv_entries := AList.delete k (sv_entries sv)\<rparr>)
      | None \<Rightarrow> sv)"

subsection \<open>Recruitments and sweeps\<close>

definition spawn_recruited :: "(stream_id \<Rightarrow> bool) \<Rightarrow> observation \<Rightarrow> policy_cfg \<Rightarrow> verified_recruitment \<Rightarrow> supervisor \<Rightarrow> supervisor" where
  "spawn_recruited can_spawn ob cfg vr sv =
     (if can_spawn (vc_stream vr) then
        rebalance ob cfg (sv\<lparr>sv_entries := bt_put (vc_stream vr)
          (entry_new (ob_now ob) (worker_spawn (ob_now ob) (vc_stream vr) False (Some (vc_publisher vr)))
             (min_stream_budget_bps cfg)) (sv_entries sv)\<rparr>)
      else sv)"

definition on_recruitment :: "(stream_id \<Rightarrow> bool) \<Rightarrow> observation \<Rightarrow> observation \<Rightarrow> policy_cfg \<Rightarrow> verified_recruitment
    \<Rightarrow> supervisor \<Rightarrow> supervisor" where
  "on_recruitment can_spawn ob ob' cfg vr sv =
     (case vc_action vr of
        Release \<Rightarrow>
          (case map_of (sv_entries sv) (vc_stream vr) of
             Some e \<Rightarrow> if w_publisher (e_worker e) = Some (vc_publisher vr)
                       then upd_entry (vc_stream vr) (\<lambda>e. e\<lparr>e_released := True\<rparr>) sv else sv
           | None \<Rightarrow> sv)
      | Recruit \<Rightarrow>
          (case map_of (sv_entries sv) (vc_stream vr) of
             Some _ \<Rightarrow> upd_entry (vc_stream vr) (\<lambda>e. e\<lparr>e_released := False,
                 e_zero_since := (case e_zero_since e of Some _ \<Rightarrow> Some (ob_now ob) | None \<Rightarrow> None)\<rparr>) sv
           | None \<Rightarrow>
               (let (sv1, _, views) = collect_views ob sv
                in case admit_recruit (vc_publisher vr) (vc_stream vr) views cfg of
                     Accept \<Rightarrow> spawn_recruited can_spawn ob' cfg vr sv1
                   | AcceptEvicting victim \<Rightarrow> spawn_recruited can_spawn ob' cfg vr (remove_entry victim sv1)
                   | Reject _ \<Rightarrow> sv1)))"

definition park :: "(worker_view \<times> (bytes \<times> worker_snapshot)) \<Rightarrow> policy_cfg \<Rightarrow> supervisor \<Rightarrow> supervisor" where
  "park vks cfg sv = (case vks of (view, key, snap) \<Rightarrow>
     (case evaluate view cfg of
        Evict _ \<Rightarrow> sv
      | Dormant \<Rightarrow> if \<not> sn_dormant snap
          then tell (SetDormant key True) (upd_entry key (\<lambda>e. e\<lparr>e_worker := (e_worker e)\<lparr>w_dormant := True\<rparr>\<rparr>) sv) else sv
      | Serve \<Rightarrow> if sn_dormant snap
          then tell (SetDormant key False) (upd_entry key (\<lambda>e. e\<lparr>e_worker := (e_worker e)\<lparr>w_dormant := False\<rparr>\<rparr>) sv) else sv))"

definition evictions :: "(worker_view \<times> (bytes \<times> worker_snapshot)) list \<Rightarrow> policy_cfg \<Rightarrow> bytes list" where
  "evictions vks cfg =
     map (\<lambda>(_, key, _). key) (filter (\<lambda>(view, _). case evaluate view cfg of Evict _ \<Rightarrow> True | _ \<Rightarrow> False) vks)"

definition sweep_once :: "observation \<Rightarrow> observation \<Rightarrow> policy_cfg \<Rightarrow> supervisor \<Rightarrow> supervisor" where
  "sweep_once ob ob' cfg sv =
     (let (sv1, snaps, views) = collect_views ob sv;
          vks = zip views snaps;
          sv2 = fold (\<lambda>vks. park vks cfg) vks sv1;
          sv3 = fold remove_entry (evictions vks cfg) sv2;
          sv4 = rebalance ob' cfg sv3
      in fold (\<lambda>(key, snap). upd_entry key (\<lambda>e. e\<lparr>e_prev_sent := sn_sent_bytes snap\<rparr>)) snaps sv4)"

subsection \<open>Start-up\<close>

text \<open>The pinned workers are spawned first; a pin that cannot start ends the process (\<open>None\<close>).\<close>

definition pin_names :: "ustr list \<Rightarrow> ustr list" where
  "pin_names pins = fold (\<lambda>name canons.
     let canon = canonical_stream_name name in if canon \<in> set canons then canons else canons @ [canon]) pins []"

definition pin_budget :: "policy_cfg \<Rightarrow> ustr list \<Rightarrow> u64" where
  "pin_budget cfg canons =
     (if canons = [] then min_stream_budget_bps cfg
      else max (total_budget_bps cfg div of_nat (length canons)) (min_stream_budget_bps cfg))"

fun spawn_pins :: "libs \<Rightarrow> (stream_id \<Rightarrow> bool) \<Rightarrow> instant \<Rightarrow> u64 \<Rightarrow> ustr list \<Rightarrow> supervisor \<Rightarrow> supervisor option" where
  "spawn_pins L can_spawn now budget [] sv = Some sv"
| "spawn_pins L can_spawn now budget (canon # canons) sv =
     (let stream = stream_id_from L canon
      in if can_spawn stream then
           spawn_pins L can_spawn now budget canons
             (sv\<lparr>sv_entries := bt_put stream (entry_new now (worker_spawn now stream True None) budget) (sv_entries sv)\<rparr>)
         else None)"

definition supervisor_start :: "libs \<Rightarrow> (stream_id \<Rightarrow> bool) \<Rightarrow> instant \<Rightarrow> policy_cfg \<Rightarrow> ustr list \<Rightarrow> supervisor option" where
  "supervisor_start L can_spawn now cfg pins =
     spawn_pins L can_spawn now (pin_budget cfg (pin_names pins)) (pin_names pins) \<lparr>sv_entries = [], sv_out = []\<rparr>"

definition VOLUNTEER_TTL_S :: u32 where "VOLUNTEER_TTL_S = 240"

definition volunteer_record_of :: "peer_id option \<Rightarrow> bytes option \<Rightarrow> bytes option \<Rightarrow> u64 \<Rightarrow> u32 \<Rightarrow> u32 \<Rightarrow> u64 \<Rightarrow> volunteer_record option" where
  "volunteer_record_of local_peer account enc cap mx active now = do {
     p \<leftarrow> local_peer; a \<leftarrow> account; e \<leftarrow> enc;
     Some \<lparr>vr_version = VOLUNTEER_VERSION, vr_peer_id = p, vr_account = a, vr_enc_pub = e, vr_caps_upload_bps = cap,
           vr_active_streams = active, vr_max_streams = mx, vr_ttl_s = VOLUNTEER_TTL_S, vr_issued_at = now\<rparr> }"

subsection \<open>Canonical names\<close>

definition slug_char :: "nat \<Rightarrow> bool" where
  "slug_char c \<longleftrightarrow> c = 45 \<or> (48 \<le> c \<and> c \<le> 57) \<or> (97 \<le> c \<and> c \<le> 122)"

abbreviation no_double_dash :: "ustr \<Rightarrow> bool" where
  "no_double_dash \<equiv> successively (\<lambda>x y. \<not> (x = 45 \<and> y = 45))"

definition slug_ok :: "ustr \<Rightarrow> bool" where
  "slug_ok s \<longleftrightarrow> list_all slug_char s \<and> no_double_dash s"

lemma slug_loop_ok:
  "slug_ok out \<Longrightarrow> prev \<longleftrightarrow> out \<noteq> [] \<and> last out = 45 \<Longrightarrow> slug_ok (slug_loop out prev s)"
proof (induction out prev s rule: slug_loop.induct)
  case (2 out prev ch s)
  show ?case
  proof (cases "is_ascii_alphanumeric ch")
    case True
    then have "to_ascii_lowercase ch \<noteq> 45" "slug_char (to_ascii_lowercase ch)"
      by (auto simp: is_ascii_alphanumeric_def to_ascii_lowercase_def slug_char_def)
    then have "slug_ok (out @ [to_ascii_lowercase ch])"
      using 2(4) by (simp add: slug_ok_def successively_append_iff)
    with 2(1) [OF True] True \<open>to_ascii_lowercase ch \<noteq> 45\<close> show ?thesis by simp
  next
    case False
    show ?thesis
    proof (cases prev)
      case True
      with 2(3) [OF False] 2(4,5) False show ?thesis by simp
    next
      case nodash: False
      then have "slug_ok (out @ [45])"
        using 2(4,5) by (simp add: slug_ok_def successively_append_iff slug_char_def)
      with 2(2) [OF False nodash] False nodash show ?thesis by simp
    qed
  qed
qed simp

lemma slug_loop_id:
  "list_all slug_char s \<Longrightarrow> no_double_dash s \<Longrightarrow> (prev \<Longrightarrow> s \<noteq> [] \<Longrightarrow> hd s \<noteq> 45) \<Longrightarrow> slug_loop out prev s = out @ s"
proof (induction s arbitrary: out prev)
  case (Cons c s)
  have rest: "no_double_dash s" "c = 45 \<Longrightarrow> s \<noteq> [] \<Longrightarrow> hd s \<noteq> 45"
    using Cons.prems(2) by (auto simp: successively_Cons)
  show ?case
  proof (cases "c = 45")
    case True
    then have "\<not> prev" using Cons.prems(3) by auto
    moreover have "slug_loop (out @ [45]) True s = (out @ [45]) @ s"
      using Cons.prems(1) rest True by (intro Cons.IH) auto
    ultimately show ?thesis using True by (simp add: is_ascii_alphanumeric_def)
  next
    case False
    then have "is_ascii_alphanumeric c" "to_ascii_lowercase c = c"
      using Cons.prems(1) by (auto simp: slug_char_def is_ascii_alphanumeric_def to_ascii_lowercase_def)
    moreover have "slug_loop (out @ [c]) False s = (out @ [c]) @ s"
      using Cons.prems(1) rest by (intro Cons.IH) auto
    ultimately show ?thesis by simp
  qed
qed simp

lemma trim_by_append: "\<exists>a b. s = a @ trim_by P s @ b"
proof -
  have "s = takeWhile P s @ rev (takeWhile P (rev (dropWhile P s)) @ dropWhile P (rev (dropWhile P s)))"
    by (simp only: takeWhile_dropWhile_id rev_rev_ident)
  then show ?thesis unfolding trim_by_def by (metis rev_append append.assoc)
qed

lemma slug_ok_trim: "slug_ok s \<Longrightarrow> slug_ok (trim_by P s)"
proof -
  assume "slug_ok s"
  moreover obtain a b where "s = a @ trim_by P s @ b" using trim_by_append by blast
  ultimately have "slug_ok (a @ trim_by P s @ b)" by simp
  then show ?thesis by (simp add: slug_ok_def successively_append_iff)
qed

lemma trim_by_ends:
  assumes "trim_by P s \<noteq> []"
  shows "\<not> P (hd (trim_by P s)) \<and> \<not> P (last (trim_by P s))"
proof -
  let ?m = "dropWhile P s" and ?r = "dropWhile P (rev (dropWhile P s))"
  have r: "?r \<noteq> []" using assms by (simp add: trim_by_def)
  then have m: "?m \<noteq> []" by (metis dropWhile.simps(1) rev.simps(1))
  have "?m = rev ?r @ rev (takeWhile P (rev ?m))"
    by (metis rev_append rev_rev_ident takeWhile_dropWhile_id)
  then have "hd ?m = hd (rev ?r)" using r by (metis hd_append2 rev_is_Nil_conv)
  moreover have "\<not> P (hd ?m)" using m by (rule hd_dropWhile)
  moreover have "\<not> P (hd ?r)" using r by (rule hd_dropWhile)
  ultimately show ?thesis using r by (simp add: trim_by_def last_rev)
qed

lemma trim_by_id: "(s \<noteq> [] \<Longrightarrow> \<not> P (hd s) \<and> \<not> P (last s)) \<Longrightarrow> trim_by P s = s"
proof (cases s)
  case (Cons c s')
  moreover assume ends: "s \<noteq> [] \<Longrightarrow> \<not> P (hd s) \<and> \<not> P (last s)"
  ultimately have "\<not> P (hd s)" "\<not> P (hd (rev s))" by (simp only: hd_rev, blast)+
  then have "dropWhile P s = s" "dropWhile P (rev s) = rev s" by (simp_all add: dropWhile_eq_self_iff)
  then show ?thesis by (simp add: trim_by_def)
qed (simp add: trim_by_def)

text \<open>A canonical name: nonempty, lower-case alphanumerics and inner single hyphens.\<close>

definition name_ok :: "ustr \<Rightarrow> bool" where
  "name_ok s \<longleftrightarrow> s \<noteq> [] \<and> slug_ok s \<and> hd s \<noteq> 45 \<and> last s \<noteq> 45"

lemma canonical_name_ok: "name_ok (canonical_stream_name s)"
proof (cases "trim_by (\<lambda>c. c = 45) (slug_loop [] False (strip_suffix (ustr ''.dot'') (trim_by char_is_whitespace s))) = []")
  case True
  then show ?thesis
    by (simp add: canonical_stream_name_def Let_def name_ok_def slug_ok_def ustr_def slug_char_def of_char_def)
next
  case False
  have "slug_ok (slug_loop [] False (strip_suffix (ustr ''.dot'') (trim_by char_is_whitespace s)))"
    by (rule slug_loop_ok) (simp_all add: slug_ok_def)
  with False show ?thesis
    using trim_by_ends [OF False] by (simp add: canonical_stream_name_def Let_def name_ok_def slug_ok_trim)
qed

lemma canonical_id:
  assumes "name_ok s"
  shows "canonical_stream_name s = s"
proof -
  have ch: "c \<in> set s \<Longrightarrow> slug_char c" for c using assms by (simp add: name_ok_def slug_ok_def list_all_iff)
  have nw: "slug_char c \<Longrightarrow> \<not> char_is_whitespace c" for c by (auto simp: slug_char_def char_is_whitespace_def)
  have "trim_by char_is_whitespace s = s"
    by (rule trim_by_id) (simp add: nw ch)
  moreover have "strip_suffix (ustr ''.dot'') s = s"
  proof (rule ccontr)
    assume "strip_suffix (ustr ''.dot'') s \<noteq> s"
    then have "drop (length s - 4) s = ustr ''.dot''"
      by (auto simp: strip_suffix_def ustr_def eval_nat_numeral split: if_splits)
    then have "46 \<in> set (drop (length s - 4) s)" by (simp add: ustr_def)
    then have "46 \<in> set s" by (rule in_set_dropD)
    from ch [OF this] show False by (simp add: slug_char_def)
  qed
  moreover have "slug_loop [] False s = s"
    using assms slug_loop_id [of s False "[]"] by (simp add: name_ok_def slug_ok_def)
  moreover have "trim_by (\<lambda>c. c = 45) s = s" using assms by (intro trim_by_id) (simp add: name_ok_def)
  ultimately show ?thesis using assms by (simp add: canonical_stream_name_def Let_def name_ok_def)
qed

text \<open>
  C20: The node daemon and the app agree on stream names: their canonicalisation functions are
  equal, every result is a nonempty run of lower-case alphanumerics joined by single hyphens,
  and canonicalising again changes nothing, so a name, its canonical form and the id derived
  from either denote the same swarm.
\<close>

theorem canonical_name:
  "app_canonical_stream_name s = canonical_stream_name s
   \<and> name_ok (canonical_stream_name s)
   \<and> canonical_stream_name (canonical_stream_name s) = canonical_stream_name s
   \<and> stream_id_from L (app_canonical_stream_name s) = stream_id_from L s"
proof -
  have "app_canonical_stream_name s = canonical_stream_name s"
    by (simp add: app_canonical_stream_name_def canonical_stream_name_def)
  then show ?thesis by (simp add: canonical_name_ok canonical_id stream_id_from_def)
qed

end
