(* ===== verification/Supervisor_Inv.thy ===== *)
theory Supervisor_Inv
  imports Supervisor
begin

section \<open>Invariants of the supervisor\<close>

text \<open>
  The set of streams a supervisor serves, through start-up, any sequence of recruitments and
  any sequence of sweeps, whatever the workers report. Every operation is first described by
  what it does to the \<^emph>\<open>profile\<close> of the supervisor (which stream, pinned or not, for which
  publisher); the policy's promises are then invariants of the profile.
\<close>

subsection \<open>Profiles\<close>

type_synonym tag = "stream_id \<times> bool \<times> bytes option"

definition tag :: "entry \<Rightarrow> tag" where
  "tag e = (w_stream (e_worker e), w_pinned (e_worker e), w_publisher (e_worker e))"

definition profile :: "supervisor \<Rightarrow> (bytes, tag) btree_map" where
  "profile sv = map (\<lambda>(k, e). (k, tag e)) (sv_entries sv)"

named_theorems profile_step

lemma length_profile: "length (profile sv) = length (sv_entries sv)"
  by (simp add: profile_def)

lemma keys_profile: "map fst (profile sv) = map fst (sv_entries sv)"
  by (simp add: profile_def case_prod_unfold o_def)

lemma profile_tell [profile_step]: "profile (tell c sv) = profile sv"
  by (simp add: profile_def tell_def)

lemma profile_upd [profile_step]: "(\<And>e. tag (f e) = tag e) \<Longrightarrow> profile (upd_entry k f sv) = profile sv"
  by (simp add: profile_def upd_entry_def split_beta)

lemma tag_roll: "tag (fst (roll_entry ob e)) = tag e"
  by (simp add: roll_entry_def tag_def worker_snapshot_def Let_def)

lemma profile_collect [profile_step]: "profile (fst (collect_views ob sv)) = profile sv"
  by (simp add: profile_def collect_views_def Let_def split_beta tag_roll o_def)

lemma views_profile:
  "map (\<lambda>v. (v_stream v, v_pinned v, v_publisher v)) (snd (snd (collect_views ob sv))) = map snd (profile sv)"
  by (simp add: profile_def collect_views_def Let_def split_beta tag_def roll_entry_def worker_snapshot_def)

lemma snaps_views:
  "map fst (fst (snd (collect_views ob sv))) = map v_stream (snd (snd (collect_views ob sv)))"
  by (simp add: collect_views_def Let_def split_beta roll_entry_def worker_snapshot_def)

lemma tag_budget [simp]: "tag (e\<lparr>e_last_budget := b\<rparr>) = tag e" "tag (e\<lparr>e_prev_sent := s\<rparr>) = tag e"
  "tag (e\<lparr>e_released := r\<rparr>) = tag e" "tag (e\<lparr>e_released := r, e_zero_since := z\<rparr>) = tag e"
  "tag (e\<lparr>e_worker := (e_worker e)\<lparr>w_dormant := d\<rparr>\<rparr>) = tag e"
  by (simp_all add: tag_def)

lemma profile_set_budget [profile_step]: "profile (set_budget kb sv) = profile sv"
  by (simp add: set_budget_def split_beta profile_step split: option.split)

lemma profile_fold: "(\<And>x sv. profile (f x sv) = profile sv) \<Longrightarrow> profile (fold f xs sv) = profile sv"
  by (induction xs arbitrary: sv) simp_all

lemma profile_rebalance [profile_step]: "profile (rebalance ob cfg sv) = profile sv"
  by (simp add: rebalance_def split_beta Let_def profile_fold profile_step)

lemma profile_park [profile_step]: "profile (park vks cfg sv) = profile sv"
  by (simp add: park_def split_beta profile_step split: verdict.split)

lemma profile_delete: "map (\<lambda>(k, e). (k, tag e)) (AList.delete k m) = AList.delete k (map (\<lambda>(k, e). (k, tag e)) m)"
  by (induction m) (auto simp: AList.delete_eq)

lemma profile_remove: "profile (remove_entry k sv) = AList.delete k (profile sv)"
proof (cases "map_of (sv_entries sv) k")
  case None
  then have "k \<notin> fst ` set (profile sv)" by (force simp: profile_def map_of_eq_None_iff)
  then have "AList.delete k (profile sv) = profile sv" by (rule delete_id)
  with None show ?thesis by (simp add: remove_entry_def)
qed (simp add: remove_entry_def profile_step, simp add: profile_def profile_delete)

lemma profile_remove_all: "profile (fold remove_entry ks sv) = filter (\<lambda>(k, _). k \<notin> set ks) (profile sv)"
  by (induction ks arbitrary: sv)
    (auto simp: profile_remove AList.delete_eq filter_filter split_beta intro!: filter_cong)

lemma profile_put:
  "profile (sv\<lparr>sv_entries := bt_put k e (sv_entries sv)\<rparr>) = bt_put k (tag e) (profile sv)"
proof -
  have "map (\<lambda>(k, e). (k, tag e)) (bt_put k e m) = bt_put k (tag e) (map (\<lambda>(k, e). (k, tag e)) m)" for m
    by (induction m) auto
  then show ?thesis by (simp add: profile_def)
qed

subsection \<open>The policy's promises\<close>

definition publisher_load :: "bytes \<Rightarrow> (bytes, tag) btree_map \<Rightarrow> nat" where
  "publisher_load pub m = length (filter (\<lambda>(_, _, pinned, publisher). \<not> pinned \<and> publisher = Some pub) m)"

definition pinned_streams :: "(bytes, tag) btree_map \<Rightarrow> bytes set" where
  "pinned_streams m = {k. \<exists>s u. (k, s, True, u) \<in> set m}"

abbreviation capacity :: "policy_cfg \<Rightarrow> nat" where
  "capacity cfg \<equiv> min (max_streams cfg) (budget_capacity cfg)"

definition profile_ok :: "policy_cfg \<Rightarrow> bytes set \<Rightarrow> (bytes, tag) btree_map \<Rightarrow> bool" where
  "profile_ok cfg pins m \<longleftrightarrow> bt_ok m \<and> (\<forall>(k, s, _) \<in> set m. s = k)
     \<and> length m \<le> max (card pins) (capacity cfg)
     \<and> (\<forall>pub. publisher_load pub m \<le> per_publisher_cap cfg)
     \<and> pinned_streams m = pins"

lemma load_filter: "publisher_load pub (filter Q m) \<le> publisher_load pub m"
  by (induction m) (auto simp: publisher_load_def)

lemma profile_ok_filter:
  assumes "profile_ok cfg pins m" and "\<And>k s u. (k, s, True, u) \<in> set m \<Longrightarrow> Q (k, s, True, u)"
  shows "profile_ok cfg pins (filter Q m)"
proof -
  have "length (filter Q m) \<le> max (card pins) (capacity cfg)"
    using assms(1) by (auto simp: profile_ok_def intro: order_trans [OF length_filter_le])
  moreover have "publisher_load pub (filter Q m) \<le> per_publisher_cap cfg" for pub
    using assms(1) load_filter [of pub Q m] by (auto simp: profile_ok_def intro: order_trans)
  moreover have "pinned_streams (filter Q m) = pinned_streams m"
    using assms(2) unfolding pinned_streams_def by fastforce
  ultimately show ?thesis using assms(1) by (auto simp: profile_ok_def bt_ok_filter)
qed

lemma bt_put_new: "map_of m k = None \<Longrightarrow> \<exists>a b. m = a @ b \<and> bt_put k v m = a @ (k, v) # b"
proof (induction m)
  case (Cons kv m)
  obtain j w where kv: "kv = (j, w)" by fastforce
  show ?case
  proof (cases "k < j")
    case True
    then show ?thesis using kv by (intro exI [of _ "[]"] exI [of _ "kv # m"]) simp
  next
    case False
    moreover have "k \<noteq> j" using Cons.prems kv by auto
    moreover obtain a b where "m = a @ b" "bt_put k v m = a @ (k, v) # b"
      using Cons.IH Cons.prems kv by (auto split: if_splits)
    ultimately have "kv # m = (kv # a) @ b \<and> bt_put k v (kv # m) = (kv # a) @ (k, v) # b" using kv by simp
    then show ?thesis by blast
  qed
qed simp

lemma profile_ok_put:
  assumes ok: "profile_ok cfg pins m" and new: "map_of m k = None"
    and room: "length m < max (card pins) (capacity cfg)" and load: "publisher_load pub m < per_publisher_cap cfg"
  shows "profile_ok cfg pins (bt_put k (k, False, Some pub) m)"
proof -
  obtain a b where m: "m = a @ b" and p: "bt_put k (k, False, Some pub) m = a @ (k, k, False, Some pub) # b"
    using bt_put_new [OF new] by blast
  have "publisher_load q (bt_put k (k, False, Some pub) m) \<le> per_publisher_cap cfg" for q
    using ok [unfolded m] load [unfolded m] unfolding p
    by (cases "q = pub") (auto simp: publisher_load_def profile_ok_def)
  moreover have "bt_ok (bt_put k (k, False, Some pub) m)" using ok by (simp add: profile_ok_def bt_ok_put)
  ultimately show ?thesis
    using ok [unfolded m] room [unfolded m] unfolding p by (auto simp: profile_ok_def pinned_streams_def)
qed

lemma max_by_in: "max_by le xs = Some x \<Longrightarrow> x \<in> set xs"
proof (cases xs)
  case (Cons y ys)
  have "foldl (\<lambda>m y. if le m y then y else m) z ys \<in> insert z (set ys)" for z
    by (induction ys arbitrary: z) auto
  moreover assume "max_by le xs = Some x"
  ultimately show ?thesis using Cons by force
qed simp

subsection \<open>Recruitments and sweeps keep them\<close>

lemma map_of_profile: "map_of (profile sv) k = map_option tag (map_of (sv_entries sv) k)"
  by (simp add: profile_def map_of_map)

lemma profile_spawn:
  "profile (spawn_recruited can_spawn ob cfg vr sv) =
     (if can_spawn (vc_stream vr) then bt_put (vc_stream vr) (vc_stream vr, False, Some (vc_publisher vr)) (profile sv)
      else profile sv)"
proof -
  have "tag (entry_new now (worker_spawn now s False u) b) = (s, False, u)" for now s u b
    by (simp add: tag_def entry_new_def worker_spawn_def)
  then show ?thesis by (simp add: spawn_recruited_def profile_step profile_put)
qed

lemma load_views:
  assumes "views = snd (snd (collect_views ob sv))"
  shows "length (filter (\<lambda>v. \<not> v_pinned v \<and> v_publisher v = Some pub) views) = publisher_load pub (profile sv)"
    and "length views = length (profile sv)"
    and "v \<in> set views \<Longrightarrow> profile_ok cfg pins (profile sv) \<Longrightarrow> (v_stream v, v_stream v, v_pinned v, v_publisher v) \<in> set (profile sv)"
proof -
  let ?t = "\<lambda>v. (v_stream v, v_pinned v, v_publisher v)"
  have eq: "map ?t views = map snd (profile sv)" unfolding assms by (rule views_profile)
  have "length (filter (\<lambda>v. \<not> v_pinned v \<and> v_publisher v = Some pub) views)
      = length (filter (\<lambda>(_, p, u). \<not> p \<and> u = Some pub) (map ?t views))" by (simp add: filter_map o_def)
  also have "\<dots> = publisher_load pub (profile sv)"
    unfolding eq by (simp add: publisher_load_def filter_map o_def case_prod_unfold)
  finally show "length (filter (\<lambda>v. \<not> v_pinned v \<and> v_publisher v = Some pub) views) = publisher_load pub (profile sv)" .
  show "length views = length (profile sv)" using eq by (rule map_eq_imp_length_eq)
  assume "v \<in> set views" and ok: "profile_ok cfg pins (profile sv)"
  then have "?t v \<in> set (map ?t views)" by force
  then obtain k where "(k, ?t v) \<in> set (profile sv)" unfolding eq by force
  moreover from this have "v_stream v = k" using ok by (auto simp: profile_ok_def)
  ultimately show "(v_stream v, v_stream v, v_pinned v, v_publisher v) \<in> set (profile sv)" by simp
qed

lemma admit_cases:
  assumes ok: "profile_ok cfg pins (profile sv)" and views: "views = snd (snd (collect_views ob sv))"
    and adm: "admit_recruit pub s views cfg = r"
  shows "r = Accept \<Longrightarrow> publisher_load pub (profile sv) < per_publisher_cap cfg \<and> length (profile sv) < capacity cfg"
    and "r = AcceptEvicting k \<Longrightarrow> publisher_load pub (profile sv) < per_publisher_cap cfg
           \<and> k \<in> fst ` set (profile sv) \<and> k \<notin> pinned_streams (profile sv)"
proof -
  note lv = load_views [OF views]
  show "r = Accept \<Longrightarrow> publisher_load pub (profile sv) < per_publisher_cap cfg \<and> length (profile sv) < capacity cfg"
    using adm by (auto simp: admit_recruit_def lv(1,2) split: if_splits option.splits)
  assume r: "r = AcceptEvicting k"
  then obtain v where v: "max_by idle_le (filter (\<lambda>v. \<not> v_pinned v \<and> v_peers v = 0) views) = Some v" "k = v_stream v"
    and load: "publisher_load pub (profile sv) < per_publisher_cap cfg"
    using adm by (auto simp: admit_recruit_def lv(1) split: if_splits option.splits)
  from max_by_in [OF v(1)] have "v \<in> set views" "\<not> v_pinned v" by auto
  then have mem: "(k, k, False, v_publisher v) \<in> set (profile sv)" using lv(3) [OF _ ok] v(2) by force
  moreover have "distinct (map fst (profile sv))" using ok by (simp add: profile_ok_def bt_distinct)
  ultimately have "k \<notin> pinned_streams (profile sv)"
    by (auto simp: pinned_streams_def dest: eq_key_imp_eq_value)
  then show "publisher_load pub (profile sv) < per_publisher_cap cfg
           \<and> k \<in> fst ` set (profile sv) \<and> k \<notin> pinned_streams (profile sv)"
    using mem load by force
qed

lemma profile_ok_delete:
  assumes "profile_ok cfg pins m" "k \<notin> pins"
  shows "profile_ok cfg pins (AList.delete k m)"
  unfolding AList.delete_eq using assms by (intro profile_ok_filter) (auto simp: profile_ok_def pinned_streams_def)

lemma on_recruitment_ok:
  assumes "profile_ok cfg pins (profile sv)"
  shows "profile_ok cfg pins (profile (on_recruitment can_spawn ob ob' cfg vr sv))"
proof (cases "vc_action vr = Recruit \<and> map_of (sv_entries sv) (vc_stream vr) = None")
  case True
  obtain sv1 snaps views where cv: "collect_views ob sv = (sv1, snaps, views)" by (cases "collect_views ob sv") auto
  then have p1: "profile sv1 = profile sv" using profile_collect [of ob sv] by simp
  have new: "map_of (profile sv) (vc_stream vr) = None" using True by (simp add: map_of_profile)
  have views: "views = snd (snd (collect_views ob sv))" using cv by simp
  note ac = admit_cases [OF assms views refl, of "vc_publisher vr" "vc_stream vr"]
  show ?thesis
  proof (cases "admit_recruit (vc_publisher vr) (vc_stream vr) views cfg")
    case Accept
    with ac(1) assms new show ?thesis
      using True cv p1 by (auto simp: on_recruitment_def profile_spawn intro!: profile_ok_put)
  next
    case (AcceptEvicting k)
    let ?m = "AList.delete k (profile sv)"
    have k: "k \<in> fst ` set (profile sv)" "k \<notin> pins"
      and load: "publisher_load (vc_publisher vr) (profile sv) < per_publisher_cap cfg"
      using ac(2) [OF AcceptEvicting] assms by (auto simp: profile_ok_def)
    have ok: "profile_ok cfg pins ?m" using assms k(2) by (rule profile_ok_delete)
    have "length ?m < length (profile sv)"
      using k(1) unfolding AList.delete_eq by (auto intro: length_filter_less)
    then have room: "length ?m < max (card pins) (capacity cfg)" using assms by (simp add: profile_ok_def)
    have "publisher_load (vc_publisher vr) ?m \<le> publisher_load (vc_publisher vr) (profile sv)"
      unfolding AList.delete_eq by (rule load_filter)
    with load have "publisher_load (vc_publisher vr) ?m < per_publisher_cap cfg" by simp
    moreover have "map_of ?m (vc_stream vr) = None" using new by (simp add: delete_conv')
    ultimately show ?thesis
      using True cv p1 AcceptEvicting ok room
      by (auto simp: on_recruitment_def profile_spawn profile_remove intro!: profile_ok_put)
  qed (use True cv p1 assms in \<open>simp add: on_recruitment_def\<close>)
next
  case False
  then have "profile (on_recruitment can_spawn ob ob' cfg vr sv) = profile sv"
    by (auto simp: on_recruitment_def profile_step split: recruit_action.split option.split)
  then show ?thesis using assms by simp
qed

lemma evictions_unpinned:
  assumes ok: "profile_ok cfg pins (profile sv)" and cv: "collect_views ob sv = (sv1, snaps, views)"
    and k: "k \<in> set (evictions (zip views snaps) cfg)"
  shows "k \<notin> pins"
proof -
  obtain v s where vs: "(v, k, s) \<in> set (zip views snaps)" and ev: "\<exists>r. evaluate v cfg = Evict r"
    using k by (auto simp: evictions_def split: verdict.splits)
  have "map fst snaps = map v_stream views" using snaps_views [of ob sv] cv by simp
  with vs have "k = v_stream v" by (auto simp: set_zip) (metis fst_conv nth_map)
  moreover have "v \<in> set views" using vs by (rule set_zip_leftD)
  ultimately have mem: "(k, k, v_pinned v, v_publisher v) \<in> set (profile sv)"
    using load_views(3) [OF _ _ ok, of views ob v] cv by simp
  have "\<not> v_pinned v" using ev by (auto simp: evaluate_def split: if_splits)
  with mem ok show ?thesis
    by (auto simp: profile_ok_def pinned_streams_def dest!: bt_distinct dest: eq_key_imp_eq_value)
qed

lemma sweep_ok:
  assumes "profile_ok cfg pins (profile sv)"
  shows "profile_ok cfg pins (profile (sweep_once ob ob' cfg sv))"
proof -
  obtain sv1 snaps views where cv: "collect_views ob sv = (sv1, snaps, views)" by (cases "collect_views ob sv") auto
  then have p1: "profile sv1 = profile sv" using profile_collect [of ob sv] by simp
  have "profile (sweep_once ob ob' cfg sv)
      = filter (\<lambda>(k, _). k \<notin> set (evictions (zip views snaps) cfg)) (profile sv)"
    using p1 by (simp add: sweep_once_def cv Let_def profile_fold profile_step profile_remove_all split_beta)
  also have "profile_ok cfg pins \<dots>"
    using assms evictions_unpinned [OF assms cv]
    by (intro profile_ok_filter) (auto simp: profile_ok_def pinned_streams_def)
  finally show ?thesis .
qed

subsection \<open>Start-up establishes them\<close>

definition all_pinned :: "(bytes, tag) btree_map \<Rightarrow> bool" where
  "all_pinned m \<longleftrightarrow> bt_ok m \<and> (\<forall>(k, s, p, u) \<in> set m. s = k \<and> p \<and> u = None)"

lemma in_bt_put: "x \<in> set (bt_put k v m) \<Longrightarrow> x = (k, v) \<or> x \<in> set m"
  by (induction m) (auto split: if_splits)

lemma all_pinned_put: "all_pinned m \<Longrightarrow> all_pinned (bt_put k (k, True, None) m)"
  unfolding all_pinned_def by (blast intro: bt_ok_put dest: in_bt_put)

lemma spawn_pins_profile:
  assumes "spawn_pins L can_spawn now budget canons sv = Some sv'" and "all_pinned (profile sv)"
  shows "all_pinned (profile sv')
    \<and> set (map fst (profile sv')) = set (map fst (profile sv)) \<union> stream_id_from L ` set canons"
  using assms
proof (induction canons arbitrary: sv)
  case (Cons canon canons)
  let ?s = "stream_id_from L canon"
  let ?sv = "sv\<lparr>sv_entries := bt_put ?s (entry_new now (worker_spawn now ?s True None) budget) (sv_entries sv)\<rparr>"
  have "profile ?sv = bt_put ?s (?s, True, None) (profile sv)"
    by (simp add: profile_put tag_def entry_new_def worker_spawn_def)
  moreover have "spawn_pins L can_spawn now budget canons ?sv = Some sv'"
    using Cons.prems(1) by (simp add: Let_def split: if_splits)
  ultimately show ?case
    using Cons.IH [of ?sv] all_pinned_put [OF Cons.prems(2)] by (auto simp del: set_map simp: set_bt_put)
qed simp

lemma set_pin_names: "set (pin_names pins) = canonical_stream_name ` set pins"
proof -
  have "set (fold (\<lambda>name canons. let canon = canonical_stream_name name
      in if canon \<in> set canons then canons else canons @ [canon]) pins acc) = set acc \<union> canonical_stream_name ` set pins" for acc
    by (induction pins arbitrary: acc) (auto simp: Let_def)
  then show ?thesis by (simp add: pin_names_def)
qed

lemma start_ok:
  assumes "supervisor_start L can_spawn now cfg pins = Some sv"
  shows "profile_ok cfg (stream_id_from L ` set pins) (profile sv)"
proof -
  have "stream_id_from L ` set (pin_names pins) = stream_id_from L ` set pins"
    by (simp add: set_pin_names image_image stream_id_from_def canonical_id canonical_name_ok)
  with spawn_pins_profile [OF assms [unfolded supervisor_start_def]]
  have p: "all_pinned (profile sv)" and keys: "set (map fst (profile sv)) = stream_id_from L ` set pins"
    by (simp_all add: profile_def all_pinned_def)
  have "length (profile sv) = card (set (map fst (profile sv)))"
    using p distinct_card [of "map fst (profile sv)"] by (simp add: all_pinned_def bt_distinct)
  moreover have "publisher_load pub (profile sv) = 0" for pub
    using p by (auto simp: publisher_load_def all_pinned_def filter_empty_conv)
  moreover have "pinned_streams (profile sv) = set (map fst (profile sv))"
    using p by (force simp: pinned_streams_def all_pinned_def)
  ultimately show ?thesis using p keys by (auto simp: profile_ok_def all_pinned_def)
qed

text \<open>The states of the daemon: start-up, then recruitments and sweeps in any order, with any
  worker reports and any outcome of spawning.\<close>

inductive sup_reach :: "libs \<Rightarrow> policy_cfg \<Rightarrow> ustr list \<Rightarrow> supervisor \<Rightarrow> bool" for L cfg pins where
  start: "supervisor_start L can_spawn now cfg pins = Some sv \<Longrightarrow> sup_reach L cfg pins sv"
| recruit: "sup_reach L cfg pins sv \<Longrightarrow> sup_reach L cfg pins (on_recruitment can_spawn ob ob' cfg vr sv)"
| sweep: "sup_reach L cfg pins sv \<Longrightarrow> sup_reach L cfg pins (sweep_once ob ob' cfg sv)"

lemma sup_reach_ok: "sup_reach L cfg pins sv \<Longrightarrow> profile_ok cfg (stream_id_from L ` set pins) (profile sv)"
  by (induction rule: sup_reach.induct) (simp_all add: start_ok on_recruitment_ok sweep_ok)

lemma sup_reach_distinct: "sup_reach L cfg pins sv \<Longrightarrow> distinct (map fst (sv_entries sv))"
  using sup_reach_ok [of L cfg pins sv] bt_distinct [of "profile sv"] by (simp add: profile_ok_def keys_profile)

lemma publisher_load_entries:
  "publisher_load pub (profile sv)
   = length (filter (\<lambda>(_, e). \<not> w_pinned (e_worker e) \<and> w_publisher (e_worker e) = Some pub) (sv_entries sv))"
  by (simp add: publisher_load_def profile_def filter_map o_def case_prod_unfold tag_def)

text \<open>
  C16: Whatever recruitments arrive and whatever the workers report, the daemon never serves
  more streams than its configured and its budgeted capacity (or its pins, when there are more
  of them), never serves more recruited streams for one publisher than the per-publisher cap,
  serves every stream once, and never evicts a pinned stream or pins a recruited one.
\<close>

theorem supervisor_bounds:
  assumes "sup_reach L cfg pins sv"
  shows "length (sv_entries sv) \<le> max (length pins) (min (max_streams cfg) (budget_capacity cfg))
    \<and> length (filter (\<lambda>(_, e). \<not> w_pinned (e_worker e) \<and> w_publisher (e_worker e) = Some pub) (sv_entries sv))
        \<le> per_publisher_cap cfg
    \<and> distinct (map fst (sv_entries sv))
    \<and> {w_stream (e_worker e) | k e. (k, e) \<in> set (sv_entries sv) \<and> w_pinned (e_worker e)} = stream_id_from L ` set pins"
proof -
  note ok = sup_reach_ok [OF assms]
  have "card (stream_id_from L ` set pins) \<le> length pins"
    by (rule order_trans [OF card_image_le card_length]) simp
  then have "length (sv_entries sv) \<le> max (length pins) (capacity cfg)"
    using ok by (auto simp: profile_ok_def length_profile)
  moreover note keys_profile [of sv]
  moreover have "{w_stream (e_worker e) | k e. (k, e) \<in> set (sv_entries sv) \<and> w_pinned (e_worker e)}
      = {s. \<exists>k u. (k, s, True, u) \<in> set (profile sv)}" by (force simp: profile_def tag_def)
  moreover have "s = k" if "(k, s, p, u) \<in> set (profile sv)" for k s p u
    using ok that by (auto simp: profile_ok_def)
  then have "{s. \<exists>k u. (k, s, True, u) \<in> set (profile sv)} = pinned_streams (profile sv)"
    unfolding pinned_streams_def by blast
  ultimately show ?thesis
    using ok bt_distinct [of "profile sv"] by (simp add: profile_ok_def publisher_load_entries)
qed

definition demo_observation :: observation where
  "demo_observation = \<lparr>ob_now = secs 5, ob_report = (\<lambda>_. \<lparr>rp_peers = 0, rp_head_seq = 0, rp_sent_bytes = 0\<rparr>)\<rparr>"

definition demo_verified :: verified_recruitment where
  "demo_verified = \<lparr>vc_stream = [7], vc_canon_hint = [], vc_publisher = [9], vc_manifest_cid = [],
     vc_seg_ms = 1000, vc_action = Recruit, vc_issued_at = 0\<rparr>"

definition demo_supervisor :: supervisor where
  "demo_supervisor = on_recruitment (\<lambda>_. True) demo_observation demo_observation policy_default demo_verified
     \<lparr>sv_entries = [], sv_out = []\<rparr>"

lemma demo_supervisor_profile: "profile demo_supervisor = [([7], [7], False, Some [9])]"
proof -
  have "0 < budget_capacity policy_default" by (simp add: budget_capacity_def policy_default_def)
  then have "admit_recruit [9] [7] [] policy_default = Accept" by (simp add: admit_recruit_def policy_default_def)
  then show ?thesis
    by (simp add: demo_supervisor_def on_recruitment_def demo_verified_def collect_views_def profile_spawn)
      (simp add: profile_def)
qed

lemma demo_sup_reach: "sup_reach toy_libs policy_default [] demo_supervisor"
proof -
  have "supervisor_start toy_libs (\<lambda>_. True) 0 policy_default [] = Some \<lparr>sv_entries = [], sv_out = []\<rparr>"
    by (simp add: supervisor_start_def pin_names_def)
  then show ?thesis
    unfolding demo_supervisor_def by (intro sup_reach.recruit sup_reach.start)
qed

theorem supervisor_bounds_witness:
  "length (sv_entries demo_supervisor) = 1 \<and> per_publisher_cap policy_default = 2
    \<and> length (filter (\<lambda>(_, e). \<not> w_pinned (e_worker e) \<and> w_publisher (e_worker e) = Some [9]) (sv_entries demo_supervisor)) \<le> 2"
proof -
  from supervisor_bounds [OF demo_sup_reach, of "[9]"] show ?thesis
    using length_profile [of demo_supervisor] by (simp add: policy_default_def demo_supervisor_profile)
qed

subsection \<open>The recruit listener\<close>

definition verified_key :: "verified_recruitment \<Rightarrow> dedup_key" where
  "verified_key v = (vc_publisher v, vc_stream v, vc_issued_at v, (case vc_action v of Recruit \<Rightarrow> 0 | Release \<Rightarrow> 1))"

lemma verify_recruitment_key: "verify_recruitment L fetch r = Some v \<Longrightarrow> verified_key v = dedup_key r"
  by (auto simp: verify_recruitment_def verified_key_def dedup_key_def)

type_synonym pass = "(cid \<Rightarrow> core_error + signed_manifest) \<times> u64 \<times> recruitment list"

definition listen :: "libs \<Rightarrow> pass list \<Rightarrow> dedup_key list \<times> verified_recruitment list" where
  "listen L passes = fold (\<lambda>(fetch, now, recs). listen_pass L fetch now recs) passes ([], [])"

definition presented :: "pass list \<Rightarrow> ((cid \<Rightarrow> core_error + signed_manifest) \<times> recruitment) set" where
  "presented passes = {(fetch, r). \<exists>now recs. (fetch, now, recs) \<in> set passes \<and> r \<in> set recs}"

lemma listen_fold:
  assumes "fold (listen_one L fetch) recs (seen, out) = (seen', out')"
    and "distinct (map verified_key out)"
    and "\<And>r. r \<in> set recs \<Longrightarrow> dedup_key r \<in> verified_key ` set out \<Longrightarrow> dedup_key r \<in> set seen"
  shows "distinct (map verified_key out') \<and> set seen' = set seen \<union> dedup_key ` set recs
    \<and> set out \<subseteq> set out' \<and> (\<forall>v \<in> set out'. v \<in> set out \<or> (\<exists>r \<in> set recs. verify_recruitment L fetch r = Some v))
    \<and> (\<forall>r \<in> set recs. dedup_key r \<notin> set seen
         \<longrightarrow> (\<forall>r' \<in> set recs. dedup_key r' = dedup_key r \<longrightarrow> verify_recruitment L fetch r' \<noteq> None)
         \<longrightarrow> dedup_key r \<in> verified_key ` set out')"
  using assms
proof (induction recs arbitrary: seen out)
  case (Cons r recs)
  show ?case
  proof (cases "dedup_key r \<in> set seen")
    case True
    then show ?thesis using Cons.IH [of seen out] Cons.prems by (auto simp: listen_one_def [of L fetch r])
  next
    case False
    define out1 where "out1 = (case verify_recruitment L fetch r of Some v \<Rightarrow> out @ [v] | None \<Rightarrow> out)"
    have step: "fold (listen_one L fetch) recs (hs_insert (dedup_key r) seen, out1) = (seen', out')"
      using Cons.prems(1) False unfolding out1_def by (simp add: listen_one_def [of L fetch r])
    have "dedup_key r \<notin> verified_key ` set out" using Cons.prems(3) False by auto
    then have d: "distinct (map verified_key out1)"
      using Cons.prems(2) by (cases "verify_recruitment L fetch r") (simp_all add: out1_def verify_recruitment_key)
    have old: "\<And>q. q \<in> set recs \<Longrightarrow> dedup_key q \<in> verified_key ` set out1 \<Longrightarrow> dedup_key q \<in> set (hs_insert (dedup_key r) seen)"
      using Cons.prems(3) by (auto simp: out1_def dest!: verify_recruitment_key split: option.splits)
    have "verify_recruitment L fetch r \<noteq> None \<Longrightarrow> dedup_key r \<in> verified_key ` set out1"
      using verify_recruitment_key by (fastforce simp: out1_def)
    moreover have "set out \<subseteq> set out1" "\<forall>v \<in> set out1. v \<in> set out \<or> verify_recruitment L fetch r = Some v"
      by (auto simp: out1_def split: option.splits)
    ultimately show ?thesis using Cons.IH [OF step d old] by (auto 0 4)
  qed
qed simp

text \<open>A record read at \<open>now\<close> is fresh, which \<open>recruit_verify\<close> ensures; time does not run backwards.\<close>

definition fresh_passes :: "pass list \<Rightarrow> bool" where
  "fresh_passes passes \<longleftrightarrow> sorted (map (\<lambda>(_, now, _). now) passes)
     \<and> (\<forall>(_, now, recs) \<in> set passes. \<forall>r \<in> set recs. abs_diff now (rc_issued_at r) \<le> RECRUIT_MAX_SKEW_S)"

lemma fresh_sat_sub: "abs_diff now t \<le> b \<Longrightarrow> sat_sub now t \<le> b"
  by (simp add: abs_diff_def sat_sub_def split: if_splits)

lemma sat_sub_mono: "a \<le> b \<Longrightarrow> sat_sub a c \<le> sat_sub b (c :: 'a::len word)"
  by (simp add: word_le_nat_alt unat_sat_sub)

definition listen_inv :: "libs \<Rightarrow> pass list \<Rightarrow> dedup_key list \<Rightarrow> verified_recruitment list \<Rightarrow> bool" where
  "listen_inv L passes seen out \<longleftrightarrow> distinct (map verified_key out)
     \<and> (\<forall>v \<in> set out. \<exists>(fetch, r) \<in> presented passes. verify_recruitment L fetch r = Some v)
     \<and> (\<forall>(fetch, r) \<in> presented passes. \<forall>now. (\<forall>(_, t, _) \<in> set passes. t \<le> now) \<longrightarrow>
          sat_sub now (rc_issued_at r) \<le> RECRUIT_MAX_SKEW_S \<longrightarrow> dedup_key r \<in> set seen)
     \<and> (\<forall>k \<in> set seen. \<exists>(fetch, r) \<in> presented passes. dedup_key r = k)
     \<and> (\<forall>(fetch, r) \<in> presented passes.
          (\<forall>(fetch', r') \<in> presented passes. dedup_key r' = dedup_key r \<longrightarrow> verify_recruitment L fetch' r' \<noteq> None)
          \<longrightarrow> dedup_key r \<in> verified_key ` set out)"

lemma presented_snoc:
  "presented (passes @ [(fetch, now, recs)]) = presented passes \<union> {fetch} \<times> set recs"
  by (auto simp: presented_def)

lemma dedup_key_issued: "dedup_key r = dedup_key r' \<Longrightarrow> rc_issued_at r = rc_issued_at r'"
  by (simp add: dedup_key_def)

lemma retain_fresh:
  "dedup_key r \<in> set seen \<Longrightarrow> sat_sub now (rc_issued_at r) \<le> RECRUIT_MAX_SKEW_S \<Longrightarrow> dedup_key r \<in> set (retain_seen now seen)"
  by (auto simp: retain_seen_def dedup_key_def RECRUIT_MAX_SKEW_S_def word_le_nat_alt)

lemma listen_inv_pass:
  assumes inv: "listen_inv L passes seen out"
    and later: "\<forall>(_, t, _) \<in> set passes. t \<le> now"
    and fresh: "\<And>r. r \<in> set recs \<Longrightarrow> sat_sub now (rc_issued_at r) \<le> RECRUIT_MAX_SKEW_S"
    and pass: "listen_pass L fetch now recs (seen, out) = (seen', out')"
  shows "listen_inv L (passes @ [(fetch, now, recs)]) seen' out'"
proof -
  let ?kept = "retain_seen now seen"
  from inv have old: "\<And>f r. (f, r) \<in> presented passes \<Longrightarrow>
        \<forall>(f', r') \<in> presented passes. dedup_key r' = dedup_key r \<longrightarrow> verify_recruitment L f' r' \<noteq> None
        \<Longrightarrow> dedup_key r \<in> verified_key ` set out"
    and old_seen: "\<And>k. k \<in> set seen \<Longrightarrow> \<exists>(f, r) \<in> presented passes. dedup_key r = k"
    unfolding listen_inv_def by blast+
  have kept: "dedup_key r \<in> set ?kept"
    if "(f, r) \<in> presented passes" "sat_sub now (rc_issued_at r) \<le> RECRUIT_MAX_SKEW_S" for f r
    using inv that later by (intro retain_fresh) (auto simp: listen_inv_def)
  have "dedup_key r \<in> set ?kept" if r: "r \<in> set recs" "dedup_key r \<in> verified_key ` set out" for r
  proof -
    obtain v f r' where "v \<in> set out" "verified_key v = dedup_key r" "(f, r') \<in> presented passes"
      "verify_recruitment L f r' = Some v" using inv r(2) unfolding listen_inv_def by fastforce
    then have "dedup_key r' = dedup_key r" by (simp add: verify_recruitment_key)
    moreover from this have "rc_issued_at r' = rc_issued_at r" by (rule dedup_key_issued)
    ultimately show ?thesis using kept [OF \<open>(f, r') \<in> presented passes\<close>] fresh [OF r(1)] by simp
  qed
  moreover have "fold (listen_one L fetch) recs (?kept, out) = (seen', out')"
    using pass by (simp add: listen_pass_def)
  ultimately have
      step: "distinct (map verified_key out')" "set seen' = set ?kept \<union> dedup_key ` set recs" "set out \<subseteq> set out'"
        "\<And>v. v \<in> set out' \<Longrightarrow> v \<in> set out \<or> (\<exists>r \<in> set recs. verify_recruitment L fetch r = Some v)"
    and complete: "\<And>r. r \<in> set recs \<Longrightarrow> dedup_key r \<notin> set ?kept \<Longrightarrow>
         (\<forall>r' \<in> set recs. dedup_key r' = dedup_key r \<longrightarrow> verify_recruitment L fetch r' \<noteq> None)
         \<Longrightarrow> dedup_key r \<in> verified_key ` set out'"
    using listen_fold [of L fetch recs ?kept out seen' out'] inv by (auto simp: listen_inv_def)
  have kept_seen: "set ?kept \<subseteq> set seen" by (auto simp: retain_seen_def)
  have "dedup_key r \<in> set seen'"
    if "(f, r) \<in> presented (passes @ [(fetch, now, recs)])" "now \<le> now'"
      "sat_sub now' (rc_issued_at r) \<le> RECRUIT_MAX_SKEW_S" for f r now'
    using that step(2) kept sat_sub_mono [OF that(2), of "rc_issued_at r"] by (auto simp: presented_snoc)
  moreover have "\<exists>(f, r) \<in> presented (passes @ [(fetch, now, recs)]). dedup_key r = k" if "k \<in> set seen'" for k
    using inv that step(2) kept_seen unfolding listen_inv_def presented_snoc by fastforce
  moreover have "\<exists>(f, r) \<in> presented (passes @ [(fetch, now, recs)]). verify_recruitment L f r = Some v"
    if "v \<in> set out'" for v using inv step(4) [OF that] unfolding listen_inv_def presented_snoc by fastforce
  moreover have "dedup_key r \<in> verified_key ` set out'"
    if r: "(f, r) \<in> presented (passes @ [(fetch, now, recs)])"
      and all: "\<forall>(f', r') \<in> presented (passes @ [(fetch, now, recs)]). dedup_key r' = dedup_key r \<longrightarrow> verify_recruitment L f' r' \<noteq> None" for f r
  proof (cases "\<exists>(f', r') \<in> presented passes. dedup_key r' = dedup_key r")
    case True
    then obtain f' r' where r': "(f', r') \<in> presented passes" "dedup_key r' = dedup_key r" by blast
    then have "dedup_key r' \<in> verified_key ` set out"
      using all unfolding presented_snoc by (intro old [OF r'(1)]) auto
    with r'(2) step(3) show ?thesis by auto
  next
    case False
    then have "r \<in> set recs" "f = fetch" using r unfolding presented_snoc by auto
    moreover have "dedup_key r \<notin> set ?kept" using False old_seen kept_seen by blast
    ultimately show ?thesis using complete all unfolding presented_snoc by blast
  qed
  ultimately show ?thesis using step(1) unfolding listen_inv_def by (auto simp: split_beta)
qed

lemma listen_listen_inv: "fresh_passes passes \<Longrightarrow> listen_inv L passes (fst (listen L passes)) (snd (listen L passes))"
proof (induction passes rule: rev_induct)
  case Nil
  then show ?case by (simp add: listen_inv_def listen_def presented_def)
next
  case (snoc pass passes)
  obtain fetch now recs where pass: "pass = (fetch, now, recs)" by (cases pass)
  from snoc.prems have "fresh_passes passes" "\<forall>(_, t, _) \<in> set passes. t \<le> now"
    and "\<And>r. r \<in> set recs \<Longrightarrow> sat_sub now (rc_issued_at r) \<le> RECRUIT_MAX_SKEW_S"
    by (auto simp: fresh_passes_def pass sorted_append intro: fresh_sat_sub)
  note step = listen_inv_pass [OF snoc.IH [OF this(1)] this(2,3)]
  show ?case unfolding pass by (rule step) (simp_all add: listen_def)
qed

text \<open>
  C17: Although the statement store returns the same recruitments again on every read, the
  listener hands each assignment (publisher, stream, issue time, action) to the supervisor at
  most once over any sequence of reads with a clock that does not run backwards; it hands it
  over when the manifest checks succeed at every reading of it; and every Recruit handed over came from a record
  that was read, whose manifest is signed by that publisher for that stream.
\<close>

theorem recruitments_exactly_once:
  assumes "fresh_passes passes"
  shows "distinct (map verified_key (snd (listen L passes)))
    \<and> (\<forall>v \<in> set (snd (listen L passes)). \<exists>(fetch, r) \<in> presented passes. dedup_key r = verified_key v
         \<and> (vc_action v = Recruit \<longrightarrow> (\<exists>m. fetch (rc_manifest_cid r) = Inr m \<and> sm_verify L m (vc_publisher v) = Inr ()
              \<and> m_stream_id (sm_manifest m) = vc_stream v)))
    \<and> (\<forall>(fetch, r) \<in> presented passes.
         (\<forall>(fetch', r') \<in> presented passes. dedup_key r' = dedup_key r \<longrightarrow> verify_recruitment L fetch' r' \<noteq> None)
         \<longrightarrow> dedup_key r \<in> verified_key ` set (snd (listen L passes)))"
proof -
  have checked: "dedup_key r = verified_key v \<and> (vc_action v = Recruit \<longrightarrow>
        (\<exists>m. fetch (rc_manifest_cid r) = Inr m \<and> sm_verify L m (vc_publisher v) = Inr () \<and> m_stream_id (sm_manifest m) = vc_stream v))"
    if "verify_recruitment L fetch r = Some v" for fetch r v
    using that verify_recruitment_key [OF that]
    by (auto simp: verify_recruitment_def split: recruit_action.splits sum.splits if_splits)
  have "\<exists>(fetch, r) \<in> presented passes. verify_recruitment L fetch r = Some v" if "v \<in> set (snd (listen L passes))" for v
    using listen_listen_inv [OF assms, of L] that unfolding listen_inv_def by blast
  then show ?thesis
    using listen_listen_inv [OF assms, of L] checked unfolding listen_inv_def by blast
qed

definition demo_release :: recruitment where
  "demo_release = \<lparr>rc_version = 1, rc_stream_id = replicate 32 3, rc_manifest_cid = [], rc_publisher = replicate 32 5,
     rc_issued_at = 5000, rc_action = Release, rc_sig = []\<rparr>"

definition demo_passes :: "pass list" where
  "demo_passes = [(\<lambda>_. Inl NotFound, 5000, [demo_release, demo_release]), (\<lambda>_. Inl NotFound, 5100, [demo_release])]"

theorem recruitments_exactly_once_witness:
  "distinct (map verified_key (snd (listen toy_libs demo_passes))) \<and> snd (listen toy_libs demo_passes) \<noteq> []"
proof -
  have fresh: "fresh_passes demo_passes"
    by (simp add: fresh_passes_def demo_passes_def demo_release_def abs_diff_def RECRUIT_MAX_SKEW_S_def)
  have "verify_recruitment toy_libs f demo_release \<noteq> None" for f
    by (simp add: verify_recruitment_def demo_release_def)
  moreover have "presented demo_passes = {(\<lambda>_. Inl NotFound, demo_release)}"
    by (auto simp: presented_def demo_passes_def intro!: exI [of _ 5000] exI [of _ "[demo_release, demo_release]"])
  ultimately have "dedup_key demo_release \<in> verified_key ` set (snd (listen toy_libs demo_passes))"
    using recruitments_exactly_once [OF fresh, of toy_libs] by simp
  then show ?thesis using recruitments_exactly_once [OF fresh, of toy_libs] by fastforce
qed

subsection \<open>What a sweep evicts and who may release\<close>

definition idle_secs :: "observation \<Rightarrow> entry \<Rightarrow> nat" where
  "idle_secs ob e = (if 0 < rp_peers (ob_report ob (w_stream (e_worker e))) then 0
     else case e_zero_since e of Some t \<Rightarrow> elapsed_secs (ob_now ob) t | None \<Rightarrow> 0)"

definition stalled_secs :: "observation \<Rightarrow> entry \<Rightarrow> nat" where
  "stalled_secs ob e = (case w_head_track (e_worker e) of (head, since) \<Rightarrow>
     if head < rp_head_seq (ob_report ob (w_stream (e_worker e))) then 0 else elapsed_secs (ob_now ob) since)"

definition expired :: "policy_cfg \<Rightarrow> observation \<Rightarrow> entry \<Rightarrow> bool" where
  "expired cfg ob e \<longleftrightarrow>
     stall_evict cfg \<le> stalled_secs ob e
       \<and> (0 < rp_head_seq (ob_report ob (w_stream (e_worker e))) \<or> join_grace cfg \<le> elapsed_secs (ob_now ob) (w_spawned_at (e_worker e)))
     \<or> e_released e \<and> 60 \<le> idle_secs ob e
     \<or> idle_evict cfg \<le> idle_secs ob e"

lemma evaluate_evicts:
  "(\<exists>r. evaluate (snd (snd (roll_entry ob e))) cfg = Evict r) \<longleftrightarrow> \<not> w_pinned (e_worker e) \<and> expired cfg ob e"
  by (auto simp: evaluate_def roll_entry_def worker_snapshot_def Let_def expired_def idle_secs_def stalled_secs_def
      elapsed_secs_def RELEASED_IDLE_EVICT_def split: option.split prod.split)

lemma evictions_set:
  assumes "collect_views ob sv = (sv1, snaps, views)"
  shows "set (evictions (zip views snaps) cfg)
    = {w_stream (e_worker e) | k e. (k, e) \<in> set (sv_entries sv) \<and> \<not> w_pinned (e_worker e) \<and> expired cfg ob e}"
proof -
  have vks: "zip views snaps = map (\<lambda>(k, e). (snd (snd (roll_entry ob e)), w_stream (e_worker e), fst (snd (roll_entry ob e)))) (sv_entries sv)"
    using assms by (auto simp: collect_views_def Let_def split_beta zip_map_map zip_same_conv_map
        roll_entry_def worker_snapshot_def)
  have evict: "(case x of Evict _ \<Rightarrow> True | _ \<Rightarrow> False) \<longleftrightarrow> (\<exists>r. x = Evict r)" for x by (cases x) simp_all
  have "k \<in> set (evictions (zip views snaps) cfg) \<longleftrightarrow> (\<exists>j e. (j, e) \<in> set (sv_entries sv)
      \<and> (\<exists>r. evaluate (snd (snd (roll_entry ob e))) cfg = Evict r) \<and> k = w_stream (e_worker e))" for k
    unfolding evictions_def vks filter_map map_map set_map set_filter o_def case_prod_unfold evict
    by (simp only: image_iff Bex_def mem_Collect_eq split_paired_Ex fst_conv snd_conv conj_assoc)
  then show ?thesis unfolding evaluate_evicts by blast
qed

lemma sweep_profile:
  assumes "sup_reach L cfg pins sv"
  shows "fst ` set (sv_entries (sweep_once ob ob' cfg sv))
    = {k. \<exists>e. (k, e) \<in> set (sv_entries sv) \<and> (w_pinned (e_worker e) \<or> \<not> expired cfg ob e)}"
proof -
  note ok = sup_reach_ok [OF assms]
  have keys: "fst ` set (profile s) = fst ` set (sv_entries s)" for s
    unfolding set_map [symmetric] keys_profile ..
  have stream: "w_stream (e_worker e) = k" if "(k, e) \<in> set (sv_entries sv)" for k e
    using ok that by (force simp: profile_ok_def profile_def tag_def)
  have inj: "e = e'" if "(k, e) \<in> set (sv_entries sv)" "(k, e') \<in> set (sv_entries sv)" for k e e'
    using sup_reach_distinct [OF assms] that by (rule eq_key_imp_eq_value)
  obtain sv1 snaps views where cv: "collect_views ob sv = (sv1, snaps, views)" by (cases "collect_views ob sv") auto
  then have p1: "profile sv1 = profile sv" using profile_collect [of ob sv] by simp
  have evict: "k \<in> set (evictions (zip views snaps) cfg) \<longleftrightarrow> \<not> w_pinned (e_worker e) \<and> expired cfg ob e"
    if ke: "(k, e) \<in> set (sv_entries sv)" for k e
  proof
    assume "k \<in> set (evictions (zip views snaps) cfg)"
    then obtain j f where jf: "(j, f) \<in> set (sv_entries sv)" "k = w_stream (e_worker f)"
      "\<not> w_pinned (e_worker f)" "expired cfg ob f" unfolding evictions_set [OF cv] by blast
    then have "f = e" using stream [OF jf(1)] inj [OF ke] by simp
    with jf show "\<not> w_pinned (e_worker e) \<and> expired cfg ob e" by simp
  qed (use ke stream [OF ke] evictions_set [OF cv] in blast)
  have "fst ` set (sv_entries (sweep_once ob ob' cfg sv))
      = fst ` set (filter (\<lambda>(k, _). k \<notin> set (evictions (zip views snaps) cfg)) (profile sv))"
    unfolding keys [symmetric] using p1
    by (simp add: sweep_once_def cv Let_def profile_fold profile_step profile_remove_all split_beta)
  also have "\<dots> = {k. k \<in> fst ` set (sv_entries sv) \<and> k \<notin> set (evictions (zip views snaps) cfg)}"
    unfolding keys [symmetric] set_filter by (auto simp: case_prod_unfold)
  also have "\<dots> = {k. \<exists>e. (k, e) \<in> set (sv_entries sv) \<and> (w_pinned (e_worker e) \<or> \<not> expired cfg ob e)}"
    unfolding image_iff Bex_def split_paired_Ex fst_conv using evict by blast
  finally show ?thesis .
qed

text \<open>
  C18: A sweep evicts exactly the recruited streams whose head has stalled past the limit (after
  the join grace while no head was ever seen), that were released and have been without peers
  for a minute, or that have been without peers for the idle limit, and keeps every other one;
  and a release marks a stream only when it is signed by the publisher that recruited it, so no
  other publisher can shorten a stream's life.
\<close>

theorem sweep_evicts_exactly:
  assumes "sup_reach L cfg pins sv"
  shows "fst ` set (sv_entries (sweep_once ob ob' cfg sv))
      = {k. \<exists>e. (k, e) \<in> set (sv_entries sv) \<and> (w_pinned (e_worker e) \<or> \<not> expired cfg ob e)}
    \<and> (vc_action vr = Release \<longrightarrow>
         sv_entries (on_recruitment can_spawn ob ob' cfg vr sv)
         = map (\<lambda>(k, e). (k, if k = vc_stream vr \<and> w_publisher (e_worker e) = Some (vc_publisher vr)
                             then e\<lparr>e_released := True\<rparr> else e)) (sv_entries sv))"
proof (intro conjI impI)
  assume rel: "vc_action vr = Release"
  have get: "map_of (sv_entries sv) k = Some e" if "(k, e) \<in> set (sv_entries sv)" for k e
    using sup_reach_distinct [OF assms] that by simp
  have none: "map_of (sv_entries sv) (vc_stream vr) = None \<Longrightarrow> k \<noteq> vc_stream vr" if "(k, e) \<in> set (sv_entries sv)" for k e
    using get [OF that] by auto
  show "sv_entries (on_recruitment can_spawn ob ob' cfg vr sv)
      = map (\<lambda>(k, e). (k, if k = vc_stream vr \<and> w_publisher (e_worker e) = Some (vc_publisher vr)
                          then e\<lparr>e_released := True\<rparr> else e)) (sv_entries sv)"
    using rel get none
    by (cases "map_of (sv_entries sv) (vc_stream vr)")
      (fastforce simp: on_recruitment_def upd_entry_def intro!: map_idI [symmetric] map_cong)+
qed (rule sweep_profile [OF assms])

lemma demo_supervisor_entry:
  "\<exists>e. sv_entries demo_supervisor = [([7], e)] \<and> \<not> w_pinned (e_worker e) \<and> w_stream (e_worker e) = [7]
     \<and> e_zero_since e = Some (secs 5)"
proof -
  have "0 < budget_capacity policy_default" by (simp add: budget_capacity_def policy_default_def)
  then have "admit_recruit [9] [7] [] policy_default = Accept" by (simp add: admit_recruit_def policy_default_def)
  then show ?thesis
    by (simp add: demo_supervisor_def on_recruitment_def demo_verified_def collect_views_def spawn_recruited_def
        rebalance_def roll_entry_def worker_snapshot_def worker_spawn_def entry_new_def budgets_def Let_def
        demo_observation_def set_budget_def policy_default_def upd_entry_def tell_def)
qed

theorem sweep_evicts_exactly_witness:
  "fst ` set (sv_entries (sweep_once (demo_observation\<lparr>ob_now := secs 605\<rparr>) demo_observation policy_default demo_supervisor)) = {}"
proof -
  note spec = sweep_evicts_exactly [OF demo_sup_reach, of "demo_observation\<lparr>ob_now := secs 605\<rparr>" demo_observation demo_verified]
  obtain e where "sv_entries demo_supervisor = [([7], e)]" "\<not> w_pinned (e_worker e)" "w_stream (e_worker e) = [7]"
    "e_zero_since e = Some (secs 5)" using demo_supervisor_entry by blast
  with spec show ?thesis
    by (simp add: expired_def idle_secs_def elapsed_secs_def demo_observation_def policy_default_def secs_def)
qed

subsection \<open>The uplink split\<close>

lemma unat_max: "unat (max a (b :: 'a::len word)) = max (unat a) (unat b)"
  by (simp add: max_def word_le_nat_alt)

lemma unat_budget_capacity: "budget_capacity cfg = unat (total_budget_bps cfg) div max (unat (min_stream_budget_bps cfg)) 1"
  by (simp add: budget_capacity_def unat_div unat_max)

lemma serving_share_fits:
  assumes "length (filter (\<lambda>v. 0 < v_peers v) views) \<le> budget_capacity cfg"
  shows "length (filter (\<lambda>v. 0 < v_peers v) views) * unat (serving_share views cfg) \<le> unat (total_budget_bps cfg)"
proof -
  let ?n = "length (filter (\<lambda>v. 0 < v_peers v) views)" and ?T = "unat (total_budget_bps cfg)" and ?f = "unat (min_stream_budget_bps cfg)"
  have le: "?n \<le> ?T div max ?f 1" using assms by (simp add: unat_budget_capacity)
  also have "\<dots> \<le> ?T" by simp
  also have "\<dots> < 2 ^ 64" using unat_less_2p [of "total_budget_bps cfg"] by simp
  finally have n: "unat (of_nat ?n :: u64) = ?n" by (simp add: unat_of_nat_exact)
  show ?thesis
  proof (cases "?n = 0")
    case False
    then have "(of_nat ?n :: u64) \<noteq> 0" using n by (metis unat_0)
    then have share: "unat (serving_share views cfg) = max (?T div ?n) ?f"
      by (simp add: serving_share_def Let_def unat_max unat_div n)
    have "?n * ?f \<le> ?n * max ?f 1" by simp
    also have "\<dots> \<le> ?T" using le by (simp add: less_eq_div_iff_mult_less_eq)
    finally have "?n * ?f \<le> ?T" .
    moreover have "?n * (?T div ?n) \<le> ?T" by simp
    ultimately show ?thesis unfolding share by (simp add: max_def)
  qed simp
qed

lemma sum_serving_budgets:
  "sum_list (map (\<lambda>(v, _, b). if 0 < v_peers v then unat b else 0) (zip views (budgets views cfg)))
   = length (filter (\<lambda>v. 0 < v_peers v) views) * unat (serving_share views cfg)"
proof -
  have "sum_list (map (\<lambda>v. if 0 < v_peers v then c else 0) vs) = length (filter (\<lambda>v. 0 < v_peers v) vs) * c"
    for vs :: "worker_view list" and c :: nat by (induction vs) auto
  moreover have "map (\<lambda>(v, _, b). if 0 < v_peers v then unat b else 0) (zip views (budgets views cfg))
      = map (\<lambda>v. if 0 < v_peers v then unat (serving_share views cfg) else 0) views"
    unfolding budgets_def zip_map2 zip_same_conv_map by simp
  ultimately show ?thesis by metis
qed

text \<open>
  When the pins fit the budget, the upload budgets handed to the streams that are serving
  peers never add up to more than the configured total, and no stream ever gets less than the
  per-stream floor, in every state the daemon can reach.
\<close>

theorem serving_budget_within_total:
  assumes "sup_reach L cfg pins sv" and "length pins \<le> budget_capacity cfg"
    and "views = snd (snd (collect_views ob sv))"
  shows "sum_list (map (\<lambda>(v, _, b). if 0 < v_peers v then unat b else 0) (zip views (budgets views cfg)))
      \<le> unat (total_budget_bps cfg)
    \<and> (\<forall>(s, b) \<in> set (budgets views cfg). min_stream_budget_bps cfg \<le> b)"
proof
  have "length views \<le> max (card (stream_id_from L ` set pins)) (capacity cfg)"
    using sup_reach_ok [OF assms(1)] load_views(2) [OF assms(3)] by (simp add: profile_ok_def)
  moreover have "card (stream_id_from L ` set pins) \<le> length pins"
    by (rule order_trans [OF card_image_le card_length]) simp
  ultimately have "length views \<le> budget_capacity cfg" using assms(2) by simp
  then have "length (filter (\<lambda>v. 0 < v_peers v) views) \<le> budget_capacity cfg"
    by (rule order_trans [OF length_filter_le])
  then show "sum_list (map (\<lambda>(v, _, b). if 0 < v_peers v then unat b else 0) (zip views (budgets views cfg)))
      \<le> unat (total_budget_bps cfg)" unfolding sum_serving_budgets by (rule serving_share_fits)
  have "min_stream_budget_bps cfg \<le> serving_share views cfg" by (simp add: serving_share_def Let_def)
  then show "\<forall>(s, b) \<in> set (budgets views cfg). min_stream_budget_bps cfg \<le> b" by (auto simp: budgets_def)
qed

theorem serving_budget_within_total_witness:
  "\<exists>v. snd (snd (collect_views demo_observation demo_supervisor)) = [v]
     \<and> (if 0 < v_peers v then unat (snd (hd (budgets [v] policy_default))) else 0) \<le> 50000000"
proof -
  have views: "\<exists>v. snd (snd (collect_views demo_observation demo_supervisor)) = [v]"
    using demo_supervisor_entry by (auto simp: collect_views_def Let_def)
  then obtain v where v: "snd (snd (collect_views demo_observation demo_supervisor)) = [v]" by blast
  from serving_budget_within_total [OF demo_sup_reach _ refl, of demo_observation] show ?thesis
    unfolding v by (auto simp: policy_default_def budgets_def)
qed

end
