(* ===== verification/Dialer.thy ===== *)
theory Dialer
  imports Signaling
begin

section \<open>Dial pacing\<close>

text \<open>
  Models \<open>src/crates/unstation-session/src/dialer.rs\<close>: the per-peer backoff with its jitter, the
  in-flight mark and the sweep for stalled dials. Instants are nanoseconds; the jitter is a
  real number, as every \<open>f64\<close> of the program, and \<open>Duration::mul_f64\<close> rounds to the nearest
  nanosecond.
\<close>

subsection \<open>Operations\<close>

definition BACKOFF_BASE :: nat where "BACKOFF_BASE = secs 2"
definition BACKOFF_MAX :: nat where "BACKOFF_MAX = secs 60"
definition DIAL_TIMEOUT :: nat where "DIAL_TIMEOUT = secs 90"
definition HISTORY_TTL :: nat where "HISTORY_TTL = secs 300"

record dial_state =
  ds_attempts :: u32
  ds_next_at :: instant
  ds_in_flight_since :: "instant option"
  ds_touched :: instant

type_synonym dialer = "(peer_id, dial_state) hash_map"

definition should_dial :: "instant \<Rightarrow> peer_id \<Rightarrow> dialer \<Rightarrow> bool" where
  "should_dial now peer d =
     (case hm_get d peer of None \<Rightarrow> True | Some st \<Rightarrow> ds_in_flight_since st = None \<and> ds_next_at st \<le> now)"

definition dial_entry :: "instant \<Rightarrow> peer_id \<Rightarrow> dialer \<Rightarrow> dial_state" where
  "dial_entry now peer d =
     (case hm_get d peer of Some st \<Rightarrow> st
      | None \<Rightarrow> \<lparr>ds_attempts = 0, ds_next_at = now, ds_in_flight_since = None, ds_touched = now\<rparr>)"

definition record_started :: "instant \<Rightarrow> peer_id \<Rightarrow> dialer \<Rightarrow> dialer" where
  "record_started now peer d =
     hm_put peer ((dial_entry now peer d)\<lparr>ds_in_flight_since := Some now, ds_touched := now\<rparr>) d"

definition record_connected :: "peer_id \<Rightarrow> dialer \<Rightarrow> dialer" where
  "record_connected peer d = hm_remove peer d"

definition backoff :: "u32 \<Rightarrow> nat" where
  "backoff attempts = min (BACKOFF_BASE * 2 ^ unat (min (attempts - 1) 5)) BACKOFF_MAX"

definition jitter :: "peer_id \<Rightarrow> real" where
  "jitter peer = 0.8 + (real (unat (hd peer)) / 255) * 0.4"

definition mul_f64 :: "nat \<Rightarrow> real \<Rightarrow> nat" where
  "mul_f64 d x = nat (round (real d * x))"

definition record_failed :: "instant \<Rightarrow> peer_id \<Rightarrow> dialer \<Rightarrow> dialer" where
  "record_failed now peer d =
     (let st = dial_entry now peer d;
          attempts = sat_add (ds_attempts st) 1
      in hm_put peer \<lparr>ds_attempts = attempts, ds_next_at = now + mul_f64 (backoff attempts) (jitter peer),
           ds_in_flight_since = None, ds_touched = now\<rparr> d)"

definition stalled :: "instant \<Rightarrow> dialer \<Rightarrow> dialer \<times> peer_id list" where
  "stalled now d =
     (let d1 = hm_retain (\<lambda>_ st. ds_in_flight_since st \<noteq> None \<or> now - ds_touched st < HISTORY_TTL) d
      in (d1, map fst (filter (\<lambda>(_, st). case ds_in_flight_since st of
                 Some t \<Rightarrow> DIAL_TIMEOUT \<le> now - t | None \<Rightarrow> False) d1)))"

subsection \<open>The schedule\<close>

lemma mul_f64_jitter:
  assumes "10 dvd d"
  shows "8 * (d div 10) \<le> mul_f64 d (jitter peer) \<and> mul_f64 d (jitter peer) \<le> 12 * (d div 10)"
proof -
  obtain k where d: "d = 10 * k" using assms by auto
  have "unat (hd peer) \<le> 255" using unat_less_2p [of "hd peer"] by simp
  then have "real (unat (hd peer)) \<le> 255" by (simp del: of_nat_unat)
  then have "0.8 \<le> jitter peer" "jitter peer \<le> 1.2" by (simp_all add: jitter_def field_simps del: of_nat_unat)
  then have "real d * 0.8 \<le> real d * jitter peer" "real d * jitter peer \<le> real d * 1.2"
    by (simp_all only: mult_left_mono of_nat_0_le_iff)
  then have "real (8 * k) \<le> real d * jitter peer" "real d * jitter peer \<le> real (12 * k)" using d by simp_all
  then have "round (real (8 * k)) \<le> round (real d * jitter peer)" "round (real d * jitter peer) \<le> round (real (12 * k))"
    by (simp_all only: round_mono)
  then show ?thesis unfolding mul_f64_def round_of_nat using d by (simp add: le_nat_iff nat_le_iff)
qed

lemma unat_min: "unat (min a (b :: 'a::len word)) = min (unat a) (unat b)"
  by (simp add: min_def word_le_nat_alt)

text \<open>The wait after the \<open>n\<close>-th failure in a row, without jitter.\<close>

definition nominal_wait :: "nat \<Rightarrow> nat" where
  "nominal_wait n = min (secs (2 ^ n)) (secs 60)"

lemma nominal_wait_le: "nominal_wait n \<le> secs 60"
  by (simp add: nominal_wait_def)

lemma backoff_nominal:
  assumes "0 < unat a"
  shows "backoff a = nominal_wait (unat a)"
proof -
  have "unat (a - 1) = unat a - 1" using assms by (simp add: unat_minus_one unat_gt_0)
  then have *: "unat (min (a - 1) 5) = min (unat a - 1) 5" by (simp add: unat_min)
  show ?thesis
  proof (cases "unat a \<le> 5")
    case True
    with assms have "2 * 2 ^ (unat a - 1) = (2 :: nat) ^ unat a" by (cases "unat a") simp_all
    with True show ?thesis by (simp add: backoff_def * nominal_wait_def BACKOFF_BASE_def BACKOFF_MAX_def secs_def)
  next
    case False
    then have "(2 :: nat) ^ 6 \<le> 2 ^ unat a" by (intro power_increasing) simp_all
    then have "nominal_wait (unat a) = secs 60" by (simp add: nominal_wait_def secs_def)
    moreover have "unat (min (a - 1) 5) = 5" using False by (simp add: *)
    ultimately show ?thesis by (simp add: backoff_def BACKOFF_BASE_def BACKOFF_MAX_def secs_def)
  qed
qed

lemma ten_dvd_wait: "10 dvd nominal_wait n"
  by (simp add: nominal_wait_def secs_def min_def)

text \<open>What a failure schedules: the wait is the nominal one, give or take a fifth.\<close>

definition wait_ok :: "nat \<Rightarrow> nat \<Rightarrow> bool" where
  "wait_ok n w \<longleftrightarrow> 8 * (nominal_wait n div 10) \<le> w \<and> w \<le> 12 * (nominal_wait n div 10)"

lemma failed_entry:
  "\<exists>w. record_failed now p d = hm_put p \<lparr>ds_attempts = sat_add (ds_attempts (dial_entry now p d)) 1,
       ds_next_at = now + w, ds_in_flight_since = None, ds_touched = now\<rparr> d
     \<and> wait_ok (unat (sat_add (ds_attempts (dial_entry now p d)) 1)) w"
proof -
  let ?a = "sat_add (ds_attempts (dial_entry now p d)) 1"
  have "0 < unat ?a" by (simp add: unat_sat_add)
  then have "wait_ok (unat ?a) (mul_f64 (backoff ?a) (jitter p))"
    using mul_f64_jitter [OF ten_dvd_wait] by (simp add: wait_ok_def backoff_nominal)
  then show ?thesis unfolding record_failed_def Let_def by blast
qed

lemma wait_le: "wait_ok n w \<Longrightarrow> w \<le> secs 72"
  using div_le_mono [OF nominal_wait_le, of n 10] by (simp add: wait_ok_def secs_def)

subsection \<open>Reachable dialers\<close>

inductive dial_reach :: "instant \<Rightarrow> dialer \<Rightarrow> bool" where
  new: "dial_reach now []"
| wait: "dial_reach now d \<Longrightarrow> now \<le> now' \<Longrightarrow> dial_reach now' d"
| started: "dial_reach now d \<Longrightarrow> dial_reach now (record_started now p d)"
| connected: "dial_reach now d \<Longrightarrow> dial_reach now (record_connected p d)"
| failed: "dial_reach now d \<Longrightarrow> dial_reach now (record_failed now p d)"
| sweep: "dial_reach now d \<Longrightarrow> dial_reach now (fst (stalled now d))"

definition dial_ok :: "instant \<Rightarrow> dialer \<Rightarrow> bool" where
  "dial_ok now d \<longleftrightarrow> hm_ok d \<and> (\<forall>p st. hm_get d p = Some st \<longrightarrow>
     ds_touched st \<le> now \<and> ds_next_at st \<le> ds_touched st + secs 72 \<and> (\<forall>t. ds_in_flight_since st = Some t \<longrightarrow> t = ds_touched st))"

lemma dial_entry_ok: "dial_ok now d \<Longrightarrow> ds_touched (dial_entry now p d) \<le> now
    \<and> ds_next_at (dial_entry now p d) \<le> ds_touched (dial_entry now p d) + secs 72"
  by (auto simp: dial_ok_def dial_entry_def split: option.split)

lemma dial_ok_put:
  assumes "dial_ok now d" and "ds_touched st \<le> now" and "ds_next_at st \<le> ds_touched st + secs 72"
    and "\<And>t. ds_in_flight_since st = Some t \<Longrightarrow> t = ds_touched st"
  shows "dial_ok now (hm_put p st d)"
  using assms hm.ok_put [of d p st] by (auto simp: dial_ok_def hm.get_put)

lemma dial_reach_ok: "dial_reach now d \<Longrightarrow> dial_ok now d"
proof (induction rule: dial_reach.induct)
  case (wait now d now')
  then show ?case by (force simp: dial_ok_def)
next
  case (started now d p)
  then show ?case
    unfolding record_started_def using dial_entry_ok [of now d p] by (intro dial_ok_put) auto
next
  case (connected now d p)
  then show ?case using hm.ok_remove [of d p] by (auto simp: dial_ok_def record_connected_def hm.get_remove)
next
  case (failed now d p)
  obtain w where "record_failed now p d = hm_put p \<lparr>ds_attempts = sat_add (ds_attempts (dial_entry now p d)) 1,
       ds_next_at = now + w, ds_in_flight_since = None, ds_touched = now\<rparr> d" and "w \<le> secs 72"
    using failed_entry [of now p d] wait_le by blast
  then show ?case using failed by (auto intro!: dial_ok_put)
next
  case (sweep now d)
  then show ?case by (auto simp: dial_ok_def stalled_def Let_def hm_get_retain split: if_splits option.splits)
qed (simp add: dial_ok_def)

definition failures :: "peer_id \<Rightarrow> dialer \<Rightarrow> nat" where
  "failures p d = (case hm_get d p of Some st \<Rightarrow> unat (ds_attempts st) | None \<Rightarrow> 0)"

text \<open>
  C10: Dials to a peer are paced. While a dial is in flight there is no second one; after the
  \<open>n\<close>-th failure in a row the next dial is held back for between 0.8 and 1.2 times
  \<open>min (2 ^ n, 60)\<close> seconds and allowed from then on; the sweep that forgets old history never
  cuts a wait short; no wait outlasts 72 seconds from the last event; and the sweep reports
  exactly the dials that have been in flight for 90 seconds.
\<close>

theorem dial_pacing:
  assumes "dial_reach now d"
  shows "\<not> should_dial t p (record_started now p d)
    \<and> (\<exists>w. 8 * (nominal_wait (min (failures p d + 1) (2 ^ 32 - 1)) div 10) \<le> w
           \<and> w \<le> 12 * (nominal_wait (min (failures p d + 1) (2 ^ 32 - 1)) div 10)
           \<and> (\<forall>t. should_dial t p (record_failed now p d) \<longleftrightarrow> now + w \<le> t))
    \<and> (should_dial now p (fst (stalled now d)) \<longrightarrow> should_dial now p d)
    \<and> (\<forall>st. hm_get d p = Some st \<longrightarrow> ds_in_flight_since st = None \<longrightarrow> should_dial (ds_touched st + secs 72) p d)
    \<and> set (snd (stalled now d)) = {p. \<exists>st t. hm_get d p = Some st \<and> ds_in_flight_since st = Some t \<and> t + secs 90 \<le> now}"
proof -
  note ok = dial_reach_ok [OF assms]
  have "unat (sat_add (ds_attempts (dial_entry now p d)) 1) = min (failures p d + 1) (2 ^ 32 - 1)"
    by (auto simp: unat_sat_add dial_entry_def failures_def split: option.split)
  then obtain w where "wait_ok (min (failures p d + 1) (2 ^ 32 - 1)) w"
    and "\<forall>t. should_dial t p (record_failed now p d) \<longleftrightarrow> now + w \<le> t"
    using failed_entry [of now p d] by (auto simp: should_dial_def update_conv')
  moreover have "should_dial now p d" if "should_dial now p (fst (stalled now d))"
  proof (cases "hm_get d p")
    case (Some st)
    have "hm_get (fst (stalled now d)) p = (if ds_in_flight_since st \<noteq> None \<or> now - ds_touched st < HISTORY_TTL then Some st else None)"
      using ok Some by (simp add: stalled_def Let_def dial_ok_def hm_get_retain)
    moreover have "ds_next_at st \<le> ds_touched st + secs 72" using ok Some by (simp add: dial_ok_def)
    ultimately show ?thesis
      using that Some by (auto simp: should_dial_def HISTORY_TTL_def secs_def split: if_splits)
  qed (simp add: should_dial_def)
  moreover have "set (snd (stalled now d)) = {p. \<exists>st t. hm_get d p = Some st \<and> ds_in_flight_since st = Some t \<and> t + secs 90 \<le> now}"
    using ok by (force simp: stalled_def Let_def dial_ok_def hm_retain_def hm_ok_def DIAL_TIMEOUT_def split: option.splits)
  ultimately show ?thesis
    using ok by (auto simp: wait_ok_def should_dial_def record_started_def update_conv' dial_ok_def)
qed

theorem dial_pacing_witness:
  "set (snd (stalled (secs 100) (record_started (secs 10) [7] []))) = {[7]}"
proof -
  have "dial_reach (secs 100) (record_started (secs 10) [7] [])"
    by (rule dial_reach.wait [OF dial_reach.started [OF dial_reach.new]]) (simp add: secs_def)
  from dial_pacing [OF this, of 0 "[7]"] show ?thesis
    by (auto simp: record_started_def dial_entry_def secs_def split: if_splits)
qed

end
