(* ===== verification/Session.thy ===== *)
theory Session
  imports Chain Dialer
begin

section \<open>The session\<close>

text \<open>
  Models \<open>src/crates/unstation-session/src/lib.rs\<close>: the glue between the statement store, the
  transport and the node for one stream. The tasks of a session share its state; one turn of a
  task's loop is one function on that state, with what the statement store returned, what the
  transport reported and the clock as arguments. Calls into the transport are appended to
  \<open>se_out\<close>, statements written are returned. The SDP classifier parses JSON with a library and
  is a parameter.
\<close>

subsection \<open>Constants and state\<close>

definition SIGNAL_POLL_ACTIVE :: nat where "SIGNAL_POLL_ACTIVE = millis 800"
definition SIGNAL_POLL_IDLE :: nat where "SIGNAL_POLL_IDLE = secs 4"
definition SIGNAL_POLL_DORMANT :: nat where "SIGNAL_POLL_DORMANT = secs 30"
definition DISCOVERY_POLL :: nat where "DISCOVERY_POLL = secs 2"
definition MAINTAIN_TICK :: nat where "MAINTAIN_TICK = secs 1"
definition MAINTAIN_TICK_DORMANT :: nat where "MAINTAIN_TICK_DORMANT = secs 30"
definition PRESENCE_TTL_S :: u32 where "PRESENCE_TTL_S = 30"
definition EDGE_WINDOW :: nat where "EDGE_WINDOW = 64"
definition DURABLE_WINDOW :: nat where "DURABLE_WINDOW = 16"

datatype transport_call =
  Dial peer_id | Close peer_id | AcceptOffer peer_id bytes | RemoteDescription peer_id bytes | RemoteCandidate peer_id bytes

datatype transport_event = Connected peer_id | Disconnected peer_id

datatype signal_out = LocalDescription peer_id bytes | LocalCandidate peer_id bytes

record session =
  se_stream :: stream_id
  se_my_peer :: peer_id
  se_n_shards :: u32
  se_signaling :: chain_signaling
  se_manifest_cid :: "bytes option"
  se_book :: presence_book
  se_bans :: ban_list
  se_shield :: bool
  se_shield_allow :: "bytes list"
  se_chain_relay_accounts :: "(peer_id, bytes \<times> instant) hash_map"
  se_dormant :: bool
  se_seen :: "bytes list"
  se_connected :: "peer_id list"
  se_dialer :: dialer
  se_out :: "transport_call list"

datatype start_error = NotSignedIn | NoConnectionEngine

definition session_start :: "peer_id option \<Rightarrow> bool \<Rightarrow> peer_id \<Rightarrow> stream_id \<Rightarrow> u32 \<Rightarrow> start_error + session" where
  "session_start local_peer transport_ok my_peer stream n_shards =
     (case local_peer of
        None \<Rightarrow> Inl NotSignedIn
      | Some _ \<Rightarrow>
          if \<not> transport_ok then Inl NoConnectionEngine
          else Inr \<lparr>se_stream = stream, se_my_peer = my_peer, se_n_shards = max n_shards 1,
            se_signaling = cs_new stream n_shards, se_manifest_cid = None, se_book = [], se_bans = [],
            se_shield = False, se_shield_allow = [], se_chain_relay_accounts = [], se_dormant = False,
            se_seen = [], se_connected = [], se_dialer = [], se_out = []\<rparr>)"

definition set_shield :: "bool \<Rightarrow> session \<Rightarrow> session" where
  "set_shield on se = se\<lparr>se_shield := on\<rparr>"

definition set_shield_allow :: "bytes list \<Rightarrow> session \<Rightarrow> session" where
  "set_shield_allow accounts se = se\<lparr>se_shield_allow := accounts\<rparr>"

definition set_dormant :: "bool \<Rightarrow> session \<Rightarrow> session" where
  "set_dormant on se = se\<lparr>se_dormant := on\<rparr>"

definition set_manifest_cid :: "bytes \<Rightarrow> session \<Rightarrow> session" where
  "set_manifest_cid c se = se\<lparr>se_manifest_cid := Some c\<rparr>"

definition call :: "transport_call \<Rightarrow> session \<Rightarrow> session" where
  "call c se = se\<lparr>se_out := se_out se @ [c]\<rparr>"

definition poll_period :: "bool \<Rightarrow> nat \<Rightarrow> nat" where
  "poll_period dormant connected_peers =
     (if 0 < connected_peers then SIGNAL_POLL_IDLE else if dormant then SIGNAL_POLL_DORMANT else SIGNAL_POLL_ACTIVE)"

subsection \<open>Announcing\<close>

definition presence_tick :: "libs \<Rightarrow> instant \<Rightarrow> u64 \<Rightarrow> bool \<Rightarrow> bool \<Rightarrow> bool \<Rightarrow> bytes option \<Rightarrow> bytes option \<Rightarrow> session
    \<Rightarrow> session \<times> submission option" where
  "presence_tick L now caps_upload relay_opt_in relay_gate reachable ident_pub ident_enc se =
     (let relay = (relay_gate \<and> (relay_opt_in \<or> reachable));
          publisher = (case ident_pub of Some k \<Rightarrow> k | None \<Rightarrow> se_my_peer se);
          enc = (case ident_enc of Some k \<Rightarrow> k | None \<Rightarrow> zeros32);
          p = \<lparr>p_peer_id = se_my_peer se, p_publisher = publisher, p_caps_upload_bps = caps_upload,
               p_ttl_s = PRESENCE_TTL_S, p_manifest_cid = se_manifest_cid se, p_relay = relay, p_enc_pub = enc\<rparr>
      in (se\<lparr>se_book := pb_insert now (record_of_presence p) (se_book se)\<rparr>,
          if relay then Some (publish_presence L p (se_signaling se)) else None))"

text \<open>The rolling windows of the edge and the durable publisher: insert, then drop the oldest
  while there are too many.\<close>

function window_trim :: "nat \<Rightarrow> ('k::linorder, 'v) btree_map \<Rightarrow> ('k, 'v) btree_map" where
  "window_trim cap w =
     (if cap < length w then
        (case w of (oldest, _) # _ \<Rightarrow> window_trim cap (AList.delete oldest w) | [] \<Rightarrow> w)
      else w)"
  by auto
termination
  by (relation "measure (\<lambda>(_, w). length w)") (auto simp: AList.delete_eq less_Suc_eq_le)

declare window_trim.simps [simp del]

definition window_push :: "nat \<Rightarrow> 'k::linorder \<times> 'v \<Rightarrow> ('k, 'v) btree_map \<Rightarrow> ('k, 'v) btree_map" where
  "window_push cap kv w = window_trim cap (bt_put (fst kv) (snd kv) w)"

definition edge_publish_tick :: "libs \<Rightarrow> (u64 \<times> segment_id) list \<Rightarrow> chain_signaling \<Rightarrow> (u64, segment_id) btree_map
    \<Rightarrow> (u64, segment_id) btree_map \<times> submission option" where
  "edge_publish_tick L received cs window =
     (let w = fold (window_push EDGE_WINDOW) received window
      in (w, if w \<noteq> [] then Some (publish_edge L w cs) else None))"

definition durable_publish_tick :: "libs \<Rightarrow> (u64 \<times> cid) list \<Rightarrow> chain_signaling \<Rightarrow> (u64, cid) btree_map
    \<Rightarrow> (u64, cid) btree_map \<times> submission option" where
  "durable_publish_tick L received cs window =
     (let w = fold (window_push DURABLE_WINDOW) received window
      in (w, if received \<noteq> [] \<and> w \<noteq> [] then Some (publish_durable L w cs) else None))"

text \<open>The edge poller forwards every sequence number once.\<close>

definition edge_poll :: "(u64 \<times> segment_id) list \<Rightarrow> u64 list \<Rightarrow> u64 list \<times> (u64 \<times> segment_id) list" where
  "edge_poll edge seen =
     fold (\<lambda>(seq, sid) (seen, out). if seq \<in> set seen then (seen, out) else (hs_insert seq seen, out @ [(seq, sid)]))
       edge (seen, [])"

subsection \<open>Discovery\<close>

text \<open>What the store returned for each shard's topic: \<open>None\<close> is a failed read.\<close>

definition relay_seen :: "instant \<Rightarrow> presence \<times> bytes option \<Rightarrow> session \<Rightarrow> session" where
  "relay_seen now = (\<lambda>(p, signer) se.
     if p_relay p then
       (let se1 = se\<lparr>se_signaling := note_enc_key (p_peer_id p) (p_enc_pub p) (se_signaling se),
                     se_book := pb_insert now (record_of_presence p) (se_book se)\<rparr>
        in case signer of
             Some s \<Rightarrow> se1\<lparr>se_chain_relay_accounts := hm_put (p_peer_id p) (s, now) (se_chain_relay_accounts se1)\<rparr>
           | None \<Rightarrow> se1)
     else se)"

definition relay_discovery_tick :: "libs \<Rightarrow> instant \<Rightarrow> statement list option list \<Rightarrow> session \<Rightarrow> session" where
  "relay_discovery_tick L now shards se =
     (let se1 = fold (\<lambda>sts se. case sts of
                  Some l \<Rightarrow> fold (relay_seen now) (read_presence_signed L 32 l) se | None \<Rightarrow> se) shards se
      in se1\<lparr>se_chain_relay_accounts :=
               hm_retain (\<lambda>_ (_, seen). now - seen \<le> 3 * DISCOVERY_POLL) (se_chain_relay_accounts se1)\<rparr>)"

text \<open>One round of \<open>discover\<close>: the first candidate of the first shard that has one.\<close>

fun discover_round :: "libs \<Rightarrow> peer_id \<Rightarrow> statement list option list \<Rightarrow> presence option" where
  "discover_round L me [] = None"
| "discover_round L me (None # shards) = discover_round L me shards"
| "discover_round L me (Some sts # shards) =
     (case List.find (\<lambda>p. p_peer_id p \<noteq> me) (read_presence L 32 sts) of
        Some p \<Rightarrow> Some p | None \<Rightarrow> discover_round L me shards)"

definition discover_publisher :: "libs \<Rightarrow> peer_id \<Rightarrow> statement list option list \<Rightarrow> peer_id option" where
  "discover_publisher L me shards = map_option p_peer_id (discover_round L me shards)"

definition add_candidate :: "peer_id \<Rightarrow> presence \<Rightarrow> presence list \<times> peer_id list \<Rightarrow> presence list \<times> peer_id list" where
  "add_candidate me p = (\<lambda>(out, seen).
     if p_peer_id p \<noteq> me \<and> p_peer_id p \<notin> set seen then (out @ [p], hs_insert (p_peer_id p) seen) else (out, seen))"

definition discover_peers :: "libs \<Rightarrow> instant \<Rightarrow> nat \<Rightarrow> statement list option list \<Rightarrow> session \<Rightarrow> session \<times> presence list" where
  "discover_peers L now mx shards se =
     (let me = se_my_peer se;
          acc1 = fold (\<lambda>sts acc. case sts of
                   Some l \<Rightarrow> fold (add_candidate me) (read_presence L 32 l) acc | None \<Rightarrow> acc) shards ([], []);
          acc2 = fold (add_candidate me) (map presence_of_record (pb_snapshot now (se_book se))) acc1;
          out = filter (\<lambda>p. \<not> bl_contains now (p_peer_id p) (se_bans se)) (fst acc2);
          cs = fold (\<lambda>p. note_enc_key (p_peer_id p) (p_enc_pub p)) out (se_signaling se)
      in (se\<lparr>se_signaling := cs\<rparr>, take mx (sort_key (\<lambda>p. \<not> p_relay p) out)))"

subsection \<open>The connection maintainer\<close>

definition abandon :: "instant \<Rightarrow> peer_id \<Rightarrow> session \<Rightarrow> session" where
  "abandon now p se =
     (if p \<in> set (se_connected se) then se\<lparr>se_dialer := record_connected p (se_dialer se)\<rparr>
      else (call (Close p) se)\<lparr>se_dialer := record_failed now p (se_dialer se)\<rparr>)"

definition abandon_stalled :: "instant \<Rightarrow> session \<Rightarrow> session" where
  "abandon_stalled now se =
     (case stalled now (se_dialer se) of (d, ps) \<Rightarrow> fold (abandon now) ps (se\<lparr>se_dialer := d\<rparr>))"

text \<open>What the loop over the candidates sees at each of them: the clock, the transport's peer
  count, the verdict of the trust gate, and the clock when the gate has answered.\<close>

record glance =
  gl_now :: instant
  gl_peer_count :: nat
  gl_trusted :: bool
  gl_dialed_at :: instant

fun dial_loop :: "nat \<Rightarrow> nat \<Rightarrow> (presence \<times> glance) list \<Rightarrow> session \<Rightarrow> session" where
  "dial_loop target budget [] se = se"
| "dial_loop target budget ((cand, g) # cands) se =
     (if budget = 0 \<or> target \<le> gl_peer_count g then se
      else if p_peer_id cand \<in> set (se_connected se) then dial_loop target budget cands se
      else if \<not> should_dial (gl_now g) (p_peer_id cand) (se_dialer se) then dial_loop target budget cands se
      else if \<not> gl_trusted g then dial_loop target budget cands se
      else dial_loop target (budget - 1) cands
             (call (Dial (p_peer_id cand)) (se\<lparr>se_dialer := record_started (gl_dialed_at g) (p_peer_id cand) (se_dialer se)\<rparr>)))"

definition maintain_sweep :: "libs \<Rightarrow> instant \<Rightarrow> nat \<Rightarrow> nat \<Rightarrow> statement list option list \<Rightarrow> (presence \<Rightarrow> glance) \<Rightarrow> session \<Rightarrow> session" where
  "maintain_sweep L now target have shards look se =
     (let se1 = abandon_stalled now se
      in if have < target then
           (let (se2, cands) = discover_peers L now 16 shards se1
            in dial_loop target (target - have + 1) (map (\<lambda>c. (c, look c)) cands) se2)
         else se1)"

definition on_transport_event :: "instant \<Rightarrow> transport_event \<Rightarrow> session \<Rightarrow> session" where
  "on_transport_event now ev se =
     (case ev of
        Connected p \<Rightarrow> se\<lparr>se_connected := hs_insert p (se_connected se), se_dialer := record_connected p (se_dialer se)\<rparr>
      | Disconnected p \<Rightarrow> se\<lparr>se_connected := hs_remove p (se_connected se), se_dialer := record_failed now p (se_dialer se)\<rparr>)"

definition maintain_tick :: "session \<Rightarrow> nat \<Rightarrow> nat" where
  "maintain_tick se peer_count = (if se_dormant se \<and> peer_count = 0 then MAINTAIN_TICK_DORMANT else MAINTAIN_TICK)"

subsection \<open>Signals in and out\<close>

definition shield_admits :: "bool \<Rightarrow> bytes list \<Rightarrow> bytes option \<Rightarrow> bool \<Rightarrow> bool" where
  "shield_admits shield allow signer_of_peer is_relay_flagged =
     (if \<not> shield then True
      else if allow \<noteq> [] then (case signer_of_peer of Some s \<Rightarrow> s \<in> set allow | None \<Rightarrow> False)
      else is_relay_flagged)"

definition outbound_signal :: "(bytes \<Rightarrow> bool) \<Rightarrow> signal_out \<Rightarrow> peer_id \<times> signal_msg" where
  "outbound_signal sdp_is_offer out =
     (case out of
        LocalDescription peer sdp \<Rightarrow> (peer, if sdp_is_offer sdp then Offer sdp else Answer [] sdp)
      | LocalCandidate peer cand \<Rightarrow> (peer, IceCandidate [] cand))"

definition relay_outbound :: "libs \<Rightarrow> (bytes \<Rightarrow> bool) \<Rightarrow> bytes \<Rightarrow> bytes option \<Rightarrow> signal_out \<Rightarrow> session
    \<Rightarrow> session \<times> (core_error + submission)" where
  "relay_outbound L sdp_is_offer nonce ident out se =
     (let (to, msg) = outbound_signal sdp_is_offer out;
          (cs, r) = publish_signal L nonce ident (se_my_peer se) to msg (se_signaling se)
      in (se\<lparr>se_signaling := cs\<rparr>, r))"

fun sig_order :: "signal_msg \<Rightarrow> nat" where
  "sig_order (Offer _) = 0" | "sig_order (Answer _ _) = 1" | "sig_order (IceCandidate _ _) = 2" | "sig_order (Closed _) = 3"

fun signal_key :: "peer_id \<Rightarrow> signal_msg \<Rightarrow> bytes" where
  "signal_key from' (Offer sdp) = from' @ 0 # sdp"
| "signal_key from' (Answer _ sdp) = from' @ 1 # sdp"
| "signal_key from' (IceCandidate _ sdp) = from' @ 2 # sdp"
| "signal_key from' (Closed _) = from' @ [3]"

fun transport_call_of :: "peer_id \<Rightarrow> signal_msg \<Rightarrow> transport_call" where
  "transport_call_of from' (Offer sdp) = AcceptOffer from' sdp"
| "transport_call_of from' (Answer _ sdp) = RemoteDescription from' sdp"
| "transport_call_of from' (IceCandidate _ sdp) = RemoteCandidate from' sdp"
| "transport_call_of from' (Closed _) = Close from'"

definition is_offer :: "signal_msg \<Rightarrow> bool" where
  "is_offer m = (case m of Offer _ \<Rightarrow> True | _ \<Rightarrow> False)"

definition on_signal :: "instant \<Rightarrow> peer_id \<times> signal_msg \<Rightarrow> session \<Rightarrow> session" where
  "on_signal now = (\<lambda>(from', msg) se.
     if bl_contains now from' (se_bans se) then se
     else if signal_key from' msg \<in> set (se_seen se) then se
     else if is_offer msg \<and> se_shield se
          \<and> \<not> shield_admits True (se_shield_allow se) (map_option fst (hm_get (se_chain_relay_accounts se) from'))
                (pb_is_relay now from' (se_book se)) then se
     else call (transport_call_of from' msg) (se\<lparr>se_seen := hs_insert (signal_key from' msg) (se_seen se)\<rparr>))"

definition relay_inbound_pass :: "libs \<Rightarrow> instant \<Rightarrow> bytes option \<Rightarrow> bytes list \<Rightarrow> session \<Rightarrow> session" where
  "relay_inbound_pass L now ident sts se =
     (let (cs, sigs) = read_signals L ident sts (se_signaling se)
      in fold (on_signal now) (sort_key (\<lambda>(_, m). sig_order m) sigs) (se\<lparr>se_signaling := cs\<rparr>))"

end
