(* ===== verification/Session_Props.thy ===== *)
theory Session_Props
  imports Session "HOL-Library.Sublist"
begin

section \<open>Properties of the session\<close>

text \<open>
  What reaches the transport: which remote signals are acted on, whom a shielded publisher
  answers, whom the maintainer dials and closes; and what the edge publisher announces.
\<close>

subsection \<open>Inbound signals\<close>

definition admitted :: "instant \<Rightarrow> session \<Rightarrow> peer_id \<Rightarrow> signal_msg \<Rightarrow> bool" where
  "admitted now se p m \<longleftrightarrow> \<not> is_offer m \<or> shield_admits (se_shield se) (se_shield_allow se)
     (map_option fst (hm_get (se_chain_relay_accounts se) p)) (pb_is_relay now p (se_book se))"

lemma on_signal_eq:
  "on_signal now (p, m) se =
     (if bl_contains now p (se_bans se) \<or> signal_key p m \<in> set (se_seen se) \<or> \<not> admitted now se p m then se
      else call (transport_call_of p m) (se\<lparr>se_seen := hs_insert (signal_key p m) (se_seen se)\<rparr>))"
  by (simp add: on_signal_def admitted_def shield_admits_def)

lemma admitted_frame [simp]:
  "admitted now (call c se) = admitted now se" "admitted now (se\<lparr>se_seen := s\<rparr>) = admitted now se"
  by (simp_all add: admitted_def fun_eq_iff call_def)

definition inbound_spec :: "instant \<Rightarrow> session \<Rightarrow> (peer_id \<times> signal_msg) list \<Rightarrow> (peer_id \<times> signal_msg) list \<Rightarrow> session \<Rightarrow> bool" where
  "inbound_spec now se sigs acted se' \<longleftrightarrow>
     subseq acted sigs
     \<and> se_out se' = se_out se @ map (\<lambda>(p, m). transport_call_of p m) acted
     \<and> set (se_seen se') = set (se_seen se) \<union> (\<lambda>(p, m). signal_key p m) ` set acted
     \<and> distinct (map (\<lambda>(p, m). signal_key p m) acted)
     \<and> (\<forall>(p, m) \<in> set acted. signal_key p m \<notin> set (se_seen se) \<and> \<not> bl_contains now p (se_bans se) \<and> admitted now se p m)
     \<and> (\<forall>(p, m) \<in> set sigs. \<not> bl_contains now p (se_bans se) \<longrightarrow> admitted now se p m \<longrightarrow> signal_key p m \<in> set (se_seen se'))"

lemma fold_on_signal: "\<exists>acted. inbound_spec now se sigs acted (fold (on_signal now) sigs se)"
proof (induction sigs arbitrary: se)
  case (Cons sig sigs)
  obtain p m where sig: "sig = (p, m)" by (cases sig)
  show ?case
  proof (cases "bl_contains now p (se_bans se) \<or> signal_key p m \<in> set (se_seen se) \<or> \<not> admitted now se p m")
    case True
    then have same: "on_signal now sig se = se" by (simp add: sig on_signal_eq)
    obtain acted where IH: "inbound_spec now se sigs acted (fold (on_signal now) sigs se)" using Cons.IH by blast
    then have "inbound_spec now se (sig # sigs) acted (fold (on_signal now) sigs se)"
      using True by (auto simp: inbound_spec_def sig)
    with same show ?thesis by auto
  next
    case False
    let ?se = "call (transport_call_of p m) (se\<lparr>se_seen := hs_insert (signal_key p m) (se_seen se)\<rparr>)"
    have step: "on_signal now sig se = ?se" using False by (simp add: sig on_signal_eq)
    obtain acted where IH: "inbound_spec now ?se sigs acted (fold (on_signal now) sigs ?se)" using Cons.IH by blast
    then have "inbound_spec now se (sig # sigs) (sig # acted) (fold (on_signal now) sigs ?se)"
      using False by (auto simp: inbound_spec_def sig call_def admitted_def)
    with step show ?thesis by auto
  qed
qed (auto simp: inbound_spec_def)

lemma bans_read_signals [simp]: "admitted now (se\<lparr>se_signaling := cs\<rparr>) = admitted now se"
  by (simp add: admitted_def fun_eq_iff)

lemma inbound_spec_signaling: "inbound_spec now (se\<lparr>se_signaling := cs\<rparr>) = inbound_spec now se"
  by (simp add: inbound_spec_def fun_eq_iff)

text \<open>
  C37: One pass over the inbox acts on a subsequence of the signals read, ordered offers before
  answers before candidates before closes: none from a banned peer, none twice (a signal acted
  on is remembered and never acted on again), no offer the shield refuses; and every other
  signal that was read has been acted on by the end of the pass. A refused offer is not
  remembered, so it is judged anew on the next read.
\<close>

theorem inbound_signals:
  "\<exists>acted. inbound_spec now se (sort_key (\<lambda>(_, m). sig_order m) (snd (read_signals L ident sts (se_signaling se))))
     acted (relay_inbound_pass L now ident sts se)
   \<and> sorted (map (\<lambda>(_, m). sig_order m) acted)"
proof -
  let ?sigs = "sort_key (\<lambda>(_, m). sig_order m) (snd (read_signals L ident sts (se_signaling se)))"
  obtain cs sigs where rs: "read_signals L ident sts (se_signaling se) = (cs, sigs)" by fastforce
  obtain acted where "inbound_spec now (se\<lparr>se_signaling := cs\<rparr>) ?sigs acted (relay_inbound_pass L now ident sts se)"
    using fold_on_signal [of now "se\<lparr>se_signaling := cs\<rparr>" ?sigs] by (auto simp: relay_inbound_pass_def rs)
  then have "inbound_spec now se ?sigs acted (relay_inbound_pass L now ident sts se)"
    by (simp only: inbound_spec_signaling)
  moreover from this have "subseq (map (\<lambda>(_, m). sig_order m) acted) (map (\<lambda>(_, m). sig_order m) ?sigs)"
    unfolding inbound_spec_def by (blast intro: subseq_map)
  then obtain N where "map (\<lambda>(_, m). sig_order m) acted = nths (map (\<lambda>(_, m). sig_order m) ?sigs) N"
    unfolding subseq_conv_nths by blast
  then have "sorted (map (\<lambda>(_, m). sig_order m) acted)"
    by (simp only: sorted_nths sorted_sort_key)
  ultimately show ?thesis by blast
qed

subsection \<open>The shield\<close>

text \<open>The signers the chain vouched for: accounts whose signature the store verified on a
  statement that carries a relay's presence record.\<close>

definition vouched :: "libs \<Rightarrow> instant \<Rightarrow> statement list option list \<Rightarrow> (peer_id \<times> bytes \<times> instant) set" where
  "vouched L now shards = {(pr_peer_id r, s, now) | r s. \<exists>sts st rest. Some sts \<in> set shards \<and> st \<in> set sts
     \<and> stm_proof_pubkey st = Some s \<and> dec_presence L (stm_data st) = Some (r, rest) \<and> pr_relay r}"

text \<open>The session together with what the chain vouched for so far, under everything that
  happens to it: its own tasks, the host's settings, and the node that merges gossip into the
  shared presence book and bans peers.\<close>

inductive se_reach :: "libs \<Rightarrow> (peer_id \<times> bytes \<times> instant) set \<Rightarrow> session \<Rightarrow> bool" for L where
  start: "session_start lp tok me stream n = Inr se \<Longrightarrow> se_reach L {} se"
| discovery: "se_reach L V se \<Longrightarrow> se_reach L (V \<union> vouched L now shards) (relay_discovery_tick L now shards se)"
| inbound: "se_reach L V se \<Longrightarrow> se_reach L V (relay_inbound_pass L now ident sts se)"
| outbound: "se_reach L V se \<Longrightarrow> se_reach L V (fst (relay_outbound L sdp_is_offer nonce ident out se))"
| presence: "se_reach L V se \<Longrightarrow> se_reach L V (fst (presence_tick L now up opt gate reachable pk ek se))"
| sweep: "se_reach L V se \<Longrightarrow> se_reach L V (maintain_sweep L now target have shards look se)"
| event: "se_reach L V se \<Longrightarrow> se_reach L V (on_transport_event now ev se)"
| candidates: "se_reach L V se \<Longrightarrow> se_reach L V (fst (discover_peers L now mx shards se))"
| gossip: "se_reach L V se \<Longrightarrow> se_reach L V (se\<lparr>se_book := pb_merge now recs (se_my_peer se) (se_book se)\<rparr>)"
| ban: "se_reach L V se \<Longrightarrow> se_reach L V (se\<lparr>se_bans := bl_ban now q (se_bans se)\<rparr>)"
| shield: "se_reach L V se \<Longrightarrow> se_reach L V (set_shield on se)"
| allow: "se_reach L V se \<Longrightarrow> se_reach L V (set_shield_allow accounts se)"
| dormant: "se_reach L V se \<Longrightarrow> se_reach L V (set_dormant on se)"
| manifest: "se_reach L V se \<Longrightarrow> se_reach L V (set_manifest_cid c se)"

definition accounts_ok :: "(peer_id \<times> bytes \<times> instant) set \<Rightarrow> session \<Rightarrow> bool" where
  "accounts_ok V se \<longleftrightarrow> hm_ok (se_chain_relay_accounts se)
     \<and> (\<forall>p s t. hm_get (se_chain_relay_accounts se) p = Some (s, t) \<longrightarrow> (p, s, t) \<in> V)"

named_theorems accounts_frame

lemma accounts_call [accounts_frame]: "se_chain_relay_accounts (call c se) = se_chain_relay_accounts se"
  by (simp add: call_def)

lemma accounts_fold:
  "(\<And>x se. se_chain_relay_accounts (f x se) = se_chain_relay_accounts se)
   \<Longrightarrow> se_chain_relay_accounts (fold f xs se) = se_chain_relay_accounts se"
  by (induction xs arbitrary: se) simp_all

lemma accounts_inbound [accounts_frame]:
  "se_chain_relay_accounts (relay_inbound_pass L now ident sts se) = se_chain_relay_accounts se"
proof -
  have "se_chain_relay_accounts (on_signal now x se) = se_chain_relay_accounts se" for x se
    by (cases x) (simp add: on_signal_eq call_def)
  then show ?thesis by (simp add: relay_inbound_pass_def split_beta accounts_fold)
qed

lemma accounts_abandon [accounts_frame]: "se_chain_relay_accounts (abandon_stalled now se) = se_chain_relay_accounts se"
proof -
  have "se_chain_relay_accounts (abandon now p se) = se_chain_relay_accounts se" for p se
    by (simp add: abandon_def call_def)
  then show ?thesis by (simp add: abandon_stalled_def split_beta accounts_fold)
qed

lemma accounts_dial_loop [accounts_frame]:
  "se_chain_relay_accounts (dial_loop target budget cands se) = se_chain_relay_accounts se"
  by (induction target budget cands se rule: dial_loop.induct) (auto simp: call_def)

lemma accounts_discover [accounts_frame]:
  "se_chain_relay_accounts (fst (discover_peers L now mx shards se)) = se_chain_relay_accounts se"
  by (simp add: discover_peers_def Let_def)

lemma accounts_tasks [accounts_frame]:
  "se_chain_relay_accounts (maintain_sweep L now target have shards look se) = se_chain_relay_accounts se"
  "se_chain_relay_accounts (fst (relay_outbound L sdp_is_offer nonce ident out se)) = se_chain_relay_accounts se"
  "se_chain_relay_accounts (fst (presence_tick L now up opt gate reachable pk ek se)) = se_chain_relay_accounts se"
  "se_chain_relay_accounts (on_transport_event now ev se) = se_chain_relay_accounts se"
  "se_chain_relay_accounts (set_shield on se) = se_chain_relay_accounts se"
  "se_chain_relay_accounts (set_shield_allow accounts se) = se_chain_relay_accounts se"
  "se_chain_relay_accounts (set_dormant on se) = se_chain_relay_accounts se"
  "se_chain_relay_accounts (set_manifest_cid c se) = se_chain_relay_accounts se"
  by (simp_all add: maintain_sweep_def relay_outbound_def presence_tick_def on_transport_event_def set_shield_def
      set_shield_allow_def set_dormant_def set_manifest_cid_def Let_def split_beta accounts_frame split: transport_event.split)

lemma read_presence_signed_in:
  assumes "(p, Some s) \<in> set (read_presence_signed L mx sts)"
  shows "\<exists>st \<in> set sts. \<exists>r rest. stm_proof_pubkey st = Some s \<and> dec_presence L (stm_data st) = Some (r, rest) \<and> p = presence_of_record r"
  using assms by (auto simp: read_presence_signed_def List.map_filter_def split: option.splits dest: in_set_takeD)

lemma presence_of_record_ids [simp]:
  "p_peer_id (presence_of_record r) = pr_peer_id r" "p_relay (presence_of_record r) = pr_relay r"
  by (simp_all add: presence_of_record_def)

lemma accounts_ok_relay_seen:
  assumes "accounts_ok V se" and "\<And>s. snd e = Some s \<Longrightarrow> p_relay (fst e) \<Longrightarrow> (p_peer_id (fst e), s, now) \<in> V"
  shows "accounts_ok V (relay_seen now e se)"
  using assms by (cases e) (auto simp: relay_seen_def accounts_ok_def Let_def hm.get_put hm.ok_put split: option.split if_splits)

lemma accounts_ok_fold:
  assumes "\<And>x se. x \<in> set xs \<Longrightarrow> accounts_ok V se \<Longrightarrow> accounts_ok V (f x se)" and "accounts_ok V se"
  shows "accounts_ok V (fold f xs se)"
  using assms by (induction xs arbitrary: se) simp_all

lemma accounts_ok_discovery:
  assumes "accounts_ok V se"
  shows "accounts_ok (V \<union> vouched L now shards) (relay_discovery_tick L now shards se)"
proof -
  let ?V = "V \<union> vouched L now shards"
  have shard: "accounts_ok ?V (fold (relay_seen now) (read_presence_signed L 32 l) se)"
    if "Some l \<in> set shards" "accounts_ok ?V se" for l se
  proof (rule accounts_ok_fold [OF _ that(2)])
    fix e se assume e: "e \<in> set (read_presence_signed L 32 l)" and ok: "accounts_ok ?V se"
    show "accounts_ok ?V (relay_seen now e se)"
    proof (rule accounts_ok_relay_seen [OF ok])
      fix s assume "snd e = Some s" "p_relay (fst e)"
      moreover from this e obtain st r rest where "st \<in> set l" "stm_proof_pubkey st = Some s"
        "dec_presence L (stm_data st) = Some (r, rest)" "fst e = presence_of_record r"
        using read_presence_signed_in [of "fst e" s L 32 l] by (cases e) auto
      ultimately show "(p_peer_id (fst e), s, now) \<in> ?V"
        using that(1) unfolding vouched_def by fastforce
    qed
  qed
  have "accounts_ok ?V se" using assms by (auto simp: accounts_ok_def)
  then have "accounts_ok ?V (fold (\<lambda>sts se. case sts of
      Some l \<Rightarrow> fold (relay_seen now) (read_presence_signed L 32 l) se | None \<Rightarrow> se) shards se)"
    by (rule accounts_ok_fold [rotated]) (auto intro: shard split: option.split)
  then show ?thesis
    by (auto simp: relay_discovery_tick_def Let_def accounts_ok_def hm_get_retain split: option.splits if_splits)
qed

lemma se_reach_accounts: "se_reach L V se \<Longrightarrow> accounts_ok V se"
proof (induction rule: se_reach.induct)
  case (start lp tok me stream n se)
  then show ?case by (auto simp: session_start_def accounts_ok_def split: option.splits if_splits)
next
  case (discovery V se now shards)
  then show ?case by (intro accounts_ok_discovery)
qed (simp_all add: accounts_ok_def accounts_frame)

text \<open>
  C36: Whatever gossip, hostile statements and offers arrive, a publisher that runs shielded
  with a non-empty allowlist answers only peers for which the chain itself delivered, at some
  discovery tick, a relay presence statement signed by one of the allowlisted accounts: the
  self-asserted relay flag and the in-mesh presence book never open the gate, so an ordinary
  viewer does not learn the publisher's address.
\<close>

theorem shield_answers_only_recruited:
  assumes "se_reach L V se" and "se_shield se" and "se_shield_allow se \<noteq> []"
    and "AcceptOffer p sdp \<in> set (drop (length (se_out se)) (se_out (relay_inbound_pass L now ident sts se)))"
  shows "\<exists>s t. s \<in> set (se_shield_allow se) \<and> (p, s, t) \<in> V"
proof -
  obtain sigs acted where spec: "inbound_spec now se sigs acted (relay_inbound_pass L now ident sts se)"
    using fold_on_signal inbound_spec_signaling unfolding relay_inbound_pass_def by (metis (no_types, lifting) case_prod_beta)
  then have "AcceptOffer p sdp \<in> set (map (\<lambda>(p, m). transport_call_of p m) acted)"
    using assms(4) by (simp add: inbound_spec_def)
  then obtain q m where qm: "(q, m) \<in> set acted" "transport_call_of q m = AcceptOffer p sdp" by auto
  then have m: "q = p" "is_offer m" by (cases m; simp add: is_offer_def)+
  have "admitted now se p m" using spec qm(1) m(1) unfolding inbound_spec_def by blast
  then obtain s t where "hm_get (se_chain_relay_accounts se) p = Some (s, t)" "s \<in> set (se_shield_allow se)"
    using assms(2,3) m(2) by (auto simp: admitted_def shield_admits_def split: option.splits)
  then show ?thesis using se_reach_accounts [OF assms(1)] unfolding accounts_ok_def by blast
qed

definition demo_relay :: presence where
  "demo_relay = \<lparr>p_peer_id = replicate 32 9, p_publisher = replicate 32 8, p_caps_upload_bps = 0, p_ttl_s = 30,
     p_manifest_cid = None, p_relay = True, p_enc_pub = replicate 32 1\<rparr>"

definition demo_shielded :: session where
  "demo_shielded = relay_discovery_tick toy_libs 0
     [Some [\<lparr>stm_data = enc_presence toy_libs (record_of_presence demo_relay), stm_proof_pubkey = Some [4]\<rparr>]]
     (set_shield_allow [[4]] (set_shield True (projr (session_start (Some []) True [] (replicate 32 3) 1))))"

lemma demo_relay_decodes:
  "dec_presence toy_libs (enc_presence toy_libs (record_of_presence demo_relay)) = Some (record_of_presence demo_relay, [])"
  using toy_scale.dec_presence_enc [of "record_of_presence demo_relay" "[]"]
  by (simp add: wf_presence_def record_of_presence_def demo_relay_def)

lemma demo_relay_read:
  "read_presence_signed toy_libs 32 [\<lparr>stm_data = enc_presence toy_libs (record_of_presence demo_relay), stm_proof_pubkey = Some [4]\<rparr>]
   = [(demo_relay, Some [4])]"
proof -
  have "presence_of_record (record_of_presence demo_relay) = demo_relay"
    by (rule presence_roundtrip) (simp add: demo_relay_def)
  then show ?thesis by (simp add: read_presence_signed_def List.map_filter_def demo_relay_decodes)
qed

lemma demo_shielded_fields:
  "hm_get (se_chain_relay_accounts demo_shielded) (replicate 32 9) = Some ([4], 0)" "se_out demo_shielded = []"
  "se_shield demo_shielded" "se_shield_allow demo_shielded = [[4]]" "se_bans demo_shielded = []" "se_seen demo_shielded = []"
  unfolding demo_shielded_def relay_discovery_tick_def
  by (simp_all add: demo_relay_read)
    (simp_all add: relay_seen_def demo_relay_def session_start_def set_shield_def
      set_shield_allow_def hm_retain_def DISCOVERY_POLL_def Let_def)

theorem shield_answers_only_recruited_witness:
  "\<exists>V sts. se_reach toy_libs V demo_shielded \<and> se_shield_allow demo_shielded = [[4]]
     \<and> AcceptOffer (replicate 32 9) [5] \<in> set (drop (length (se_out demo_shielded))
         (se_out (relay_inbound_pass toy_libs 0 (Some [2]) sts demo_shielded)))
     \<and> (\<exists>s t. s \<in> set [[4]] \<and> (replicate 32 9, s, t) \<in> V)"
proof -
  let ?p = "replicate 32 9 :: bytes"
  obtain env where env: "decode_envelope toy_libs (Some [2]) env = Some (?p, Offer [5], enc_pk toy_libs [1])"
    "length env = length (encode_signal toy_libs (Offer [5])) + 105"
    using encode_decode_envelope [OF toy_scale.scale_codec_axioms toy_sealing_ok, of "replicate 24 0" ?p "Offer [5]" "[1]" "[2]"]
    by (auto simp: wf_signal_def wf_bytes_def)
  let ?sts = "[encode_bundle toy_libs [env]]"
  have "wf_vec wf_bytes [env]" using env(2)
    by (simp add: wf_vec_def wf_bytes_def encode_signal_def from_signal_def enc_chat_def
        enc_bytes_def enc_len_def toy_libs_def scale.defs scale_le_def enc_compact_le_def Let_def)
  then have sigs: "snd (read_signals toy_libs (Some [2]) ?sts c) = [(?p, Offer [5])]" for c
    using env(1) by (simp add: read_signals_def bundle_roundtrip [OF toy_scale.scale_codec_axioms] read_envelope_def)
  note acc = demo_shielded_fields(1) and out = demo_shielded_fields(2) and se = demo_shielded_fields(3-6)
  have hyp: "AcceptOffer ?p [5] \<in> set (drop (length (se_out demo_shielded))
         (se_out (relay_inbound_pass toy_libs 0 (Some [2]) ?sts demo_shielded)))"
    using sigs acc out se
    by (simp add: relay_inbound_pass_def split_beta on_signal_def bl_contains_def shield_admits_def call_def)
  have reach: "\<exists>V. se_reach toy_libs V demo_shielded"
    unfolding demo_shielded_def
    by (rule exI, rule se_reach.discovery, rule se_reach.allow, rule se_reach.shield,
        rule se_reach.start [of "Some []" True "[]" "replicate 32 3" 1])
      (simp add: session_start_def)
  then obtain V where V: "se_reach toy_libs V demo_shielded" by blast
  have "\<exists>s t. s \<in> set (se_shield_allow demo_shielded) \<and> (?p, s, t) \<in> V"
    using shield_answers_only_recruited [OF V se(1) _ hyp] se(2) by simp
  then show ?thesis using V se(2) hyp by auto
qed

subsection \<open>Candidates\<close>

definition cand_inv :: "peer_id \<Rightarrow> presence list \<times> peer_id list \<Rightarrow> bool" where
  "cand_inv me acc \<longleftrightarrow> distinct (map p_peer_id (fst acc)) \<and> set (snd acc) = p_peer_id ` set (fst acc) \<and> me \<notin> p_peer_id ` set (fst acc)"

lemma cand_inv_add: "cand_inv me acc \<Longrightarrow> cand_inv me (add_candidate me p acc)"
  by (cases acc) (auto simp: cand_inv_def add_candidate_def)

lemma cand_inv_fold: "cand_inv me acc \<Longrightarrow> cand_inv me (fold (add_candidate me) ps acc)"
  by (induction ps arbitrary: acc) (simp_all add: cand_inv_add)

lemma cand_keeps: "set (fst acc) \<subseteq> set (fst (add_candidate me p acc)) \<and> (p_peer_id p \<noteq> me \<longrightarrow> cand_inv me acc \<longrightarrow> p_peer_id p \<in> p_peer_id ` set (fst (add_candidate me p acc)))"
  by (cases acc) (auto simp: add_candidate_def cand_inv_def)

lemma discover_peers_spec:
  assumes "discover_peers L now mx shards se = (se', cands)"
  shows "distinct (map p_peer_id cands)" and "length cands \<le> mx" and "se_my_peer se \<notin> p_peer_id ` set cands"
    and "\<And>p. p \<in> set cands \<Longrightarrow> \<not> bl_contains now (p_peer_id p) (se_bans se)"
    and "sorted (map (\<lambda>p. \<not> p_relay p) cands)"
    and "se' = se\<lparr>se_signaling := se_signaling se'\<rparr>"
proof -
  let ?me = "se_my_peer se"
  define acc where "acc = fold (add_candidate ?me) (map presence_of_record (pb_snapshot now (se_book se)))
     (fold (\<lambda>sts acc. case sts of Some l \<Rightarrow> fold (add_candidate ?me) (read_presence L 32 l) acc | None \<Rightarrow> acc) shards ([], []))"
  define out where "out = filter (\<lambda>p. \<not> bl_contains now (p_peer_id p) (se_bans se)) (fst acc)"
  have cands: "cands = take mx (sort_key (\<lambda>p. \<not> p_relay p) out)"
    and se': "se' = se\<lparr>se_signaling := fold (\<lambda>p. note_enc_key (p_peer_id p) (p_enc_pub p)) out (se_signaling se)\<rparr>"
    using assms by (simp_all add: discover_peers_def Let_def acc_def out_def)
  have "cand_inv ?me (fold (\<lambda>sts acc. case sts of Some l \<Rightarrow> fold (add_candidate ?me) (read_presence L 32 l) acc | None \<Rightarrow> acc) shards acc0)"
    if "cand_inv ?me acc0" for acc0
    using that by (induction shards arbitrary: acc0) (auto simp: cand_inv_fold split: option.split)
  then have inv: "cand_inv ?me acc" unfolding acc_def by (intro cand_inv_fold) (simp add: cand_inv_def)
  then have "distinct (map p_peer_id out)" unfolding out_def cand_inv_def by (simp add: distinct_map_filter)
  then have "distinct (map p_peer_id (sort_key (\<lambda>p. \<not> p_relay p) out))" by (simp add: distinct_map)
  then show "distinct (map p_peer_id cands)" unfolding cands by (simp add: take_map [symmetric])
  show "length cands \<le> mx" unfolding cands by simp
  have sub: "p \<in> set cands \<Longrightarrow> p \<in> set out" for p unfolding cands by (auto dest: in_set_takeD)
  then show "?me \<notin> p_peer_id ` set cands" using inv by (auto simp: cand_inv_def out_def)
  show "\<And>p. p \<in> set cands \<Longrightarrow> \<not> bl_contains now (p_peer_id p) (se_bans se)" using sub by (auto simp: out_def)
  have "sorted (map (\<lambda>p. \<not> p_relay p) (sort_key (\<lambda>p. \<not> p_relay p) out))" by (rule sorted_sort_key)
  then show "sorted (map (\<lambda>p. \<not> p_relay p) cands)" unfolding cands by (simp add: take_map [symmetric] sorted_wrt_take)
  show "se' = se\<lparr>se_signaling := se_signaling se'\<rparr>" unfolding se' by simp
qed

subsection \<open>The maintainer\<close>

text \<open>The dials of one sweep: within the budget, in the order of the candidates, to peers that
  are not connected and that the gate trusts.\<close>

definition dialable :: "nat \<Rightarrow> (presence \<times> glance) list \<Rightarrow> peer_id set" where
  "dialable target cands = {p_peer_id c | c g. (c, g) \<in> set cands \<and> gl_trusted g \<and> gl_peer_count g < target}"

lemma dialable_Cons: "dialable target cands \<subseteq> dialable target (x # cands)"
  "gl_trusted g \<Longrightarrow> gl_peer_count g < target \<Longrightarrow> p_peer_id c \<in> dialable target ((c, g) # cands)"
  by (auto simp: dialable_def)

definition dial_spec :: "nat \<Rightarrow> nat \<Rightarrow> (presence \<times> glance) list \<Rightarrow> session \<Rightarrow> peer_id list \<Rightarrow> session \<Rightarrow> bool" where
  "dial_spec target budget cands se ds se' \<longleftrightarrow>
     se_out se' = se_out se @ map Dial ds \<and> se_connected se' = se_connected se
     \<and> length ds \<le> budget \<and> subseq ds (map (\<lambda>(c, _). p_peer_id c) cands)
     \<and> set ds \<subseteq> dialable target cands - set (se_connected se)"

lemma dial_spec_skip: "dial_spec target budget cands se ds se' \<Longrightarrow> dial_spec target budget (x # cands) se ds se'"
  using dialable_Cons(1) [of target cands x] by (auto simp: dial_spec_def split_beta)

lemma dial_spec_dial:
  assumes "dial_spec target (budget - 1) cands (call (Dial (p_peer_id cand)) (se\<lparr>se_dialer := d\<rparr>)) ds se'"
    and "0 < budget" "p_peer_id cand \<notin> set (se_connected se)" "gl_trusted g" "gl_peer_count g < target"
  shows "dial_spec target budget ((cand, g) # cands) se (p_peer_id cand # ds) se'"
  using assms dialable_Cons(1) [of target cands "(cand, g)"] dialable_Cons(2) [of g target cand cands]
  by (auto simp: dial_spec_def call_def)

lemma dial_loop_spec: "\<exists>ds. dial_spec target budget cands se ds (dial_loop target budget cands se)"
proof (induction target budget cands se rule: dial_loop.induct)
  case (2 target budget cand g cands se)
  let ?p = "p_peer_id cand"
  show ?case
  proof (cases "budget = 0 \<or> target \<le> gl_peer_count g")
    case True
    then have "dial_spec target budget ((cand, g) # cands) se [] (dial_loop target budget ((cand, g) # cands) se)"
      by (simp add: dial_spec_def)
    then show ?thesis by blast
  next
    case go: False
    show ?thesis
    proof (cases "?p \<in> set (se_connected se) \<or> \<not> should_dial (gl_now g) ?p (se_dialer se) \<or> \<not> gl_trusted g")
      case True
      with go 2(1-3) have "\<exists>ds. dial_spec target budget cands se ds (dial_loop target budget cands se)" by blast
      then obtain ds where "dial_spec target budget ((cand, g) # cands) se ds (dial_loop target budget cands se)"
        using dial_spec_skip by blast
      moreover have "dial_loop target budget ((cand, g) # cands) se = dial_loop target budget cands se"
        using True go by auto
      ultimately show ?thesis by auto
    next
      case False
      with go 2(4) obtain ds where "dial_spec target (budget - 1) cands (call (Dial ?p)
          (se\<lparr>se_dialer := record_started (gl_dialed_at g) ?p (se_dialer se)\<rparr>)) ds (dial_loop target budget ((cand, g) # cands) se)"
        by auto
      then have "dial_spec target budget ((cand, g) # cands) se (?p # ds) (dial_loop target budget ((cand, g) # cands) se)"
        using go False by (intro dial_spec_dial) auto
      then show ?thesis by blast
    qed
  qed
qed (auto simp: dial_spec_def)

lemma abandon_fold_spec:
  "\<exists>cs. se_out (fold (abandon now) ps se) = se_out se @ map Close cs \<and> set cs = set ps - set (se_connected se)
     \<and> se_connected (fold (abandon now) ps se) = se_connected se
     \<and> se_bans (fold (abandon now) ps se) = se_bans se \<and> se_my_peer (fold (abandon now) ps se) = se_my_peer se"
proof (induction ps arbitrary: se)
  case (Cons p ps)
  obtain cs where cs: "se_out (fold (abandon now) ps (abandon now p se)) = se_out (abandon now p se) @ map Close cs"
    "set cs = set ps - set (se_connected (abandon now p se))"
    "se_connected (fold (abandon now) ps (abandon now p se)) = se_connected (abandon now p se)"
    "se_bans (fold (abandon now) ps (abandon now p se)) = se_bans (abandon now p se)"
    "se_my_peer (fold (abandon now) ps (abandon now p se)) = se_my_peer (abandon now p se)"
    using Cons.IH [of "abandon now p se"] by blast
  show ?case
  proof (cases "p \<in> set (se_connected se)")
    case True
    then have "abandon now p se = se\<lparr>se_dialer := record_connected p (se_dialer se)\<rparr>" by (simp add: abandon_def)
    then show ?thesis using cs True by (intro exI [of _ cs]) auto
  next
    case False
    then have "abandon now p se = (call (Close p) se)\<lparr>se_dialer := record_failed now p (se_dialer se)\<rparr>" by (simp add: abandon_def)
    then show ?thesis using cs False by (intro exI [of _ "p # cs"]) (auto simp: call_def)
  qed
qed simp

text \<open>
  C38: A sweep of the maintainer closes exactly the stalled dials that are not connected, then
  dials. It never closes or dials a peer that is connected, never dials itself, a banned peer
  or one the trust gate refuses, dials nobody twice, and dials at most one peer more than the
  connections it is missing; with enough connections it dials nobody.
\<close>

theorem maintainer_sweep:
  "\<exists>cs ds. se_out (maintain_sweep L now target have shards look se) = se_out se @ map Close cs @ map Dial ds
     \<and> set cs = set (snd (stalled now (se_dialer se))) - set (se_connected se)
     \<and> distinct ds \<and> length ds \<le> (if have < target then target - have + 1 else 0)
     \<and> set ds \<inter> (insert (se_my_peer se) (set (se_connected se))) = {}
     \<and> set ds \<subseteq> {p. \<not> bl_contains now p (se_bans se) \<and> (\<exists>c. p_peer_id c = p \<and> gl_trusted (look c))}
     \<and> se_connected (maintain_sweep L now target have shards look se) = se_connected se"
proof -
  obtain d ps where st: "stalled now (se_dialer se) = (d, ps)" by fastforce
  define se1 where "se1 = abandon_stalled now se"
  obtain cs where cs: "se_out se1 = se_out se @ map Close cs" "set cs = set ps - set (se_connected se)"
    "se_connected se1 = se_connected se" "se_bans se1 = se_bans se" "se_my_peer se1 = se_my_peer se"
    using abandon_fold_spec [of now ps "se\<lparr>se_dialer := d\<rparr>"] by (auto simp: se1_def abandon_stalled_def st)
  show ?thesis
  proof (cases "have < target")
    case False
    then show ?thesis using cs st by (intro exI [of _ cs] exI [of _ "[]"]) (simp add: maintain_sweep_def se1_def Let_def)
  next
    case True
    obtain se2 cands where dp: "discover_peers L now 16 shards se1 = (se2, cands)" by fastforce
    note spec = discover_peers_spec [OF dp]
    have same: "se_out se2 = se_out se1" "se_connected se2 = se_connected se1"
      by (subst spec(6), simp)+
    let ?cg = "map (\<lambda>c. (c, look c)) cands"
    obtain ds where ds: "dial_spec target (target - have + 1) ?cg se2 ds (dial_loop target (target - have + 1) ?cg se2)"
      using dial_loop_spec by blast
    have sub: "subseq ds (map p_peer_id cands)" using ds by (simp add: dial_spec_def o_def)
    then have "distinct ds" "set ds \<subseteq> p_peer_id ` set cands"
      using spec(1) by (auto simp: subseq_conv_nths dest: in_set_nthsD intro: distinct_nthsI)
    moreover have "maintain_sweep L now target have shards look se = dial_loop target (target - have + 1) ?cg se2"
      using True by (simp add: maintain_sweep_def se1_def [symmetric] Let_def dp)
    ultimately show ?thesis
      using True cs st ds same spec(3,4)
      by (intro exI [of _ cs] exI [of _ ds]) (auto simp: dial_spec_def dialable_def)
  qed
qed

subsection \<open>The rolling windows\<close>

lemma window_trim_drop: "bt_ok w \<Longrightarrow> window_trim cap w = drop (length w - cap) w"
proof (induction cap w rule: window_trim.induct)
  case (1 cap w)
  show ?case
  proof (cases "cap < length w")
    case True
    then obtain k v r where w: "w = (k, v) # r" by (cases w) auto
    have "AList.delete k w = r"
      using bt_distinct [OF 1(2)] by (simp add: w AList.delete_eq) (force intro: filter_True)
    moreover have "bt_ok r" using 1(2) by (simp add: w bt_ok_def)
    ultimately have IH: "window_trim cap (AList.delete k w) = drop (length r - cap) r"
      using 1(1) [OF True w] by simp
    have "window_trim cap w = window_trim cap (AList.delete k w)"
      using True by (subst window_trim.simps) (simp add: w)
    then have "window_trim cap w = drop (length r - cap) r" using IH by simp
    moreover have "length w - cap = Suc (length r - cap)" using True w by simp
    ultimately show ?thesis by (simp add: w)
  qed (simp add: window_trim.simps)
qed

lemma bt_put_append_right:
  assumes "bt_ok (a @ w)" and "\<forall>j \<in> set (map fst a). j < k"
  shows "bt_put k v (a @ w) = a @ bt_put k v w"
  using assms by (induction a) (auto simp: bt_ok_def)

lemma bt_put_append_left:
  assumes "\<exists>j \<in> set (map fst a). k \<le> j"
  shows "bt_put k v (a @ w) = bt_put k v a @ w"
  using assms by (induction a) (auto, force)

lemma bt_put_below: "w = [] \<or> k < fst (hd w) \<Longrightarrow> bt_put k v w = (k, v) # w"
  by (cases w) auto

lemma length_bt_put: "length (bt_put k v m) = length m \<or> length (bt_put k v m) = Suc (length m)"
  by (induction m) (auto split: if_splits)

lemma window_push_drop:
  assumes "bt_ok m"
  shows "window_push cap (k, v) (drop (length m - cap) m) = drop (length (bt_put k v m) - cap) (bt_put k v m)"
proof -
  define a w where "a = take (length m - cap) m" and "w = drop (length m - cap) m"
  have m: "m = a @ w" by (simp add: a_def w_def)
  have "bt_ok w" using assms by (simp add: m bt_ok_def sorted_wrt_append)
  then have push: "window_push cap (k, v) w = drop (length (bt_put k v w) - cap) (bt_put k v w)"
    by (simp add: window_push_def window_trim_drop bt_ok_put)
  show ?thesis
  proof (cases "a = []")
    case True
    then have "w = m" using m by simp
    then show ?thesis using push unfolding w_def by simp
  next
    case False
    then have len: "length w = cap" by (simp add: a_def w_def)
    show ?thesis
    proof (cases "\<exists>j \<in> set (map fst a). k \<le> j")
      case True
      then have "w = [] \<or> k < fst (hd w)"
        using assms by (cases w) (auto simp: m bt_ok_def sorted_wrt_append)
      then have "window_push cap (k, v) w = w" using push len by (simp add: bt_put_below)
      moreover have "drop (length (bt_put k v m) - cap) (bt_put k v m) = w"
        unfolding m bt_put_append_left [OF True] using len by simp
      ultimately show ?thesis by (simp add: w_def)
    next
      case False
      then have "\<forall>j \<in> set (map fst a). j < k" by auto
      then have "bt_put k v m = a @ bt_put k v w" using assms bt_put_append_right m by metis
      then show ?thesis using push len length_bt_put [of k v w] by (auto simp: w_def)
    qed
  qed
qed

text \<open>
  Whatever order the segments are produced in, the edge and the durable publisher announce
  exactly the newest entries: the window that is trimmed after every insertion equals the last
  64 (16) entries, by sequence number, of the map of everything produced, each with its latest
  value.
\<close>

theorem window_keeps_newest:
  "fold (window_push cap) kvs [] =
     (let m = fold (\<lambda>(k, v). bt_put k v) kvs [] in drop (length m - cap) m)"
proof -
  have "fold (window_push cap) kvs [] = drop (length (fold (\<lambda>(k, v). bt_put k v) kvs []) - cap) (fold (\<lambda>(k, v). bt_put k v) kvs [])
      \<and> bt_ok (fold (\<lambda>(k, v). bt_put k v) kvs ([] :: ('a, 'b) btree_map))"
  proof (induction kvs rule: rev_induct)
    case (snoc kv kvs)
    then show ?case by (cases kv) (simp add: window_push_drop bt_ok_put)
  qed simp
  then show ?thesis by (simp add: Let_def)
qed

end
