(* ===== verification/Keydir.thy ===== *)
theory Keydir
  imports Supervisor
begin

section \<open>The daemon's identity and command line\<close>

text \<open>
  Models \<open>src/crates/unstation-node/src/keydir.rs\<close> (where the daemon's key comes from) and the
  argument parsing of \<open>main.rs\<close>. The key directory is a record of what is on disk; every system
  call may fail, and which one does is an argument. Strings are lists of code points.
\<close>

subsection \<open>The key directory\<close>

datatype io_kind = NotFoundKind | InvalidDataKind | InvalidInputKind | OtherKind nat

text \<open>\<open>kd_mode\<close> is the mode of the directory when it exists, \<open>kd_slot\<close> the slot file with its mode.\<close>

record key_dir =
  kd_mode :: "nat option"
  kd_slot :: "(bytes \<times> nat) option"

datatype identity_source = PairedSlot bytes | Mnemonic ustr | GeneratedLegacy

text \<open>The environment gives the directory and the home; \<open>/\<close> joins path components.\<close>

definition default_key_dir :: "ustr option \<Rightarrow> ustr option \<Rightarrow> ustr" where
  "default_key_dir env home =
     (case env of
        Some dir \<Rightarrow> if trim_by char_is_whitespace dir \<noteq> [] then dir
                    else (case home of Some h \<Rightarrow> h | None \<Rightarrow> ustr ''.'') @ ustr ''/.unstation-node''
      | None \<Rightarrow> (case home of Some h \<Rightarrow> h | None \<Rightarrow> ustr ''.'') @ ustr ''/.unstation-node'')"

datatype read_fault = OpenFails io_kind | ReadFails io_kind

definition read_slot_secret :: "read_fault option \<Rightarrow> key_dir \<Rightarrow> io_kind + bytes option" where
  "read_slot_secret fault kd =
     (case fault of
        Some (OpenFails e) \<Rightarrow> if e = NotFoundKind then Inr None else Inl e
      | _ \<Rightarrow>
          (case kd_slot kd of
             None \<Rightarrow> Inr None
           | Some (secret, _) \<Rightarrow>
               (case fault of
                  Some (ReadFails e) \<Rightarrow> Inl e
                | _ \<Rightarrow> if length secret \<noteq> 32 \<and> length secret \<noteq> 64 then Inl InvalidDataKind else Inr (Some secret))))"

text \<open>A write may fail at any step; \<open>WriteFails n\<close> is a failure after \<open>n\<close> bytes.
  \<open>umask_mode\<close> is the mode a directory is created with.\<close>

datatype write_fault = MkdirFails | ChmodDirFails | OpenWriteFails | ChmodFails | WriteFails nat | SyncFails

definition write_slot_secret :: "nat \<Rightarrow> write_fault option \<Rightarrow> bytes \<Rightarrow> key_dir \<Rightarrow> key_dir \<times> (io_kind + unit)" where
  "write_slot_secret umask_mode fault secret kd =
     (if length secret \<noteq> 32 \<and> length secret \<noteq> 64 then (kd, Inl InvalidInputKind)
      else if kd_mode kd = None \<and> fault = Some MkdirFails then (kd, Inl (OtherKind 0))
      else if kd_mode kd = None \<and> fault = Some ChmodDirFails then (kd\<lparr>kd_mode := Some umask_mode\<rparr>, Inl (OtherKind 1))
      else
        (let kd1 = (if kd_mode kd = None then kd\<lparr>kd_mode := Some 448\<rparr> else kd)
         in if fault = Some OpenWriteFails then (kd1, Inl (OtherKind 2))
            else
              (let mode = (case kd_slot kd1 of Some (_, m) \<Rightarrow> m | None \<Rightarrow> 384);
                   kd2 = kd1\<lparr>kd_slot := Some ([], mode)\<rparr>
               in if fault = Some ChmodFails then (kd2, Inl (OtherKind 3))
                  else case fault of
                         Some (WriteFails n) \<Rightarrow> (kd2\<lparr>kd_slot := Some (take n secret, 384)\<rparr>, Inl (OtherKind 4))
                       | Some SyncFails \<Rightarrow> (kd2\<lparr>kd_slot := Some (secret, 384)\<rparr>, Inl (OtherKind 5))
                       | _ \<Rightarrow> (kd2\<lparr>kd_slot := Some (secret, 384)\<rparr>, Inr ()))))"

definition resolve_identity :: "read_fault option \<Rightarrow> ustr option \<Rightarrow> key_dir \<Rightarrow> io_kind + identity_source" where
  "resolve_identity fault mnemonic kd =
     (case read_slot_secret fault kd of
        Inl e \<Rightarrow> Inl e
      | Inr (Some secret) \<Rightarrow> Inr (PairedSlot secret)
      | Inr None \<Rightarrow>
          (case map_option (trim_by char_is_whitespace) mnemonic of
             Some m \<Rightarrow> if m \<noteq> [] then Inr (Mnemonic m) else Inr GeneratedLegacy
           | None \<Rightarrow> Inr GeneratedLegacy))"

subsection \<open>Arguments\<close>

record args =
  a_pins :: "ustr list"
  a_open :: bool

definition is_flag :: "ustr \<Rightarrow> bool" where
  "is_flag s \<longleftrightarrow> s \<noteq> [] \<and> hd s = 45"

fun parse_loop :: "ustr list \<Rightarrow> bool \<Rightarrow> ustr list \<Rightarrow> ustr + args" where
  "parse_loop pins open_flag [] = Inr \<lparr>a_pins = pins, a_open = (open_flag \<or> pins = [])\<rparr>"
| "parse_loop pins open_flag (arg # it) =
     (if arg = ustr ''--stream'' then
        (case it of
           name # it' \<Rightarrow> if \<not> is_flag name then parse_loop (pins @ [name]) open_flag it'
                         else Inl (ustr ''--stream needs a stream name'')
         | [] \<Rightarrow> Inl (ustr ''--stream needs a stream name''))
      else if arg = ustr ''--open'' then parse_loop pins True it
      else if arg = ustr ''--help'' \<or> arg = ustr ''-h'' then Inl []
      else if arg = ustr ''pair'' then Inl (ustr ''`pair` must be the first argument'')
      else if is_flag arg then Inl (ustr ''unknown flag: '' @ arg)
      else parse_loop (pins @ [arg]) open_flag it)"

definition parse_args :: "ustr list \<Rightarrow> ustr + args" where
  "parse_args argv = parse_loop [] False argv"

text \<open>The pieces of a comma-separated variable, trimmed, without the empty ones.\<close>

fun split_comma :: "ustr \<Rightarrow> ustr \<Rightarrow> ustr list" where
  "split_comma acc [] = [acc]"
| "split_comma acc (c # s) = (if c = 44 then acc # split_comma [] s else split_comma (acc @ [c]) s)"

definition server_list :: "ustr \<Rightarrow> ustr list" where
  "server_list v = filter (\<lambda>s. s \<noteq> []) (map (trim_by char_is_whitespace) (split_comma [] v))"

definition stun :: "ustr option \<Rightarrow> ustr option \<Rightarrow> ustr list" where
  "stun env_stun env_turn =
     (case env_stun of
        Some v \<Rightarrow> server_list v
      | None \<Rightarrow> [ustr ''stun:stun.l.google.com:19302'', ustr ''stun:stun.cloudflare.com:3478''])
     @ (case env_turn of Some v \<Rightarrow> server_list v | None \<Rightarrow> [])"

subsection \<open>Identity\<close>

text \<open>A history of attempts to store a secret, each with the mode a directory would get and the step that fails.\<close>

type_synonym slot_write = "nat \<times> write_fault option \<times> bytes"

definition slot_writes :: "slot_write list \<Rightarrow> key_dir \<Rightarrow> key_dir" where
  "slot_writes ws kd = fold (\<lambda>(um, fault, secret) kd. fst (write_slot_secret um fault secret kd)) ws kd"

text \<open>The secrets a slot may hold after a history: the one it held, one that was to be stored, or the
  first half of one of 64 bytes.\<close>

definition slot_secrets :: "slot_write list \<Rightarrow> key_dir \<Rightarrow> bytes set" where
  "slot_secrets ws kd =
     fst ` set_option (kd_slot kd) \<union> (\<Union>(_, _, t) \<in> set ws. {t, take 32 t})"

definition slot_key :: "bytes \<Rightarrow> bool" where
  "slot_key s \<longleftrightarrow> length s = 32 \<or> length s = 64"

definition slot_sound :: "bytes set \<Rightarrow> key_dir \<Rightarrow> bool" where
  "slot_sound S kd \<longleftrightarrow> (\<exists>s m. kd_slot kd = Some (s, m) \<and> (slot_key s \<longrightarrow> s \<in> S))"

lemma write_slot_cases:
  obtains (same) "kd_slot (fst (write_slot_secret um fault secret kd)) = kd_slot kd"
  | (cut) n m where "kd_slot (fst (write_slot_secret um fault secret kd)) = Some (take n secret, m)" "slot_key secret"
  by (fastforce simp: write_slot_secret_def slot_key_def Let_def split: if_splits option.splits write_fault.splits
      intro: that(2) [of 0] that(2) [of "length secret"])

lemma slot_key_take: "slot_key s \<Longrightarrow> slot_key (take n s) \<Longrightarrow> take n s = s \<or> take n s = take 32 s"
  by (cases "n = 32") (auto simp: slot_key_def min_def split: if_splits)

lemma slot_sound_write:
  assumes "slot_sound S kd"
  shows "slot_sound (S \<union> {t, take 32 t}) (fst (write_slot_secret um fault t kd))"
proof (cases rule: write_slot_cases [of um fault t kd])
  case same
  then show ?thesis using assms by (auto simp: slot_sound_def)
next
  case (cut n m)
  then show ?thesis using slot_key_take [of t n] by (auto simp: slot_sound_def)
qed

lemma slot_sound_writes: "slot_sound S kd \<Longrightarrow> slot_sound (S \<union> (\<Union>(_, _, t) \<in> set ws. {t, take 32 t})) (slot_writes ws kd)"
proof (induction ws arbitrary: S kd)
  case (Cons w ws)
  obtain um fault t where w: "w = (um, fault, t)" by (metis prod_cases3)
  have "slot_writes (w # ws) kd = slot_writes ws (fst (write_slot_secret um fault t kd))" by (simp add: slot_writes_def w)
  moreover have "S \<union> (\<Union>(_, _, t) \<in> set (w # ws). {t, take 32 t}) = S \<union> {t, take 32 t} \<union> (\<Union>(_, _, t) \<in> set ws. {t, take 32 t})"
    by (simp add: w Un_assoc)
  ultimately show ?case using Cons.IH [OF slot_sound_write [OF Cons.prems]] by (simp only:)
qed (simp add: slot_writes_def)

lemma resolve_sound:
  assumes "slot_sound S kd" "fault \<noteq> Some (OpenFails NotFoundKind)"
  shows "case resolve_identity fault mnemonic kd of
      Inr src \<Rightarrow> fault = None \<and> (\<exists>s \<in> S. slot_key s \<and> src = PairedSlot s)
    | Inl err \<Rightarrow> (case fault of Some (OpenFails e) \<Rightarrow> err = e | Some (ReadFails e) \<Rightarrow> err = e | None \<Rightarrow> err = InvalidDataKind)"
proof -
  obtain s m where "kd_slot kd = Some (s, m)" "slot_key s \<longrightarrow> s \<in> S" using assms(1) by (auto simp: slot_sound_def)
  then show ?thesis using assms(2)
    by (auto simp: resolve_identity_def read_slot_secret_def slot_key_def split: option.splits read_fault.splits)
qed

text \<open>
  C39: Once a secret has been in the slot of the key directory, the daemon runs under a secret
  of that slot or not at all. After any history of attempts to replace it, each of which may
  fail at any step, and whatever mnemonic the environment sets: if the file can be opened and
  read, the daemon resolves to the secret of before, to one of those that were to be stored, or
  to the first half of one of 64 bytes, or it reports invalid data; if opening or reading it
  fails for any reason but that the file is not there, it reports that reason. It never falls
  back to the mnemonic or to a generated key. A last attempt that succeeds is resolved exactly,
  in a file private to its owner.
\<close>

theorem identity_never_falls_through:
  assumes "kd_slot kd \<noteq> None" and "fault \<noteq> Some (OpenFails NotFoundKind)"
  shows "(case resolve_identity fault mnemonic (slot_writes ws kd) of
        Inr src \<Rightarrow> fault = None \<and> (\<exists>s \<in> slot_secrets ws kd. slot_key s \<and> src = PairedSlot s)
      | Inl err \<Rightarrow> (case fault of Some (OpenFails e) \<Rightarrow> err = e | Some (ReadFails e) \<Rightarrow> err = e | None \<Rightarrow> err = InvalidDataKind))
    \<and> (\<forall>um secret. slot_key secret \<longrightarrow>
        resolve_identity None mnemonic (slot_writes (ws @ [(um, None, secret)]) kd) = Inr (PairedSlot secret)
        \<and> map_option snd (kd_slot (slot_writes (ws @ [(um, None, secret)]) kd)) = Some 384)"
proof -
  have "slot_sound (fst ` set_option (kd_slot kd)) kd" using assms(1) by (auto simp: slot_sound_def)
  then have "slot_sound (slot_secrets ws kd) (slot_writes ws kd)" unfolding slot_secrets_def by (rule slot_sound_writes)
  note resolve_sound [OF this assms(2), of mnemonic]
  moreover have "kd_slot (fst (write_slot_secret um None secret kd')) = Some (secret, 384)" if "slot_key secret" for um secret kd'
    using that by (auto simp: write_slot_secret_def slot_key_def Let_def)
  then have "resolve_identity None mnemonic (slot_writes (ws @ [(um, None, secret)]) kd) = Inr (PairedSlot secret)
      \<and> map_option snd (kd_slot (slot_writes (ws @ [(um, None, secret)]) kd)) = Some 384" if "slot_key secret" for um secret
    using that by (auto simp: slot_writes_def resolve_identity_def read_slot_secret_def slot_key_def)
  ultimately show ?thesis by blast
qed

text \<open>A directory that holds a secret.\<close>

definition demo_dir :: key_dir where
  "demo_dir = \<lparr>kd_mode = Some 448, kd_slot = Some (replicate 32 9, 384)\<rparr>"

theorem identity_never_falls_through_witness:
  "resolve_identity (Some (OpenFails (OtherKind 13))) (Some (ustr ''words''))
     (slot_writes [(493, Some (WriteFails 32), replicate 64 1), (493, Some OpenWriteFails, replicate 32 2)] demo_dir) = Inl (OtherKind 13)
   \<and> resolve_identity None (Some (ustr ''words''))
     (slot_writes [(493, Some (WriteFails 32), replicate 64 1), (493, None, replicate 32 2)] demo_dir) = Inr (PairedSlot (replicate 32 2))
   \<and> resolve_identity None (Some (ustr ''words''))
     (slot_writes [(493, Some (WriteFails 32), replicate 64 1)] demo_dir) = Inr (PairedSlot (replicate 32 1))"
proof -
  have slot: "kd_slot demo_dir \<noteq> None" by (simp add: demo_dir_def)
  note n = identity_never_falls_through [OF slot]
  show ?thesis
    using n [of "Some (OpenFails (OtherKind 13))" "[(493, Some (WriteFails 32), replicate 64 1), (493, Some OpenWriteFails, replicate 32 2)]" "Some (ustr ''words'')"]
      n [of None "[(493, Some (WriteFails 32), replicate 64 1)]" "Some (ustr ''words'')"]
    by (simp add: slot_key_def slot_writes_def write_slot_secret_def resolve_identity_def read_slot_secret_def demo_dir_def Let_def)
qed

subsection \<open>The command line\<close>

lemma ustr_inj: "ustr a = ustr b \<longleftrightarrow> a = b"
proof -
  have "inj (of_char :: char \<Rightarrow> nat)" by (auto intro: injI)
  then show ?thesis by (simp add: ustr_def inj_map_eq_map)
qed

lemma parse_streams:
  "list_all (\<lambda>n. \<not> is_flag n) names \<Longrightarrow>
   parse_loop pins open_flag (concat (map (\<lambda>n. [ustr ''--stream'', n]) names) @ rest) = parse_loop (pins @ names) open_flag rest"
  by (induction names arbitrary: pins) simp_all

text \<open>
  The command line means what its usage says: pins are the names given with \<open>--stream\<close>, in
  order; the daemon is an open relay when \<open>--open\<close> is given or nothing is pinned, and only
  then; and every result of parsing is of that kind, so pinning streams never opens the relay
  by accident.
\<close>

lemma parse_loop_open:
  "parse_loop pins open_flag argv = Inr a \<Longrightarrow> a_open a \<longleftrightarrow> a_pins a = [] \<or> open_flag \<or> ustr ''--open'' \<in> set argv"
proof (induction pins open_flag argv rule: parse_loop.induct)
  case (2 pins open_flag arg it)
  have "is_flag (ustr ''--open'')" "ustr ''--stream'' \<noteq> ustr ''--open''" by (simp_all add: is_flag_def ustr_def)
  with 2 show ?case by (auto split: if_splits list.splits)
qed auto

theorem parse_args_meaning:
  assumes "list_all (\<lambda>n. \<not> is_flag n) names"
  shows "parse_args (concat (map (\<lambda>n. [ustr ''--stream'', n]) names) @ (if opn then [ustr ''--open''] else []))
      = Inr \<lparr>a_pins = names, a_open = (opn \<or> names = [])\<rparr>
    \<and> (\<forall>argv a. parse_args argv = Inr a \<longrightarrow> (a_open a \<longleftrightarrow> a_pins a = [] \<or> ustr ''--open'' \<in> set argv))"
  using assms parse_loop_open by (auto simp: parse_args_def parse_streams ustr_inj)

end
