(* ===== verification/Fmp4.thy ===== *)
theory Fmp4
  imports Crypto
begin

section \<open>Fragmented MP4\<close>

text \<open>
  Models the box layer of \<open>src/infra/segmenter/src/fmp4.rs\<close>: the init segment, the media
  fragments, and the parser the playlist server uses on them. A box is its bytes. Lengths are
  written as the casts to \<open>u32\<close> and \<open>u16\<close> write them, modulo their width. Presentation times
  (\<open>i64\<close> in the source, derived from saturating products and far from overflow) are integers;
  the casts back to \<open>u32\<close> truncate.
\<close>

unbundle bit_operations_syntax

definition TIMESCALE :: u32 where "TIMESCALE = 90000"
definition VIDEO_TRACK_ID :: u32 where "VIDEO_TRACK_ID = 1"
definition AUDIO_TIMESCALE :: u32 where "AUDIO_TIMESCALE = 48000"
definition AUDIO_TRACK_ID :: u32 where "AUDIO_TRACK_ID = 2"

record h264_params =
  hp_sps :: bytes
  hp_pps :: bytes
  hp_width :: u16
  hp_height :: u16

record au =
  au_avcc :: bytes
  au_pts :: int
  au_duration :: u32
  au_comp_offset :: u32
  au_keyframe :: bool
  au_poc_dec :: int
  au_poc_gop :: int
  au_poc_val :: int

record audio_frame =
  af_data :: bytes
  af_duration :: u32

subsection \<open>Boxes\<close>

abbreviation be32 :: "u32 \<Rightarrow> bytes" where "be32 x \<equiv> be_of_nat 4 (unat x)"
abbreviation be16 :: "u16 \<Rightarrow> bytes" where "be16 x \<equiv> be_of_nat 2 (unat x)"
abbreviation be64 :: "u64 \<Rightarrow> bytes" where "be64 x \<equiv> be_of_nat 8 (unat x)"
abbreviation zero_bytes :: "nat \<Rightarrow> bytes" where "zero_bytes n \<equiv> replicate n 0"

definition bx :: "bytes \<Rightarrow> bytes \<Rightarrow> bytes" where
  "bx typ body = be_of_nat 4 (8 + length body) @ typ @ body"

definition full_bx :: "bytes \<Rightarrow> u8 \<Rightarrow> u32 \<Rightarrow> bytes \<Rightarrow> bytes" where
  "full_bx typ version flags body = bx typ ([version] @ drop 1 (be32 flags) @ body)"

subsection \<open>The init segment\<close>

definition UNITY_MATRIX :: bytes where
  "UNITY_MATRIX = [0, 1, 0, 0, 0, 0, 0, 0, 0, 0, 0, 0,  0, 0, 0, 0, 0, 1, 0, 0, 0, 0, 0, 0,
     0, 0, 0, 0, 0, 0, 0, 0, 64, 0, 0, 0]"

definition ftyp :: bytes where
  "ftyp = bx (ascii ''ftyp'') (ascii ''iso5'' @ be32 0
     @ concat [ascii ''iso5'', ascii ''iso6'', ascii ''mp41'', ascii ''avc1'', ascii ''cmfc''])"

definition mvhd :: "bool \<Rightarrow> bytes" where
  "mvhd with_audio = full_bx (ascii ''mvhd'') 0 0
     (be32 0 @ be32 0 @ be32 TIMESCALE @ be32 0 @ be32 0x10000 @ be16 0x100 @ be16 0 @ zero_bytes 8
      @ UNITY_MATRIX @ zero_bytes 24 @ be32 (if with_audio then AUDIO_TRACK_ID + 1 else VIDEO_TRACK_ID + 1))"

definition tkhd :: "h264_params \<Rightarrow> bytes" where
  "tkhd p = full_bx (ascii ''tkhd'') 0 7
     (be32 0 @ be32 0 @ be32 VIDEO_TRACK_ID @ be32 0 @ be32 0 @ zero_bytes 8 @ be16 0 @ be16 0 @ be16 0 @ be16 0
      @ UNITY_MATRIX @ be32 (push_bit 16 (ucast (hp_width p))) @ be32 (push_bit 16 (ucast (hp_height p))))"

definition mdhd :: bytes where
  "mdhd = full_bx (ascii ''mdhd'') 0 0 (be32 0 @ be32 0 @ be32 TIMESCALE @ be32 0 @ be16 0x55c4 @ be16 0)"

definition hdlr :: bytes where
  "hdlr = full_bx (ascii ''hdlr'') 0 0 (be32 0 @ ascii ''vide'' @ zero_bytes 12 @ ascii ''VideoHandler'' @ [0])"

definition dinf :: bytes where
  "dinf = bx (ascii ''dinf'') (full_bx (ascii ''dref'') 0 0 (be32 1 @ full_bx (ascii ''url '') 0 1 []))"

definition byte_or :: "bytes \<Rightarrow> nat \<Rightarrow> u8 \<Rightarrow> u8" where
  "byte_or b i d = (if i < length b then b ! i else d)"

definition avcc :: "h264_params \<Rightarrow> bytes" where
  "avcc p = bx (ascii ''avcC'')
     ([1, byte_or (hp_sps p) 1 0x64, byte_or (hp_sps p) 2 0, byte_or (hp_sps p) 3 0x28, 0xff, 0xe1]
      @ be_of_nat 2 (length (hp_sps p)) @ hp_sps p @ [1] @ be_of_nat 2 (length (hp_pps p)) @ hp_pps p)"

definition avc1 :: "h264_params \<Rightarrow> bytes" where
  "avc1 p = bx (ascii ''avc1'')
     (zero_bytes 6 @ be16 1 @ zero_bytes 16 @ be16 (hp_width p) @ be16 (hp_height p) @ be32 0x480000 @ be32 0x480000
      @ be32 0 @ be16 1 @ zero_bytes 32 @ be16 0x18 @ be16 0xffff @ avcc p)"

definition stbl_of :: "bytes \<Rightarrow> bytes" where
  "stbl_of entry = bx (ascii ''stbl'')
     (concat [full_bx (ascii ''stsd'') 0 0 (be32 1 @ entry), full_bx (ascii ''stts'') 0 0 (be32 0),
              full_bx (ascii ''stsc'') 0 0 (be32 0), full_bx (ascii ''stsz'') 0 0 (zero_bytes 8),
              full_bx (ascii ''stco'') 0 0 (be32 0)])"

definition stbl :: "h264_params \<Rightarrow> bytes" where
  "stbl p = stbl_of (avc1 p)"

definition minf :: "h264_params \<Rightarrow> bytes" where
  "minf p = bx (ascii ''minf'') (concat [full_bx (ascii ''vmhd'') 0 1 (zero_bytes 8), dinf, stbl p])"

definition mdia :: "h264_params \<Rightarrow> bytes" where
  "mdia p = bx (ascii ''mdia'') (concat [mdhd, hdlr, minf p])"

definition trak :: "h264_params \<Rightarrow> bytes" where
  "trak p = bx (ascii ''trak'') (concat [tkhd p, mdia p])"

definition audio_tkhd :: bytes where
  "audio_tkhd = full_bx (ascii ''tkhd'') 0 7
     (be32 0 @ be32 0 @ be32 AUDIO_TRACK_ID @ be32 0 @ be32 0 @ zero_bytes 8 @ be16 0 @ be16 0 @ be16 0x100 @ be16 0
      @ UNITY_MATRIX @ be32 0 @ be32 0)"

definition audio_mdhd :: bytes where
  "audio_mdhd = full_bx (ascii ''mdhd'') 0 0 (be32 0 @ be32 0 @ be32 AUDIO_TIMESCALE @ be32 0 @ be16 0x55c4 @ be16 0)"

definition audio_hdlr :: bytes where
  "audio_hdlr = full_bx (ascii ''hdlr'') 0 0 (be32 0 @ ascii ''soun'' @ zero_bytes 12 @ ascii ''SoundHandler'' @ [0])"

definition d_ops :: "u8 \<Rightarrow> bytes" where
  "d_ops channels = bx (ascii ''dOps'') ([0, channels] @ be16 312 @ be32 AUDIO_TIMESCALE @ be16 0 @ [0])"

definition opus_sample_entry :: "u8 \<Rightarrow> bytes" where
  "opus_sample_entry channels = bx (ascii ''Opus'')
     (zero_bytes 6 @ be16 1 @ zero_bytes 8 @ be16 (ucast channels) @ be16 16 @ be16 0 @ be16 0
      @ be32 (push_bit 16 AUDIO_TIMESCALE) @ d_ops channels)"

definition audio_stbl :: "u8 \<Rightarrow> bytes" where
  "audio_stbl channels = stbl_of (opus_sample_entry channels)"

definition audio_minf :: "u8 \<Rightarrow> bytes" where
  "audio_minf channels = bx (ascii ''minf'') (concat [full_bx (ascii ''smhd'') 0 0 (zero_bytes 4), dinf, audio_stbl channels])"

definition audio_mdia :: "u8 \<Rightarrow> bytes" where
  "audio_mdia channels = bx (ascii ''mdia'') (concat [audio_mdhd, audio_hdlr, audio_minf channels])"

definition audio_trak :: "u8 \<Rightarrow> bytes" where
  "audio_trak channels = bx (ascii ''trak'') (concat [audio_tkhd, audio_mdia channels])"

definition trex_for :: "u32 \<Rightarrow> bytes" where
  "trex_for track_id = full_bx (ascii ''trex'') 0 0 (be32 track_id @ be32 1 @ be32 0 @ be32 0 @ be32 0)"

definition mvex :: "bool \<Rightarrow> bytes" where
  "mvex with_audio = bx (ascii ''mvex'') (trex_for VIDEO_TRACK_ID @ (if with_audio then trex_for AUDIO_TRACK_ID else []))"

definition moov :: "h264_params \<Rightarrow> u8 option \<Rightarrow> bytes" where
  "moov p audio_channels = bx (ascii ''moov'')
     (concat ([mvhd (audio_channels \<noteq> None), trak p]
        @ (case audio_channels of Some ch \<Rightarrow> [audio_trak ch] | None \<Rightarrow> []) @ [mvex (audio_channels \<noteq> None)]))"

definition init_bytes :: "h264_params \<Rightarrow> u8 option \<Rightarrow> bytes" where
  "init_bytes p audio_channels = ftyp @ moov p audio_channels"

subsection \<open>Fragments\<close>

definition patch :: "nat \<Rightarrow> bytes \<Rightarrow> bytes \<Rightarrow> bytes" where
  "patch pos new b = take pos b @ new @ drop (pos + length new) b"

definition sample_flags :: "au \<Rightarrow> u32" where
  "sample_flags a = (if au_keyframe a then 0x2000000 else 0x1010000)"

definition video_sample :: "au \<Rightarrow> bytes" where
  "video_sample a = be32 (au_duration a) @ be_of_nat 4 (length (au_avcc a)) @ be32 (sample_flags a) @ be32 (au_comp_offset a)"

definition traf :: "u64 \<Rightarrow> au list \<Rightarrow> bytes \<times> nat" where
  "traf base_decode_time aus =
     (let tfhd = full_bx (ascii ''tfhd'') 0 0x20000 (be32 VIDEO_TRACK_ID);
          tfdt = full_bx (ascii ''tfdt'') 1 0 (be64 base_decode_time);
          trun = full_bx (ascii ''trun'') 0 0xf01 (be_of_nat 4 (length aus) @ be32 0 @ concat (map video_sample aus))
      in (bx (ascii ''traf'') (concat [tfhd, tfdt, trun]), 8 + length tfhd + length tfdt + 8 + 4 + 4))"

definition audio_sample :: "audio_frame \<Rightarrow> bytes" where
  "audio_sample f = be32 (af_duration f) @ be_of_nat 4 (length (af_data f))"

definition audio_traf :: "u64 \<Rightarrow> audio_frame list \<Rightarrow> bytes \<times> nat" where
  "audio_traf base_decode_time frames =
     (let tfhd = full_bx (ascii ''tfhd'') 0 0x20000 (be32 AUDIO_TRACK_ID);
          tfdt = full_bx (ascii ''tfdt'') 1 0 (be64 base_decode_time);
          trun = full_bx (ascii ''trun'') 0 0x301 (be_of_nat 4 (length frames) @ be32 0 @ concat (map audio_sample frames))
      in (bx (ascii ''traf'') (concat [tfhd, tfdt, trun]), 8 + length tfhd + length tfdt + 8 + 4 + 4))"

definition moof :: "u64 \<Rightarrow> u64 \<Rightarrow> au list \<Rightarrow> (audio_frame list \<times> u64) option \<Rightarrow> bytes" where
  "moof seq base_decode_time aus audio =
     (let mfhd = full_bx (ascii ''mfhd'') 0 0 (be32 (ucast seq + 1));
          (video_traf, video_off) = traf base_decode_time aus;
          audio_built = map_option (\<lambda>(frames, bdt). audio_traf bdt frames) audio;
          moof_box = bx (ascii ''moof'')
            (concat ([mfhd, video_traf] @ (case audio_built of Some (t, _) \<Rightarrow> [t] | None \<Rightarrow> [])));
          video_bytes = sum_list (map (\<lambda>a. length (au_avcc a)) aus);
          video_data_offset = (of_nat (length moof_box) :: u32) + 8;
          moof1 = patch (8 + length mfhd + video_off) (be32 video_data_offset) moof_box
      in case audio_built of
           None \<Rightarrow> moof1
         | Some (_, audio_off) \<Rightarrow>
             patch (8 + length mfhd + length video_traf + audio_off) (be32 (video_data_offset + of_nat video_bytes)) moof1)"

definition mdat :: "au list \<Rightarrow> audio_frame list option \<Rightarrow> bytes" where
  "mdat aus audio = bx (ascii ''mdat'')
     (concat (map au_avcc aus) @ (case audio of Some frames \<Rightarrow> concat (map af_data frames) | None \<Rightarrow> []))"

subsection \<open>Timing from presentation times\<close>

definition compute_timing :: "au list \<Rightarrow> u32 \<Rightarrow> au list \<times> u32" where
  "compute_timing aus fallback_frame_dur =
     (if aus = [] then (aus, max fallback_frame_dur 1)
      else
        (let min_pts = Min (set (map au_pts aus));
             rel = map (\<lambda>a. au_pts a - min_pts) aus;
             sorted = sort rel;
             gaps = filter (\<lambda>d. 0 < d) (map2 (\<lambda>a b. b - a) sorted (tl sorted));
             frame_dur = (if gaps = [] then uint (max fallback_frame_dur 1)
                          else max (sort gaps ! (length gaps div 2)) 1);
             delay = fold (\<lambda>(i, r) d. max d (int i * frame_dur - r)) (enumerate 0 rel) 0
         in (map (\<lambda>(i, a, r). a\<lparr>au_duration := of_int frame_dur,
                                au_comp_offset := of_int (max (r - int i * frame_dur + delay) 0)\<rparr>)
               (enumerate 0 (zip aus rel)),
             of_int frame_dur)))"

function gcd_loop :: "int \<Rightarrow> int \<Rightarrow> int" where
  "gcd_loop a b = (if b = 0 then a else gcd_loop b (a mod b))"
  by auto
termination
  by (relation "measure (\<lambda>(_, b). nat \<bar>b\<bar>)") (auto simp: abs_mod_less)

declare gcd_loop.simps [simp del]

definition au_gcd :: "int \<Rightarrow> int \<Rightarrow> int" where
  "au_gcd a b = gcd_loop \<bar>a\<bar> \<bar>b\<bar>"

subsection \<open>Annex B\<close>

text \<open>The start codes of a buffer by position, and the units between them.\<close>

function start_codes :: "bytes \<Rightarrow> nat \<Rightarrow> nat list" where
  "start_codes b i =
     (if i + 3 \<le> length b then
        (if b ! i = 0 \<and> b ! (i + 1) = 0 \<and> b ! (i + 2) = 1 then i # start_codes b (i + 3) else start_codes b (i + 1))
      else [])"
  by auto
termination
  by (relation "measure (\<lambda>(b, i). length b - i)") auto

declare start_codes.simps [simp del]

fun nals_at :: "bytes \<Rightarrow> nat list \<Rightarrow> bytes list" where
  "nals_at b [] = []"
| "nals_at b (s # starts) =
     (let payload_start = s + 3;
          end' = (case starts of next # _ \<Rightarrow> if 0 < next \<and> b ! (next - 1) = 0 then next - 1 else next | [] \<Rightarrow> length b)
      in (if payload_start < end' then [drop payload_start (take end' b)] else []) @ nals_at b starts)"

definition iter_annexb_nals :: "bytes \<Rightarrow> bytes list" where
  "iter_annexb_nals b = nals_at b (start_codes b 0)"

definition nal_type :: "bytes \<Rightarrow> u8" where
  "nal_type nal = hd nal AND 0x1f"

definition annexb_to_avcc :: "bytes \<Rightarrow> bytes" where
  "annexb_to_avcc b =
     concat (map (\<lambda>nal. if nal = [] \<or> nal_type nal \<in> {7, 8, 9} then [] else be_of_nat 4 (length nal) @ nal)
       (iter_annexb_nals b))"

definition first_slice_nal :: "bytes \<Rightarrow> bytes option" where
  "first_slice_nal annexb = List.find (\<lambda>n. n \<noteq> [] \<and> nal_type n \<in> {1, 5}) (iter_annexb_nals annexb)"

subsection \<open>Reading a fragment\<close>

record frag_info =
  fi_independent :: bool
  fi_duration_ticks :: u64

definition be32_at :: "bytes \<Rightarrow> nat \<Rightarrow> u32" where
  "be32_at b p = of_nat (nat_of_be (take 4 (drop p b)))"

definition flags_at :: "bytes \<Rightarrow> u32" where
  "flags_at b = of_nat (nat_of_be (take 3 (drop 1 b)))"

function find_box :: "bytes \<Rightarrow> bytes \<Rightarrow> bytes option" where
  "find_box buf typ =
     (if length buf < 8 then None
      else
        (let size = unat (be32_at buf 0)
         in if size < 8 \<or> length buf < size then None
            else if take 4 (drop 4 buf) = typ then Some (drop 8 (take size buf))
            else find_box (drop size buf) typ))"
  by auto
termination
  by (relation "measure (\<lambda>(buf, _). length buf)") auto

declare find_box.simps [simp del]

text \<open>Whether a flag bit is set, and the defaults a track fragment header carries.\<close>

definition fl :: "u32 \<Rightarrow> u32 \<Rightarrow> bool" where
  "fl f m \<longleftrightarrow> f AND m \<noteq> 0"

definition tfhd_defaults :: "bytes option \<Rightarrow> u32 option \<times> u32 option" where
  "tfhd_defaults tfhd =
     (case tfhd of
        None \<Rightarrow> (None, None)
      | Some t \<Rightarrow>
          if length t < 4 then (None, None)
          else
            (let f = flags_at t;
                 p1 = 8 + (if fl f 1 then 8 else 0) + (if fl f 2 then 4 else 0);
                 default_dur = (if fl f 8 \<and> p1 + 4 \<le> length t then Some (be32_at t p1) else None);
                 p2 = p1 + (if fl f 8 then 4 else 0) + (if fl f 0x10 then 4 else 0);
                 default_flags = (if fl f 0x20 \<and> p2 + 4 \<le> length t then Some (be32_at t p2) else None)
             in (default_dur, default_flags)))"

definition rec_len :: "u32 \<Rightarrow> nat" where
  "rec_len f = 4 * (of_bool (fl f 0x100) + of_bool (fl f 0x200) + of_bool (fl f 0x400) + of_bool (fl f 0x800))"

fun sample_loop :: "bytes \<Rightarrow> u32 \<Rightarrow> u32 option \<Rightarrow> u32 option \<Rightarrow> nat \<Rightarrow> nat \<Rightarrow> nat \<Rightarrow> u64 \<times> u32 option \<Rightarrow> u64 \<times> u32 option" where
  "sample_loop trun f default_dur first_flags p 0 i acc = acc"
| "sample_loop trun f default_dur first_flags p (Suc k) i (ticks, leading) =
     (let base = p + i * rec_len f
      in if length trun < base + rec_len f then (ticks, leading)
         else
           (let dur = (if fl f 0x100 then be32_at trun base else case default_dur of Some d \<Rightarrow> d | None \<Rightarrow> 0);
                q = base + (if fl f 0x100 then 4 else 0) + (if fl f 0x200 then 4 else 0);
                leading' = (if fl f 0x400 \<and> i = 0 \<and> first_flags = None then Some (be32_at trun q) else leading)
            in sample_loop trun f default_dur first_flags p k (i + 1) (ticks + ucast dur, leading')))"

definition MAX_TRUN_SAMPLES :: u32 where "MAX_TRUN_SAMPLES = 8192"

definition trun_info :: "bytes \<Rightarrow> u32 option \<times> u32 option \<Rightarrow> frag_info option" where
  "trun_info trun defaults =
     (if length trun < 8 then None
      else
        (let f = flags_at trun;
             count = min (be32_at trun 4) MAX_TRUN_SAMPLES;
             p1 = 8 + (if fl f 1 then 4 else 0);
             first_flags = (if fl f 4 \<and> p1 + 4 \<le> length trun then Some (be32_at trun p1) else None);
             p2 = p1 + (if fl f 4 then 4 else 0);
             leading0 = (case first_flags of Some x \<Rightarrow> Some x | None \<Rightarrow> snd defaults);
             (ticks, leading) = sample_loop trun f (fst defaults) first_flags p2 (unat count) 0 (0, leading0)
         in Some \<lparr>fi_independent = (case leading of Some x \<Rightarrow> \<not> fl x 0x10000 | None \<Rightarrow> False), fi_duration_ticks = ticks\<rparr>))"

definition fragment_info :: "bytes \<Rightarrow> frag_info option" where
  "fragment_info fragment =
     (case find_box fragment (ascii ''moof'') of
        None \<Rightarrow> None
      | Some moof_body \<Rightarrow>
          (case find_box moof_body (ascii ''traf'') of
             None \<Rightarrow> None
           | Some traf_body \<Rightarrow>
               (case find_box traf_body (ascii ''trun'') of
                  None \<Rightarrow> None
                | Some trun \<Rightarrow> trun_info trun (tfhd_defaults (find_box traf_body (ascii ''tfhd''))))))"

definition fragment_is_independent :: "bytes \<Rightarrow> bool" where
  "fragment_is_independent fragment = (case fragment_info fragment of Some i \<Rightarrow> fi_independent i | None \<Rightarrow> False)"

end
