(* ===== verification/Hls.thy ===== *)
theory Hls
  imports Fmp4
begin

section \<open>The HLS server\<close>

text \<open>
  Models \<open>src/crates/hls-server/src/lib.rs\<close>: the window of parts the engine fills, the three
  playlists over it, and the handler of a request. A playlist is a list of lines and their
  rendering. \<open>f64\<close> values are reals and \<open>{:.3}\<close> rounds to the nearest thousandth. A request is
  answered on the state as of its lock; the waits of a blocking reload see the states at their
  wake-ups. The socket server itself is a library.
\<close>

subsection \<open>The window\<close>

definition MAX_LIVE_SEGMENTS :: nat where "MAX_LIVE_SEGMENTS = 12"
definition MAX_LIVE_PARTS :: nat where "MAX_LIVE_PARTS = 60"

record part =
  pt_bytes :: bytes
  pt_independent :: bool
  pt_dur_ticks :: u64
  pt_parent_msn :: u64
  pt_wall_ms :: u64

record shared =
  sh_init :: "bytes option"
  sh_parts :: "(u64, part) btree_map"
  sh_target_ms :: u32
  sh_ll :: bool
  sh_part_ms :: u32
  sh_next_parent_msn :: u64
  sh_cur_parent_msn :: u64
  sh_have_any :: bool

record hls_sink =
  hk_shared :: shared
  hk_play_head :: u64

definition hls_new :: "u32 \<Rightarrow> bool \<Rightarrow> u32 \<Rightarrow> hls_sink" where
  "hls_new target_ms ll part_ms =
     \<lparr>hk_shared = \<lparr>sh_init = None, sh_parts = [], sh_target_ms = target_ms, sh_ll = ll, sh_part_ms = part_ms,
        sh_next_parent_msn = 0, sh_cur_parent_msn = 0, sh_have_any = False\<rparr>,
      hk_play_head = 0\<rparr>"

definition hls_start :: "u32 \<Rightarrow> hls_sink" where
  "hls_start target_ms = hls_new target_ms False 0"

definition hls_start_ll :: "u32 \<Rightarrow> u32 \<Rightarrow> hls_sink" where
  "hls_start_ll target_ms part_ms = hls_new target_ms True (max part_ms 20)"

definition hls_configure :: "bool \<Rightarrow> u32 \<Rightarrow> u32 \<Rightarrow> shared \<Rightarrow> shared" where
  "hls_configure ll part_ms target_ms g =
     g\<lparr>sh_ll := ll, sh_part_ms := (if 0 < part_ms then part_ms else sh_part_ms g),
       sh_target_ms := (if 0 < target_ms then target_ms else sh_target_ms g)\<rparr>"

definition hls_reset :: "hls_sink \<Rightarrow> hls_sink" where
  "hls_reset k =
     k\<lparr>hk_shared := (hk_shared k)\<lparr>sh_init := None, sh_parts := [], sh_next_parent_msn := 0, sh_cur_parent_msn := 0,
         sh_have_any := False\<rparr>,
       hk_play_head := 0\<rparr>"

definition push_init :: "bytes \<Rightarrow> shared \<Rightarrow> shared" where
  "push_init b g = g\<lparr>sh_init := Some b\<rparr>"

text \<open>Whole parents are evicted, the one that holds the first part first; never the open one.\<close>

function evict_parents :: "nat \<Rightarrow> u64 \<Rightarrow> (u64, part) btree_map \<Rightarrow> (u64, part) btree_map" where
  "evict_parents cap cur parts =
     (if cap < length parts then
        (case parts of
           [] \<Rightarrow> parts
         | (_, oldest) # _ \<Rightarrow>
             if pt_parent_msn oldest = cur then parts
             else evict_parents cap cur (filter (\<lambda>(_, p). pt_parent_msn p \<noteq> pt_parent_msn oldest) parts))
      else parts)"
  by auto
termination
  by (relation "measure (\<lambda>(_, _, parts). length parts)") (auto simp: less_Suc_eq_le)

declare evict_parents.simps [simp del]

definition part_facts :: "bool \<Rightarrow> bytes \<Rightarrow> bool \<times> u64" where
  "part_facts ll b =
     (if ll then (case fragment_info b of Some i \<Rightarrow> (fi_independent i, fi_duration_ticks i) | None \<Rightarrow> (False, 0))
      else (True, 0))"

definition push_segment :: "u64 \<Rightarrow> u64 \<Rightarrow> bytes \<Rightarrow> shared \<Rightarrow> shared" where
  "push_segment wall_ms seq b g =
     (let (independent, dur_ticks) = part_facts (sh_ll g) b;
          opens = (\<not> sh_ll g \<or> \<not> sh_have_any g \<or> independent);
          cur = (if opens then sh_next_parent_msn g else sh_cur_parent_msn g);
          next' = (if opens then sh_next_parent_msn g + 1 else sh_next_parent_msn g);
          p = \<lparr>pt_bytes = b, pt_independent = independent, pt_dur_ticks = dur_ticks, pt_parent_msn = cur, pt_wall_ms = wall_ms\<rparr>;
          cap = (if sh_ll g then MAX_LIVE_PARTS else MAX_LIVE_SEGMENTS)
      in g\<lparr>sh_cur_parent_msn := cur, sh_next_parent_msn := next', sh_have_any := True,
           sh_parts := evict_parents cap cur (bt_put seq p (sh_parts g))\<rparr>)"

definition live_edge :: "(u64, part) btree_map \<Rightarrow> (u64 \<times> u64) option" where
  "live_edge parts =
     (if parts = [] then None
      else
        (let last' = snd (last parts);
             idx = of_nat (length (filter (\<lambda>(_, p). pt_parent_msn p = pt_parent_msn last') parts)) - 1
         in Some (pt_parent_msn last', idx)))"

subsection \<open>Dates\<close>

fun dec :: "nat \<Rightarrow> string" where
  "dec n = (if n < 10 then [char_of (48 + n)] else dec (n div 10) @ [char_of (48 + n mod 10)])"

declare dec.simps [simp del]

definition pad :: "nat \<Rightarrow> nat \<Rightarrow> string" where
  "pad w n = replicate (w - length (dec n)) CHR ''0'' @ dec n"

text \<open>The civil date of a day number, counted from 1970-01-01. The values are non-negative, so the
  Euclidean and the truncating divisions of the source agree.\<close>

definition civil :: "nat \<Rightarrow> nat \<times> nat \<times> nat" where
  "civil days =
     (let z = days + 719468;
          era = z div 146097;
          doe = z mod 146097;
          yoe = (doe - doe div 1460 + doe div 36524 - doe div 146096) div 365;
          y = yoe + era * 400;
          doy = doe - (365 * yoe + yoe div 4 - yoe div 100);
          mp = (5 * doy + 2) div 153;
          d = doy - (153 * mp + 2) div 5 + 1;
          m = (if mp < 10 then mp + 3 else mp - 9)
      in (if m \<le> 2 then y + 1 else y, m, d))"

definition rfc3339_utc :: "u64 \<Rightarrow> string" where
  "rfc3339_utc ms =
     (let secs = unat ms div 1000; msec = unat ms mod 1000;
          s = secs mod 86400;
          (y, m, d) = civil (secs div 86400);
          hh = s div 3600; r = s mod 3600
      in pad 4 y @ ''-'' @ pad 2 m @ ''-'' @ pad 2 d @ ''T'' @ pad 2 hh @ '':'' @ pad 2 (r div 60) @ '':'' @ pad 2 (r mod 60)
         @ ''.'' @ pad 3 msec @ ''Z'')"

subsection \<open>Playlists\<close>

datatype m3u_line =
    ExtM3u nat
  | TargetDuration nat
  | ServerControl real real
  | PartInf real
  | MediaSequence u64
  | MapInit
  | DateTime u64
  | PartTag real u64 bool
  | ExtInf real u64
  | PreloadHint u64

definition NL :: string where "NL = [CHR 0x0A]"

definition fixed3 :: "real \<Rightarrow> string" where
  "fixed3 x = (let n = nat (round (x * 1000)) in dec (n div 1000) @ ''.'' @ pad 3 (n mod 1000))"

fun render_line :: "m3u_line \<Rightarrow> string" where
  "render_line (ExtM3u v) = ''#EXTM3U'' @ NL @ ''#EXT-X-VERSION:'' @ dec v @ NL"
| "render_line (TargetDuration t) = ''#EXT-X-TARGETDURATION:'' @ dec t @ NL"
| "render_line (ServerControl part_hold hold) =
     ''#EXT-X-SERVER-CONTROL:CAN-BLOCK-RELOAD=YES,PART-HOLD-BACK='' @ fixed3 part_hold @ '',HOLD-BACK='' @ fixed3 hold @ NL"
| "render_line (PartInf t) = ''#EXT-X-PART-INF:PART-TARGET='' @ fixed3 t @ NL"
| "render_line (MediaSequence n) = ''#EXT-X-MEDIA-SEQUENCE:'' @ dec (unat n) @ NL"
| "render_line MapInit = ''#EXT-X-MAP:URI=\"init.mp4\"'' @ NL"
| "render_line (DateTime ms) = ''#EXT-X-PROGRAM-DATE-TIME:'' @ rfc3339_utc ms @ NL"
| "render_line (PartTag d seq indep) =
     ''#EXT-X-PART:DURATION='' @ fixed3 d @ '',URI=\"part/'' @ dec (unat seq) @ ''.m4s\"''
     @ (if indep then '',INDEPENDENT=YES'' else '''') @ NL"
| "render_line (ExtInf d n) = ''#EXTINF:'' @ fixed3 d @ '','' @ NL @ ''seg/'' @ dec (unat n) @ ''.m4s'' @ NL"
| "render_line (PreloadHint seq) = ''#EXT-X-PRELOAD-HINT:TYPE=PART,URI=\"part/'' @ dec (unat seq) @ ''.m4s\"'' @ NL"

definition render :: "m3u_line list \<Rightarrow> string" where
  "render ls = concat (map render_line ls)"

text \<open>A float cast to \<open>u32\<close> saturates.\<close>

definition f64_to_u32 :: "real \<Rightarrow> nat" where
  "f64_to_u32 x = min (nat \<lfloor>x\<rfloor>) (2 ^ 32 - 1)"

definition ms_to_s :: "u32 \<Rightarrow> real" where
  "ms_to_s ms = real (unat ms) / 1000"

definition ceil_s :: "real \<Rightarrow> real" where
  "ceil_s x = max (of_int \<lceil>x\<rceil>) 1"

definition standard_lines :: "u32 \<Rightarrow> (u64, part) btree_map \<Rightarrow> m3u_line list" where
  "standard_lines target_ms parts =
     [ExtM3u 7, TargetDuration (f64_to_u32 (ceil_s (ms_to_s target_ms))),
      MediaSequence (case parts of (seq, _) # _ \<Rightarrow> seq | [] \<Rightarrow> 0), MapInit]
     @ map (\<lambda>(seq, _). ExtInf (ms_to_s target_ms) seq) parts"

definition standard_playlist :: "u32 \<Rightarrow> (u64, part) btree_map \<Rightarrow> string" where
  "standard_playlist target_ms parts = render (standard_lines target_ms parts)"

definition ticks_to_s :: "u64 \<Rightarrow> real" where
  "ticks_to_s t = real (unat t) / real (unat TIMESCALE)"

definition part_nominal :: "shared \<Rightarrow> real" where
  "part_nominal g = ticks_to_s (ucast (sh_part_ms g) * ucast TIMESCALE div 1000)"

definition dur_of :: "shared \<Rightarrow> part \<Rightarrow> real" where
  "dur_of g p = (if 0 < pt_dur_ticks p then ticks_to_s (pt_dur_ticks p) else part_nominal g)"

text \<open>Runs of parts with the same parent, in the order of their sequence numbers.\<close>

definition group_push :: "u64 \<times> part \<Rightarrow> (u64 \<times> (u64 \<times> part) list) list \<Rightarrow> (u64 \<times> (u64 \<times> part) list) list" where
  "group_push sp parents =
     (if parents \<noteq> [] \<and> fst (last parents) = pt_parent_msn (snd sp)
      then butlast parents @ [(fst (last parents), snd (last parents) @ [sp])]
      else parents @ [(pt_parent_msn (snd sp), [sp])])"

definition group_parents :: "(u64, part) btree_map \<Rightarrow> (u64 \<times> (u64 \<times> part) list) list" where
  "group_parents parts = fold group_push parts []"

definition parent_dur :: "shared \<Rightarrow> (u64 \<times> part) list \<Rightarrow> real" where
  "parent_dur g ps = (\<Sum>(_, p)\<leftarrow>ps. dur_of g p)"

definition max_part :: "shared \<Rightarrow> real" where
  "max_part g = fold (\<lambda>(_, p) m. max m (dur_of g p)) (sh_parts g) (part_nominal g)"

definition max_parent :: "shared \<Rightarrow> real" where
  "max_parent g = fold (\<lambda>(_, ps) m. max m (parent_dur g ps)) (group_parents (sh_parts g)) 0"

definition date_line :: "(u64 \<times> part) list \<Rightarrow> m3u_line list" where
  "date_line ps = (case ps of (_, first) # _ \<Rightarrow> [DateTime (pt_wall_ms first)] | [] \<Rightarrow> [])"

definition parent_lines :: "shared \<Rightarrow> nat \<Rightarrow> nat \<times> u64 \<times> (u64 \<times> part) list \<Rightarrow> m3u_line list" where
  "parent_lines g last_parent = (\<lambda>(i, msn, ps).
     date_line ps @ map (\<lambda>(seq, p). PartTag (dur_of g p) seq (pt_independent p)) ps
     @ (if i \<noteq> last_parent then [ExtInf (parent_dur g ps) msn] else []))"

definition ll_lines :: "shared \<Rightarrow> m3u_line list" where
  "ll_lines g =
     (let parents = group_parents (sh_parts g);
          media_seq = (case sh_parts g of (_, p) # _ \<Rightarrow> pt_parent_msn p | [] \<Rightarrow> 0);
          next_seq = (if sh_parts g = [] then 0 else fst (last (sh_parts g)) + 1);
          part_hold = max (max_part g * 3) (part_nominal g * 3);
          target_s = ceil_s (max (max_parent g) (ms_to_s (sh_target_ms g)))
      in [ExtM3u 9, TargetDuration (f64_to_u32 target_s), ServerControl part_hold (max (target_s * 3) 3),
          PartInf (max_part g), MediaSequence media_seq, MapInit]
         @ concat (map (parent_lines g (length parents - 1)) (enumerate 0 parents))
         @ (if sh_parts g \<noteq> [] then [PreloadHint next_seq] else []))"

definition ll_playlist :: "shared \<Rightarrow> string" where
  "ll_playlist g = render (ll_lines g)"

definition std_lines :: "shared \<Rightarrow> m3u_line list" where
  "std_lines g =
     (let parents = butlast (group_parents (sh_parts g));
          target_s = ceil_s (fold (\<lambda>(_, ps) a. max a (parent_dur g ps)) parents (ms_to_s (sh_target_ms g)));
          media_seq = (case parents of (m, _) # _ \<Rightarrow> m | [] \<Rightarrow> 0)
      in [ExtM3u 7, TargetDuration (f64_to_u32 target_s), MediaSequence media_seq, MapInit]
         @ concat (map (\<lambda>(msn, ps). date_line ps @ [ExtInf (parent_dur g ps) msn]) parents))"

definition std_playlist :: "shared \<Rightarrow> string" where
  "std_playlist g = render (std_lines g)"

subsection \<open>Requests\<close>

text \<open>\<open>u64::from_str\<close>: an optional plus sign, then at least one digit, within range.\<close>

definition is_digit :: "char \<Rightarrow> bool" where
  "is_digit c \<longleftrightarrow> 48 \<le> (of_char c :: nat) \<and> (of_char c :: nat) \<le> 57"

definition digits_value :: "string \<Rightarrow> nat" where
  "digits_value s = foldl (\<lambda>n c. 10 * n + (of_char c - 48)) 0 s"

definition parse_u64 :: "string \<Rightarrow> u64 option" where
  "parse_u64 s =
     (let d = (if s \<noteq> [] \<and> hd s = CHR ''+'' then tl s else s)
      in if d \<noteq> [] \<and> list_all is_digit d \<and> digits_value d < 2 ^ 64 then Some (of_nat (digits_value d)) else None)"

fun split_on :: "char \<Rightarrow> string \<Rightarrow> string list" where
  "split_on c [] = [[]]"
| "split_on c (x # s) =
     (if x = c then [] # split_on c s
      else case split_on c s of p # ps \<Rightarrow> (x # p) # ps | [] \<Rightarrow> [[x]])"

definition split_once :: "char \<Rightarrow> string \<Rightarrow> (string \<times> string) option" where
  "split_once c s =
     (if c \<in> set s then Some (takeWhile (\<lambda>x. x \<noteq> c) s, tl (dropWhile (\<lambda>x. x \<noteq> c) s)) else None)"

definition query_pair :: "string \<Rightarrow> u64 option \<times> u64 \<Rightarrow> u64 option \<times> u64" where
  "query_pair kv = (\<lambda>(msn, part).
     case split_once CHR ''='' kv of
       Some (k, v) \<Rightarrow>
         if k = ''_HLS_msn'' then (parse_u64 v, part)
         else if k = ''_HLS_part'' then (msn, case parse_u64 v of Some n \<Rightarrow> n | None \<Rightarrow> 0)
         else (msn, part)
     | None \<Rightarrow> (msn, part))"

definition blocking_target :: "string \<Rightarrow> (u64 \<times> u64) option" where
  "blocking_target raw =
     (case split_on CHR ''?'' raw of
        _ # q # _ \<Rightarrow>
          (case fold query_pair (split_on CHR ''&'' q) (None, 0) of (msn, part) \<Rightarrow> map_option (\<lambda>m. (m, part)) msn)
      | _ \<Rightarrow> None)"

definition edge_ready :: "u64 \<times> u64 \<Rightarrow> shared \<Rightarrow> bool" where
  "edge_ready want g =
     (case live_edge (sh_parts g) of
        Some (m, p) \<Rightarrow> fst want < m \<or> m = fst want \<and> snd want \<le> p
      | None \<Rightarrow> False)"

text \<open>Each wake-up of the waiting thread comes with the state then and whether the wait timed out;
  \<open>None\<close> is a thread that is still waiting.\<close>

fun wait_ready :: "u64 \<times> u64 \<Rightarrow> shared \<Rightarrow> (shared \<times> bool) list \<Rightarrow> shared option" where
  "wait_ready want g [] = (if edge_ready want g then Some g else None)"
| "wait_ready want g ((g', timed_out) # wakes) =
     (if edge_ready want g then Some g
      else if timed_out then Some g'
      else wait_ready want g' wakes)"

definition strip_media :: "string \<Rightarrow> string \<Rightarrow> u64 option" where
  "strip_media prefix url =
     (if take (length prefix) url = prefix then
        (let s = drop (length prefix) url
         in if 4 \<le> length s \<and> drop (length s - 4) s = ''.m4s'' then parse_u64 (take (length s - 4) s) else None)
      else None)"

datatype payload = Playlist string | Media bytes | Missing

definition media_part :: "u64 \<Rightarrow> shared \<Rightarrow> u64 \<Rightarrow> payload \<times> u64" where
  "media_part seq g head' =
     (case map_of (sh_parts g) seq of Some p \<Rightarrow> (Media (pt_bytes p), seq) | None \<Rightarrow> (Missing, head'))"

definition members :: "u64 \<Rightarrow> shared \<Rightarrow> (u64 \<times> part) list" where
  "members n g = filter (\<lambda>(_, p). pt_parent_msn p = n) (sh_parts g)"

definition media_seg :: "u64 \<Rightarrow> shared \<Rightarrow> u64 \<Rightarrow> payload \<times> u64" where
  "media_seg n g head' =
     (if sh_ll g then
        (if members n g = [] then (Missing, head')
         else (Media (concat (map (\<lambda>(_, p). pt_bytes p) (members n g))), Max (set (map fst (members n g)))))
      else media_part n g head')"

definition hls_handle :: "bool \<Rightarrow> string \<Rightarrow> (shared \<times> bool) list \<Rightarrow> shared \<Rightarrow> u64 \<Rightarrow> (payload option \<times> u64) option" where
  "hls_handle is_options raw wakes g head' =
     (if is_options then Some (None, head')
      else
        (let url = hd (split_on CHR ''?'' raw)
         in if url = ''/live.m3u8'' then
              map_option (\<lambda>g. (Some (Playlist (if sh_ll g then ll_playlist g else standard_playlist (sh_target_ms g) (sh_parts g))), head'))
                (case (sh_ll g, blocking_target raw) of
                   (True, Some want) \<Rightarrow> wait_ready want g wakes
                 | _ \<Rightarrow> Some g)
            else if url = ''/std.m3u8'' then
              Some (Some (Playlist (if sh_ll g then std_playlist g else standard_playlist (sh_target_ms g) (sh_parts g))), head')
            else if url = ''/init.mp4'' then
              Some (Some (case sh_init g of Some b \<Rightarrow> Media b | None \<Rightarrow> Missing), head')
            else
              (case strip_media ''/part/'' url of
                 Some seq \<Rightarrow> Some (apfst Some (media_part seq g head'))
               | None \<Rightarrow>
                   (case strip_media ''/seg/'' url of
                      Some n \<Rightarrow> Some (apfst Some (media_seg n g head'))
                    | None \<Rightarrow> Some (Some Missing, head')))))"

end
