(* ===== verification/Hls_Date.thy ===== *)
theory Hls_Date
  imports Hls
begin

section \<open>The dates of the playlists\<close>

text \<open>
  The closed-form date computation of \<open>rfc3339_utc\<close> agrees with the calendar walked day by day.
  A year is taken to start in March; one era of 400 such years is checked year by year and the
  days of a year day by day.
\<close>

definition leap :: "nat \<Rightarrow> bool" where
  "leap y \<longleftrightarrow> y mod 4 = 0 \<and> (y mod 100 \<noteq> 0 \<or> y mod 400 = 0)"

definition month_days :: "nat \<Rightarrow> nat \<Rightarrow> nat" where
  "month_days y m = (if m = 2 then (if leap y then 29 else 28) else if m \<in> {4, 6, 9, 11} then 30 else 31)"

fun next_day :: "nat \<times> nat \<times> nat \<Rightarrow> nat \<times> nat \<times> nat" where
  "next_day (y, m, d) =
     (if d < month_days y m then (y, m, d + 1)
      else if m < 12 then (y, m + 1, 1)
      else (y + 1, 1, 1))"

subsection \<open>Years of an era\<close>

definition yoe_of :: "nat \<Rightarrow> nat" where
  "yoe_of doe = (doe - doe div 1460 + doe div 36524 - doe div 146096) div 365"

definition year_start :: "nat \<Rightarrow> nat" where
  "year_start y = 365 * y + y div 4 - y div 100 + y div 400"

lemma era_starts: "list_all (\<lambda>y. yoe_of (year_start y) = y) [2..<401]"
  by (simp add: yoe_of_def year_start_def)

lemma era_ends: "list_all (\<lambda>y. yoe_of (year_start y - 1) = y - 1) [2..<401]"
  by (simp add: yoe_of_def year_start_def)

lemma year_length: "year_start (y + 1) = year_start y + (if leap (y + 1) then 366 else 365)"
proof -
  have a: "(y + 1) mod 4 = 0" if "(y + 1) mod 100 = 0" using that by presburger
  have b: "(y + 1) mod 100 = 0" if "(y + 1) mod 400 = 0" using that by presburger
  have c: "y div 100 \<le> y div 4" by (rule div_le_mono2) simp_all
  show ?thesis using a b c by (auto simp: year_start_def leap_def div_Suc add_ac)
qed

lemma era_year:
  assumes "y < 400"
  shows "yoe_of (year_start y) = y" "yoe_of (year_start (y + 1) - 1) = y"
proof -
  have "yoe_of (year_start k) = k" "yoe_of (year_start k - 1) = k - 1" if "2 \<le> k" "k \<le> 400" for k
    using era_starts era_ends that unfolding list_all_iff set_upt by auto
  moreover have "yoe_of (year_start 0) = 0" "yoe_of (year_start 1) = 1" "yoe_of (year_start 1 - 1) = 0"
    by (simp_all add: yoe_of_def year_start_def)
  ultimately have all: "yoe_of (year_start k) = k" "0 < k \<Longrightarrow> yoe_of (year_start k - 1) = k - 1" if "k \<le> 400" for k
    using that by (cases "k = 0"; cases "k = 1"; simp)+
  show "yoe_of (year_start y) = y" "yoe_of (year_start (y + 1) - 1) = y"
    using all(1) [of y] all(2) [of "y + 1"] assms by simp_all
qed

lemma yoe_mono: "a \<le> b \<Longrightarrow> yoe_of a \<le> yoe_of b"
proof -
  assume "a \<le> b"
  have step: "n - n div 1460 + n div 36524 - n div 146096 \<le> Suc n - Suc n div 1460 + Suc n div 36524 - Suc n div 146096" for n :: nat
  proof -
    have q: "m div 146096 = m div 36524 div 4" for m :: nat by (simp add: div_mult2_eq [symmetric])
    have "n - n div 1460 \<le> Suc n - Suc n div 1460" by (auto simp: div_Suc)
    moreover have "i - i div 4 \<le> j - j div 4" if "i \<le> j" for i j :: nat
      using that by (induction rule: dec_induct) (auto simp: div_Suc)
    then have "n div 36524 - n div 36524 div 4 \<le> Suc n div 36524 - Suc n div 36524 div 4"
      by (simp add: div_le_mono)
    moreover have "m div 36524 div 4 \<le> m div 36524" for m :: nat by simp
    ultimately show ?thesis unfolding q by (metis Nat.add_diff_assoc add_mono)
  qed
  have "a - a div 1460 + a div 36524 - a div 146096 \<le> b - b div 1460 + b div 36524 - b div 146096"
    using \<open>a \<le> b\<close> by (induction rule: dec_induct) (use step order_trans in blast)+
  then show ?thesis unfolding yoe_of_def by (rule div_le_mono)
qed

lemma in_some_year: "n < year_start k \<Longrightarrow> \<exists>y < k. year_start y \<le> n \<and> n < year_start (y + 1)"
proof (induction k)
  case (Suc k)
  show ?case
  proof (cases "n < year_start k")
    case False
    then show ?thesis using Suc.prems by (intro exI [of _ k]) simp
  qed (use Suc.IH less_SucI in blast)
qed (simp add: year_start_def)

lemma yoe_exact: "y < 400 \<Longrightarrow> year_start y \<le> doe \<Longrightarrow> doe < year_start (y + 1) \<Longrightarrow> yoe_of doe = y"
  using yoe_mono [of "year_start y" doe] yoe_mono [of doe "year_start (y + 1) - 1"] era_year [of y] by simp

subsection \<open>Days of a year\<close>

definition month_day :: "nat \<Rightarrow> nat \<times> nat" where
  "month_day doy =
     (let mp = (5 * doy + 2) div 153 in (if mp < 10 then mp + 3 else mp - 9, doy - (153 * mp + 2) div 5 + 1))"

definition cal :: "nat \<Rightarrow> nat \<Rightarrow> nat \<times> nat \<times> nat" where
  "cal y doy = (case month_day doy of (m, d) \<Rightarrow> (if m \<le> 2 then y + 1 else y, m, d))"

definition day_ok :: "nat \<Rightarrow> bool" where
  "day_ok doy = (case (month_day doy, month_day (doy + 1)) of ((m, d), (m', d')) \<Rightarrow>
      (m = 2 \<longrightarrow> doy = 336 + d \<and> m' = 2 \<and> d' = d + 1)
      \<and> (m \<noteq> 2 \<longrightarrow> (if d < month_days 1 m then m' = m \<and> d' = d + 1
                    else d' = 1 \<and> m' = (if m < 12 then m + 1 else 1))))"

lemma year_days: "list_all day_ok [2..<365]"
  by (simp add: day_ok_def month_day_def month_days_def)

lemma year_day: "doy < 365 \<Longrightarrow> day_ok doy"
proof -
  assume "doy < 365"
  moreover have "day_ok 0" "day_ok 1" by (simp_all add: day_ok_def month_day_def month_days_def)
  ultimately show ?thesis using year_days unfolding list_all_iff set_upt by (cases "doy < 2") (auto simp: less_2_cases_iff)
qed

lemma month_days_other: "m \<noteq> 2 \<Longrightarrow> month_days y m = month_days 1 m"
  by (simp add: month_days_def)

lemma cal_step:
  assumes "doy + 1 < (if leap (y + 1) then 366 else 365)"
  shows "next_day (cal y doy) = cal y (doy + 1)"
proof -
  obtain m d m' d' where md: "month_day doy = (m, d)" "month_day (doy + 1) = (m', d')" by fastforce
  have doy: "doy < 365" using assms by (simp split: if_splits)
  then have c: "m = 2 \<longrightarrow> doy = 336 + d \<and> m' = 2 \<and> d' = d + 1"
    "m \<noteq> 2 \<longrightarrow> (if d < month_days 1 m then m' = m \<and> d' = d + 1 else d' = 1 \<and> m' = (if m < 12 then m + 1 else 1))"
    using year_day [OF doy] unfolding day_ok_def md prod.case by blast+
  show ?thesis
  proof (cases "m = 2")
    case True
    then have "d < month_days (y + 1) 2" using c(1) assms by (simp add: month_days_def split: if_splits)
    then show ?thesis using True c(1) unfolding cal_def md prod.case by simp
  next
    case False
    have len: "month_days (if m \<le> 2 then y + 1 else y) m = month_days 1 m" by (rule month_days_other [OF False])
    consider (day) "d < month_days 1 m" "m' = m" "d' = d + 1"
      | (month) "\<not> d < month_days 1 m" "m < 12" "m' = m + 1" "d' = 1"
      | (year) "\<not> d < month_days 1 m" "\<not> m < 12" "m' = 1" "d' = 1"
      using c(2) False by argo
    then show ?thesis unfolding cal_def md prod.case next_day.simps len using False by cases auto
  qed
qed

lemma cal_new_year:
  assumes "doy + 1 = (if leap (y + 1) then 366 else 365)"
  shows "next_day (cal y doy) = cal (y + 1) 0"
proof (cases "leap (y + 1)")
  case True
  then have "doy = 365" using assms by simp
  then show ?thesis using True by (simp add: cal_def month_day_def month_days_def)
next
  case False
  then have "doy = 364" using assms by simp
  then show ?thesis using False by (simp add: cal_def month_day_def month_days_def)
qed

subsection \<open>The calendar\<close>

lemma civil_cal:
  assumes "n + 719468 = 146097 * era + year_start y + doy" "y < 400" "year_start y + doy < year_start (y + 1)"
  shows "civil n = cal (400 * era + y) doy"
proof -
  have "year_start a \<le> year_start b" if "a \<le> b" for a b
    using that by (induction rule: dec_induct) (auto simp: year_length [unfolded Suc_eq_plus1 [symmetric]] intro: order_trans)
  then have "year_start (y + 1) \<le> year_start 400" using assms(2) by simp
  then have small: "year_start y + doy < 146097" using assms(3) by (simp add: year_start_def [of 400])
  have era: "(n + 719468) div 146097 = era" "(n + 719468) mod 146097 = year_start y + doy"
    using small unfolding assms(1) add.assoc [of "146097 * era"] by simp_all
  have y: "yoe_of (year_start y + doy) = y" using assms(2,3) by (intro yoe_exact) simp_all
  have s: "365 * y + y div 4 - y div 100 = year_start y" using assms(2) by (simp add: year_start_def)
  show ?thesis
    unfolding civil_def Let_def era yoe_of_def [symmetric] y s
    by (simp add: cal_def month_day_def Let_def add.commute mult.commute)
qed

lemma civil_split: "\<exists>era y doy. n + 719468 = 146097 * era + year_start y + doy \<and> y < 400 \<and> year_start y + doy < year_start (y + 1)"
proof -
  obtain y where "y < 400" "year_start y \<le> (n + 719468) mod 146097" "(n + 719468) mod 146097 < year_start (y + 1)"
    using in_some_year [of "(n + 719468) mod 146097" 400] by (auto simp: year_start_def [of 400])
  then show ?thesis
    by (intro exI [of _ "(n + 719468) div 146097"] exI [of _ y] exI [of _ "(n + 719468) mod 146097 - year_start y"]) simp
qed

lemma leap_era: "leap (400 * e + y) \<longleftrightarrow> leap y"
proof -
  have "(400 * e + y) mod 4 = y mod 4" "(400 * e + y) mod 100 = y mod 100"
    using mod_mult_self2 [of y 4 "100 * e"] mod_mult_self2 [of y 100 "4 * e"] by (simp_all add: algebra_simps)
  then show ?thesis by (simp add: leap_def)
qed

lemma civil_Suc: "civil (Suc n) = next_day (civil n)"
proof -
  obtain era y doy where n: "n + 719468 = 146097 * era + year_start y + doy" "y < 400" "year_start y + doy < year_start (y + 1)"
    using civil_split by blast
  have c: "civil n = cal (400 * era + y) doy" by (rule civil_cal [OF n])
  have len: "year_start (y + 1) = year_start y + (if leap (400 * era + y + 1) then 366 else 365)"
    using year_length [of y] leap_era [of era "y + 1"] by (simp add: add.assoc)
  consider (same) "year_start y + (doy + 1) < year_start (y + 1)" | (year) "year_start y + (doy + 1) = year_start (y + 1)" using n(3) by linarith
  then show ?thesis
  proof cases
    case same
    have "civil (Suc n) = cal (400 * era + y) (doy + 1)" using n same by (intro civil_cal) simp_all
    also have "\<dots> = next_day (cal (400 * era + y) doy)" using same len by (intro cal_step [symmetric]) simp
    finally show ?thesis by (simp add: c)
  next
    case year
    have "next_day (cal (400 * era + y) doy) = cal (400 * era + y + 1) 0" using year len by (intro cal_new_year) simp
    moreover have "civil (Suc n) = cal (400 * era + y + 1) 0"
    proof (cases "y + 1 < 400")
      case True
      then show ?thesis using n year year_length [of "y + 1"] civil_cal [of "Suc n" era "y + 1" 0] by simp
    next
      case False
      then have y: "y = 399" using n(2) by simp
      then have "Suc n + 719468 = 146097 * (era + 1) + year_start 0 + 0" using n(1) year by (simp add: year_start_def)
      then show ?thesis using civil_cal [of "Suc n" "era + 1" 0 0] y by (simp add: year_start_def add.commute)
    qed
    ultimately show ?thesis by (simp add: c)
  qed
qed

text \<open>
  C25: The date printed in a playlist is the date: the closed-form computation from a day number
  equals walking the Gregorian calendar, with its leap years, one day at a time from the first
  of January 1970, for every day number.
\<close>

theorem civil_is_calendar: "civil n = (next_day ^^ n) (1970, 1, 1)"
proof (induction n)
  case 0
  have "civil 0 = cal (400 * 4 + 369) 306" by (rule civil_cal) (simp_all add: year_start_def)
  then show ?case by (simp add: cal_def month_day_def)
next
  case (Suc n)
  then show ?case by (simp add: civil_Suc)
qed

end
