(* ===== verification/Fmp4_Props.thy ===== *)
theory Fmp4_Props
  imports Fmp4
begin

section \<open>What the muxer writes is what a demuxer reads\<close>

text \<open>
  The layout of a media fragment: the patched fragment header is the one that would have been
  built with the final data offsets, the playlist server's parser finds exactly the first
  sample's independence and the total duration, and a demuxer that follows the sample tables
  cuts exactly the samples out of the media data. The timing derived from presentation times
  reproduces them.
\<close>

subsection \<open>Boxes\<close>

lemma length_box_type [simp]: "length (ascii s) = length s"
  by (simp add: ascii_def)

lemma length_bx [simp]: "length (bx t b) = 4 + length t + length b"
  by (simp add: bx_def)

lemma length_full_bx [simp]: "length (full_bx t v f b) = 8 + length t + length b"
  by (simp add: full_bx_def)

lemma be32_at_take_drop: "be32_at (a @ be_of_nat 4 n @ c) (length a) = of_nat n"
proof -
  have "(of_nat (n mod 256 ^ 4) :: u32) = of_nat n"
    by (rule word_unat_eq_iff [THEN iffD2]) (simp add: unat_of_nat)
  then show ?thesis by (simp add: be32_at_def nat_of_be_of_nat)
qed

lemma be32_at_word: "be32_at (a @ be32 w @ c) (length a) = w"
  using be32_at_take_drop [of a "unat w" c] by simp

lemma be32_at_0: "be32_at (be_of_nat 4 n @ c) 0 = of_nat n"
  using be32_at_take_drop [of "[]" n c] by simp

lemma be32_at_drop: "be32_at b (k + p) = be32_at (drop k b) p"
  by (simp add: be32_at_def add.commute)

lemma find_box_hit:
  assumes "length t = 4" "8 + length b < 2 ^ 32"
  shows "find_box (bx t b @ rest) t = Some b"
proof -
  have "unat (be32_at (bx t b @ rest) 0) = 8 + length b"
    using assms(2) by (simp add: bx_def be32_at_0 unat_of_nat del: of_nat_add)
  with assms show ?thesis by (subst find_box.simps) (simp add: bx_def)
qed

lemma find_box_skip:
  assumes "length t = 4" "t \<noteq> t'" "8 + length b < 2 ^ 32"
  shows "find_box (bx t b @ rest) t' = find_box rest t'"
proof -
  have "unat (be32_at (bx t b @ rest) 0) = 8 + length b"
    using assms(3) by (simp add: bx_def be32_at_0 unat_of_nat del: of_nat_add)
  with assms show ?thesis by (subst find_box.simps) (simp add: bx_def)
qed

lemmas find_box_rules = find_box_hit find_box_hit [where rest = "[]", simplified]
  find_box_skip find_box_skip [where rest = "[]", simplified]

subsection \<open>The patched fragment header\<close>

text \<open>A track fragment whose run starts at a given data offset.\<close>

definition traf_head :: "u32 \<Rightarrow> u64 \<Rightarrow> bytes" where
  "traf_head track bdt = full_bx (ascii ''tfhd'') 0 0x20000 (be32 track) @ full_bx (ascii ''tfdt'') 1 0 (be64 bdt)"

definition traf_at :: "u32 \<Rightarrow> u32 \<Rightarrow> u64 \<Rightarrow> nat \<Rightarrow> bytes \<Rightarrow> u32 \<Rightarrow> bytes" where
  "traf_at track f bdt n samples off =
     bx (ascii ''traf'') (traf_head track bdt @ full_bx (ascii ''trun'') 0 f (be_of_nat 4 n @ be32 off @ samples))"

abbreviation video_traf_at :: "u64 \<Rightarrow> au list \<Rightarrow> u32 \<Rightarrow> bytes" where
  "video_traf_at bdt aus \<equiv> traf_at VIDEO_TRACK_ID 0xf01 bdt (length aus) (concat (map video_sample aus))"

abbreviation audio_traf_at :: "u64 \<Rightarrow> audio_frame list \<Rightarrow> u32 \<Rightarrow> bytes" where
  "audio_traf_at bdt frames \<equiv> traf_at AUDIO_TRACK_ID 0x301 bdt (length frames) (concat (map audio_sample frames))"

lemma length_traf_head [simp]: "length (traf_head track bdt) = 36"
  by (simp add: traf_head_def)

lemma length_traf_at [simp]: "length (traf_at track f bdt n samples off) = 64 + length samples"
  by (simp add: traf_at_def)

lemma traf_is_at: "traf bdt aus = (video_traf_at bdt aus 0, 60)"
  by (simp add: traf_def traf_at_def traf_head_def)

lemma audio_traf_is_at: "audio_traf bdt frames = (audio_traf_at bdt frames 0, 60)"
  by (simp add: audio_traf_def traf_at_def traf_head_def)

lemma traf_at_split:
  "\<exists>pre. length pre = 60 \<and> (\<forall>off. traf_at track f bdt n samples off = pre @ be32 off @ samples)"
  by (rule exI [of _ "be_of_nat 4 (64 + length samples) @ ascii ''traf'' @ traf_head track bdt
        @ be_of_nat 4 (20 + length samples) @ ascii ''trun'' @ 0 # drop 1 (be32 f) @ be_of_nat 4 n"])
     (simp add: traf_at_def bx_def full_bx_def)

lemma patch_at:
  "length a = pos \<Longrightarrow> length old = length new \<Longrightarrow> patch pos new (a @ old @ c) = a @ new @ c"
  by (simp add: patch_def)

lemma patch_traf:
  "length a + 60 = pos \<Longrightarrow>
   patch pos (be32 off') (a @ traf_at track f bdt n samples off @ c) = a @ traf_at track f bdt n samples off' @ c"
proof -
  assume pos: "length a + 60 = pos"
  obtain pre where pre: "length pre = 60" "\<And>off. traf_at track f bdt n samples off = pre @ be32 off @ samples"
    using traf_at_split by meson
  show ?thesis using pos pre patch_at [of "a @ pre" pos "be32 off" "be32 off'" "samples @ c"] by simp
qed

definition moof_size :: "au list \<Rightarrow> (audio_frame list \<times> u64) option \<Rightarrow> nat" where
  "moof_size aus audio = 88 + 16 * length aus + (case audio of Some (fs, _) \<Rightarrow> 64 + 8 * length fs | None \<Rightarrow> 0)"

definition video_bytes :: "au list \<Rightarrow> nat" where
  "video_bytes aus = length (concat (map au_avcc aus))"

definition video_offset :: "au list \<Rightarrow> (audio_frame list \<times> u64) option \<Rightarrow> u32" where
  "video_offset aus audio = of_nat (moof_size aus audio + 8)"

definition audio_offset :: "au list \<Rightarrow> (audio_frame list \<times> u64) option \<Rightarrow> u32" where
  "audio_offset aus audio = of_nat (moof_size aus audio + 8 + video_bytes aus)"

lemma length_video_samples [simp]: "length (concat (map video_sample aus)) = 16 * length aus"
  by (induction aus) (simp_all add: video_sample_def)

lemma length_audio_samples [simp]: "length (concat (map audio_sample frames)) = 8 * length frames"
  by (induction frames) (simp_all add: audio_sample_def)

lemma moof_layout:
  "moof seq bdt aus audio =
     bx (ascii ''moof'') (full_bx (ascii ''mfhd'') 0 0 (be32 (ucast seq + 1))
       @ video_traf_at bdt aus (video_offset aus audio)
       @ (case audio of Some (fs, abdt) \<Rightarrow> audio_traf_at abdt fs (audio_offset aus audio) | None \<Rightarrow> []))"
proof -
  define mfhd where "mfhd = full_bx (ascii ''mfhd'') 0 0 (be32 (ucast seq + 1))"
  define hd' where "hd' = be_of_nat 4 (moof_size aus audio) @ ascii ''moof'' @ mfhd"
  have lens: "length mfhd = 16" "length hd' = 24" by (simp_all add: hd'_def mfhd_def)
  have vb: "(\<Sum>a\<leftarrow>aus. length (au_avcc a)) = video_bytes aus"
    by (simp add: video_bytes_def length_concat comp_def)
  show ?thesis
  proof (cases audio)
    case None
    have boxed: "bx (ascii ''moof'') (mfhd @ video_traf_at bdt aus off) = hd' @ video_traf_at bdt aus off @ []" for off
      by (simp add: bx_def hd'_def moof_size_def None lens)
    have "moof seq bdt aus audio = patch (8 + length mfhd + 60)
        (be32 (of_nat (length (hd' @ video_traf_at bdt aus 0 @ [])) + 8)) (hd' @ video_traf_at bdt aus 0 @ [])"
      unfolding moof_def Let_def traf_is_at mfhd_def [symmetric] None option.map option.case prod.case append_Nil2 concat.simps append.simps
      using boxed [of 0] by simp
    also have "(of_nat (length (hd' @ video_traf_at bdt aus 0 @ [])) + 8 :: u32) = video_offset aus audio"
      by (simp add: lens video_offset_def moof_size_def None)
    also have "patch (8 + length mfhd + 60) (be32 (video_offset aus audio)) (hd' @ video_traf_at bdt aus 0 @ [])
        = hd' @ video_traf_at bdt aus (video_offset aus audio) @ []"
      by (rule patch_traf) (simp add: lens)
    finally show ?thesis by (simp add: boxed None mfhd_def [symmetric])
  next
    case (Some fa)
    obtain fs abdt where fa: "fa = (fs, abdt)" by fastforce
    define V where "V = video_traf_at bdt aus"
    define A where "A = audio_traf_at abdt fs"
    have lV: "length (V off) = 64 + 16 * length aus" for off by (simp add: V_def)
    have lA: "length (A off) = 64 + 8 * length fs" for off by (simp add: A_def)
    have boxed: "bx (ascii ''moof'') (mfhd @ V off @ A off') = hd' @ V off @ A off'" for off off'
      by (simp add: bx_def hd'_def moof_size_def Some fa lens lV lA)
    have voff: "(of_nat (length (hd' @ V 0 @ A 0)) + 8 :: u32) = video_offset aus audio"
      by (simp add: lens lV lA video_offset_def moof_size_def Some fa)
    have aoff: "video_offset aus audio + of_nat (video_bytes aus) = audio_offset aus audio"
      by (simp add: audio_offset_def video_offset_def)
    have 1: "patch (8 + length mfhd + 60) (be32 (video_offset aus audio)) (hd' @ V 0 @ A 0)
        = hd' @ V (video_offset aus audio) @ A 0"
      unfolding V_def by (rule patch_traf) (simp add: lens)
    have 2: "patch (8 + length mfhd + length (V 0) + 60) (be32 (audio_offset aus audio))
        ((hd' @ V (video_offset aus audio)) @ A 0 @ [])
        = (hd' @ V (video_offset aus audio)) @ A (audio_offset aus audio) @ []"
      unfolding A_def by (rule patch_traf) (simp add: lens lV)
    have 3: "concat ([mfhd, V 0] @ [A 0]) = mfhd @ V 0 @ A 0" by simp
    have "moof seq bdt aus audio = patch (8 + length mfhd + length (V 0) + 60)
       (be32 (video_offset aus audio + of_nat (video_bytes aus)))
       (patch (8 + length mfhd + 60) (be32 (video_offset aus audio)) (hd' @ V 0 @ A 0))"
      unfolding moof_def Let_def traf_is_at audio_traf_is_at mfhd_def [symmetric] Some fa option.map prod.case option.case
        vb V_def [symmetric] A_def [symmetric] 3 boxed
      by (simp only: voff fa Some)
    also have "\<dots> = hd' @ V (video_offset aus audio) @ A (audio_offset aus audio)"
      using 2 unfolding 1 aoff by simp
    finally show ?thesis by (simp add: boxed Some fa mfhd_def [symmetric] V_def [symmetric] A_def [symmetric])
  qed
qed

subsection \<open>Placing a fragment in a playlist\<close>

lemma fl_bits [simp]:
  "fl 0xf01 1" "\<not> fl 0xf01 4" "fl 0xf01 0x100" "fl 0xf01 0x200" "fl 0xf01 0x400" "fl 0xf01 0x800" "rec_len 0xf01 = 16"
  "\<not> fl 0x20000 1" "\<not> fl 0x20000 2" "\<not> fl 0x20000 8" "\<not> fl 0x20000 0x10" "\<not> fl 0x20000 0x20"
  "\<not> fl 0x2000000 0x10000" "fl 0x1010000 0x10000"
  by (simp_all add: fl_def rec_len_def)

lemma take_le_of_nat: "m \<le> n \<Longrightarrow> take m (le_of_nat n k) = le_of_nat m k"
proof (induction m arbitrary: n k)
  case (Suc m)
  then show ?case by (cases n) simp_all
qed simp

lemma flags_at_full: "unat f < 2 ^ 24 \<Longrightarrow> flags_at (v # drop 1 (be32 f) @ b) = f"
proof -
  assume small: "unat f < 2 ^ 24"
  have "drop 1 (be32 f) = be_of_nat 3 (unat f)"
    using take_le_of_nat [of 3 4 "unat f"] by (simp add: be_of_nat_def drop_rev)
  with small show ?thesis by (simp add: flags_at_def nat_of_be_of_nat)
qed

lemma sample_loop_video:
  assumes "length pre = 12 + 16 * i"
  shows "sample_loop (pre @ concat (map video_sample aus)) 0xf01 dd None 12 (length aus) i (ticks, lead) =
     (ticks + (\<Sum>a\<leftarrow>aus. ucast (au_duration a)), if i = 0 \<and> aus \<noteq> [] then Some (sample_flags (hd aus)) else lead)"
  using assms
proof (induction aus arbitrary: pre i ticks lead)
  case Nil
  then show ?case by simp
next
  case (Cons a aus)
  let ?rest = "concat (map video_sample aus)"
  have dur: "be32_at (pre @ video_sample a @ ?rest) (12 + i * 16) = au_duration a"
    using be32_at_word [of pre "au_duration a"] Cons.prems by (simp add: video_sample_def mult.commute)
  have flags: "be32_at (pre @ video_sample a @ ?rest) (12 + i * 16 + 4 + 4) = sample_flags a"
    using be32_at_word [of "pre @ be32 (au_duration a) @ be_of_nat 4 (length (au_avcc a))" "sample_flags a"] Cons.prems
    by (simp add: video_sample_def algebra_simps)
  have len: "length (video_sample a) = 16" by (simp add: video_sample_def)
  have "length (pre @ video_sample a) = 12 + 16 * (i + 1)" using Cons.prems len by simp
  from Cons.IH [OF this] show ?case using dur flags len Cons.prems
    by (cases "i = 0") (simp_all add: Let_def add_ac)
qed

lemma trun_info_video:
  assumes "length aus \<le> 8192" "aus \<noteq> []"
  shows "trun_info (0 # drop 1 (be32 0xf01) @ be_of_nat 4 (length aus) @ be32 off @ concat (map video_sample aus)) (None, None) =
    Some \<lparr>fi_independent = au_keyframe (hd aus), fi_duration_ticks = (\<Sum>a\<leftarrow>aus. ucast (au_duration a))\<rparr>"
proof -
  let ?trun = "0 # drop 1 (be32 0xf01) @ be_of_nat 4 (length aus) @ be32 off @ concat (map video_sample aus)"
  have f: "flags_at ?trun = 0xf01" by (rule flags_at_full) simp
  have "be32_at ((0 # drop 1 (be32 0xf01)) @ be_of_nat 4 (length aus) @ be32 off @ concat (map video_sample aus))
     (length (0 # drop 1 (be32 0xf01))) = of_nat (length aus)"
    by (rule be32_at_take_drop)
  then have cnt: "unat (min (be32_at ?trun 4) MAX_TRUN_SAMPLES) = length aus"
    using assms by (simp add: MAX_TRUN_SAMPLES_def min_def word_le_nat_alt unat_of_nat)
  have loop: "sample_loop ?trun 0xf01 None None 12 (length aus) 0 (0, None) =
     ((\<Sum>a\<leftarrow>aus. ucast (au_duration a)), Some (sample_flags (hd aus)))"
    using sample_loop_video [of "0 # drop 1 (be32 0xf01) @ be_of_nat 4 (length aus) @ be32 off" 0 aus None 0 None] assms by simp
  show ?thesis using assms f cnt loop by (simp add: trun_info_def sample_flags_def)
qed

lemma ascii_neq: "ascii ''mfhd'' \<noteq> ascii ''traf''" "ascii ''tfhd'' \<noteq> ascii ''trun''" "ascii ''tfdt'' \<noteq> ascii ''trun''"
  by (simp_all add: ascii_def)

lemma video_traf_info:
  assumes "length aus \<le> 8192" "aus \<noteq> []" "video_traf_at bdt aus off = bx (ascii ''traf'') body"
  shows "find_box body (ascii ''tfhd'') = Some (0 # drop 1 (be32 0x20000) @ be32 VIDEO_TRACK_ID)"
    and "find_box body (ascii ''trun'') =
      Some (0 # drop 1 (be32 0xf01) @ be_of_nat 4 (length aus) @ be32 off @ concat (map video_sample aus))"
proof -
  have "body = full_bx (ascii ''tfhd'') 0 0x20000 (be32 VIDEO_TRACK_ID) @ full_bx (ascii ''tfdt'') 1 0 (be64 bdt)
     @ full_bx (ascii ''trun'') 0 0xf01 (be_of_nat 4 (length aus) @ be32 off @ concat (map video_sample aus))"
    using assms(3) by (simp add: traf_at_def traf_head_def bx_def)
  then show "find_box body (ascii ''tfhd'') = Some (0 # drop 1 (be32 0x20000) @ be32 VIDEO_TRACK_ID)"
    and "find_box body (ascii ''trun'') =
      Some (0 # drop 1 (be32 0xf01) @ be_of_nat 4 (length aus) @ be32 off @ concat (map video_sample aus))"
    using assms(1) by (simp_all add: full_bx_def find_box_rules ascii_neq)
qed

lemma moof_size_bound:
  "length aus \<le> 8192 \<Longrightarrow> (case audio of Some (fs, _) \<Rightarrow> length fs \<le> 200 | None \<Rightarrow> True) \<Longrightarrow> moof_size aus audio < 200000"
  by (auto simp: moof_size_def split: option.splits)

lemma fragment_info_moof:
  assumes aus: "aus \<noteq> []" "length aus \<le> 8192"
    and audio: "case audio of Some (fs, _) \<Rightarrow> length fs \<le> 200 | None \<Rightarrow> True"
  shows "fragment_info (moof seq bdt aus audio @ rest) =
     Some \<lparr>fi_independent = au_keyframe (hd aus), fi_duration_ticks = (\<Sum>a\<leftarrow>aus. ucast (au_duration a))\<rparr>"
proof -
  let ?mfhd = "full_bx (ascii ''mfhd'') 0 0 (be32 (ucast seq + 1))"
  let ?tail = "case audio of Some (fs, abdt) \<Rightarrow> audio_traf_at abdt fs (audio_offset aus audio) | None \<Rightarrow> []"
  let ?V = "video_traf_at bdt aus (video_offset aus audio)"
  have moof: "moof seq bdt aus audio = bx (ascii ''moof'') (?mfhd @ ?V @ ?tail)" by (rule moof_layout)
  obtain body where body: "?V = bx (ascii ''traf'') body" by (metis traf_at_def)
  have lV: "length ?V = 64 + 16 * length aus" by simp
  then have lens: "length body + 8 = 64 + 16 * length aus" unfolding body by simp
  have "length ?tail \<le> 64 + 8 * 200" using audio by (auto split: option.splits)
  then have 1: "find_box (moof seq bdt aus audio @ rest) (ascii ''moof'') = Some (?mfhd @ ?V @ ?tail)"
    unfolding moof using aus(2) by (intro find_box_hit) simp_all
  have 2: "find_box (?mfhd @ ?V @ ?tail) (ascii ''traf'') = Some body"
    unfolding body using aus(2) lens by (simp add: full_bx_def find_box_rules ascii_neq)
  have "flags_at (0 # drop 1 (be32 0x20000) @ be32 VIDEO_TRACK_ID) = 0x20000" by (rule flags_at_full) simp
  then have "tfhd_defaults (Some (0 # drop 1 (be32 0x20000) @ be32 VIDEO_TRACK_ID)) = (None, None)"
    by (simp add: tfhd_defaults_def)
  then show ?thesis
    using 1 2 video_traf_info [OF aus(2,1) body] trun_info_video [OF aus(2,1)] by (simp add: fragment_info_def)
qed

lemma sum_durations_exact:
  "length aus \<le> 8192 \<Longrightarrow> unat (\<Sum>a\<leftarrow>aus. ucast (au_duration a) :: u64) = (\<Sum>a\<leftarrow>aus. unat (au_duration a))"
proof (induction aus)
  case (Cons a aus)
  have "(\<Sum>a\<leftarrow>aus. unat (au_duration a)) \<le> (\<Sum>a\<leftarrow>aus. 2 ^ 32)"
    using unat_less_2p [where 'a = 32] by (intro sum_list_mono) (simp add: less_imp_le)
  then have "(\<Sum>a\<leftarrow>aus. unat (au_duration a)) \<le> length aus * 2 ^ 32" by (simp add: sum_list_triv)
  moreover have "length aus * 2 ^ 32 \<le> (8191 :: nat) * 2 ^ 32" using Cons.prems by simp
  moreover have "unat (au_duration a) < 2 ^ 32" using unat_less_2p [of "au_duration a"] by simp
  moreover have "unat (ucast (au_duration a) :: u64) = unat (au_duration a)" by (rule unat_u64_of_u32)
  ultimately show ?case using Cons by (simp add: unat_word_ariths)
qed simp

lemma length_init: "length (hp_sps p) < 2 ^ 16 \<Longrightarrow> length (hp_pps p) < 2 ^ 16 \<Longrightarrow> length (moov p ch) < 2 ^ 20"
  by (auto simp: moov_def mvhd_def trak_def tkhd_def mdia_def minf_def dinf_def stbl_def stbl_of_def avc1_def avcc_def mdhd_def hdlr_def
      audio_trak_def audio_tkhd_def audio_mdia_def audio_mdhd_def audio_hdlr_def audio_minf_def audio_stbl_def opus_sample_entry_def
      d_ops_def mvex_def trex_for_def UNITY_MATRIX_def split: option.splits)

lemma fragment_info_init:
  assumes "length (hp_sps p) < 2 ^ 16" "length (hp_pps p) < 2 ^ 16"
  shows "fragment_info (init_bytes p ch) = None"
proof -
  obtain body where body: "moov p ch = bx (ascii ''moov'') body" by (simp add: moov_def)
  then have "8 + length body < 2 ^ 32" using length_init [OF assms, of ch] by simp
  then have "find_box (moov p ch) (ascii ''moof'') = find_box [] (ascii ''moof'')"
    unfolding body by (intro find_box_skip [where rest = "[]", simplified]) (simp_all add: ascii_def)
  moreover have "find_box (ftyp @ moov p ch) (ascii ''moof'') = find_box (moov p ch) (ascii ''moof'')"
    unfolding ftyp_def by (intro find_box_skip) (simp_all add: ascii_def)
  ultimately show ?thesis by (simp add: fragment_info_def init_bytes_def find_box.simps [of "[]"])
qed

text \<open>
  The playlist server places every fragment the muxer can emit exactly: from the bytes of a
  fragment of up to 8192 video samples and 200 audio frames it recovers whether the first
  sample is a keyframe, and the total video duration with no wrap-around, whatever the audio;
  and it never takes an init segment for a fragment.
\<close>

theorem fragment_placed:
  assumes "aus \<noteq> []" "length aus \<le> 8192" "case audio of Some (fs, _) \<Rightarrow> length fs \<le> 200 | None \<Rightarrow> True"
  shows "(\<exists>i. fragment_info (moof seq bdt aus audio @ mdat aus (map_option fst audio)) = Some i
           \<and> fi_independent i = au_keyframe (hd aus)
           \<and> unat (fi_duration_ticks i) = (\<Sum>a\<leftarrow>aus. unat (au_duration a)))
    \<and> (length (hp_sps p) < 2 ^ 16 \<and> length (hp_pps p) < 2 ^ 16 \<longrightarrow> fragment_info (init_bytes p ch) = None)"
  using fragment_info_moof [OF assms] sum_durations_exact [OF assms(2)] fragment_info_init by auto

theorem fragment_placed_witness:
  "\<exists>i. fragment_info (moof 7 90000 [\<lparr>au_avcc = [0, 0, 0, 1, 0x65], au_pts = 0, au_duration = 3000, au_comp_offset = 0, au_keyframe = True,
        au_poc_dec = 0, au_poc_gop = 0, au_poc_val = 0\<rparr>] (Some ([\<lparr>af_data = [1, 2], af_duration = 960\<rparr>], 48000))
      @ mdat [\<lparr>au_avcc = [0, 0, 0, 1, 0x65], au_pts = 0, au_duration = 3000, au_comp_offset = 0, au_keyframe = True,
        au_poc_dec = 0, au_poc_gop = 0, au_poc_val = 0\<rparr>] (Some [\<lparr>af_data = [1, 2], af_duration = 960\<rparr>])) = Some i
     \<and> fi_independent i \<and> unat (fi_duration_ticks i) = 3000"
  using fragment_placed [of "[\<lparr>au_avcc = [0, 0, 0, 1, 0x65], au_pts = 0, au_duration = 3000, au_comp_offset = 0, au_keyframe = True,
        au_poc_dec = 0, au_poc_gop = 0, au_poc_val = 0\<rparr>]" "Some ([\<lparr>af_data = [1, 2], af_duration = 960\<rparr>], 48000)" 7 90000]
  by simp

subsection \<open>Demuxing\<close>

text \<open>A reference demuxer after ISO/IEC 14496-12: all boxes of a type, the fields of a track
  fragment, and the samples of its run, cut from the fragment at the data offset.\<close>

function boxes_of :: "bytes \<Rightarrow> bytes \<Rightarrow> bytes list" where
  "boxes_of buf typ =
     (if length buf < 8 then []
      else
        (let size = unat (be32_at buf 0)
         in if size < 8 \<or> length buf < size then []
            else (if take 4 (drop 4 buf) = typ then [drop 8 (take size buf)] else []) @ boxes_of (drop size buf) typ))"
  by auto
termination
  by (relation "measure (\<lambda>(buf, _). length buf)") auto

declare boxes_of.simps [simp del]

fun cut :: "bytes \<Rightarrow> nat \<Rightarrow> nat list \<Rightarrow> bytes list" where
  "cut b off [] = []"
| "cut b off (n # ns) = take n (drop off b) # cut b (off + n) ns"

record demuxed =
  dm_track :: u32
  dm_base :: u64
  dm_timing :: "(u32 \<times> u32) list"
  dm_data :: "bytes list"

definition run_timing :: "bytes \<Rightarrow> nat \<Rightarrow> u32 \<times> u32" where
  "run_timing trun i =
     (let q = 12 + i * rec_len (flags_at trun)
      in (be32_at trun q, if fl (flags_at trun) 0x800 then be32_at trun (q + 12) else 0))"

definition run_size :: "bytes \<Rightarrow> nat \<Rightarrow> nat" where
  "run_size trun i = unat (be32_at trun (12 + i * rec_len (flags_at trun) + 4))"

definition demux_traf :: "bytes \<Rightarrow> bytes \<Rightarrow> demuxed option" where
  "demux_traf fragment traf_body =
     (case (find_box traf_body (ascii ''tfhd''), find_box traf_body (ascii ''tfdt''), find_box traf_body (ascii ''trun'')) of
        (Some tfhd, Some tfdt, Some trun) \<Rightarrow>
          (let n = unat (be32_at trun 4)
           in Some \<lparr>dm_track = be32_at tfhd 4, dm_base = of_nat (nat_of_be (take 8 (drop 4 tfdt))),
                    dm_timing = map (run_timing trun) [0..<n],
                    dm_data = cut fragment (unat (be32_at trun 8)) (map (run_size trun) [0..<n])\<rparr>)
      | _ \<Rightarrow> None)"

definition demux :: "bytes \<Rightarrow> demuxed option list" where
  "demux fragment = concat (map (\<lambda>m. map (demux_traf fragment) (boxes_of m (ascii ''traf''))) (boxes_of fragment (ascii ''moof'')))"

lemma boxes_of_Nil [simp]: "boxes_of [] t = []"
  by (simp add: boxes_of.simps)

lemma boxes_of_bx:
  assumes "length t = 4" "8 + length b < 2 ^ 32"
  shows "boxes_of (bx t b @ rest) t' = (if t = t' then [b] else []) @ boxes_of rest t'"
proof -
  have "unat (be32_at (bx t b @ rest) 0) = 8 + length b"
    using assms(2) by (simp add: bx_def be32_at_0 unat_of_nat del: of_nat_add)
  with assms show ?thesis by (subst boxes_of.simps) (cases "t = t'"; simp add: bx_def)
qed

lemma cut_concat: "length pre = off \<Longrightarrow> cut (pre @ concat ds @ post) off (map length ds) = ds"
proof (induction ds arbitrary: pre off)
  case (Cons d ds)
  then show ?case using Cons.IH [of "pre @ d" "off + length d"] by simp
qed simp

lemma drop_records:
  assumes "\<And>x. length (enc x) = w" "i < length xs"
  shows "drop (i * w) (concat (map enc xs)) = enc (xs ! i) @ concat (map enc (drop (Suc i) xs))"
  using assms(2)
proof (induction xs arbitrary: i)
  case (Cons x xs)
  then show ?case using assms(1) by (cases i) simp_all
qed simp

lemma be32_at_record:
  assumes "length pre = k" "\<And>x. length (enc x) = w" "i < length xs"
  shows "be32_at (pre @ concat (map enc xs)) (k + i * w + q) = be32_at (enc (xs ! i) @ concat (map enc (drop (Suc i) xs))) q"
proof -
  have "drop (k + i * w) (pre @ concat (map enc xs)) = drop (i * w) (concat (map enc xs))" using assms(1) by simp
  then show ?thesis by (simp add: be32_at_drop [of _ "k + i * w" q] drop_records [OF assms(2,3)])
qed

lemma flag_bits_audio [simp]: "rec_len 0x301 = 8" "\<not> fl 0x301 0x800"
  by (simp_all add: fl_def rec_len_def)

lemma traf_fields:
  assumes "traf_at track f bdt n samples off = bx (ascii ''traf'') body" "64 + length samples < 2 ^ 32" "unat f < 2 ^ 24"
  defines "trun \<equiv> 0 # drop 1 (be32 f) @ be_of_nat 4 n @ be32 off @ samples"
  shows "demux_traf fragment body =
     Some \<lparr>dm_track = track, dm_base = bdt, dm_timing = map (run_timing trun) [0..<unat (of_nat n :: u32)],
           dm_data = cut fragment (unat off) (map (run_size trun) [0..<unat (of_nat n :: u32)])\<rparr>"
    and "flags_at trun = f"
proof -
  have body: "body = full_bx (ascii ''tfhd'') 0 0x20000 (be32 track) @ full_bx (ascii ''tfdt'') 1 0 (be64 bdt)
     @ full_bx (ascii ''trun'') 0 f (be_of_nat 4 n @ be32 off @ samples)"
    using assms(1) by (simp add: traf_at_def traf_head_def bx_def)
  have ne: "ascii ''tfhd'' \<noteq> ascii ''tfdt''" by (simp add: ascii_def)
  have boxes: "find_box body (ascii ''tfhd'') = Some (0 # drop 1 (be32 0x20000) @ be32 track)"
    "find_box body (ascii ''tfdt'') = Some (1 # drop 1 (be32 0) @ be64 bdt)"
    "find_box body (ascii ''trun'') = Some trun"
    using assms(2) unfolding body trun_def by (simp_all add: full_bx_def find_box_rules ascii_neq ne)
  have "be32_at ((0 # drop 1 (be32 0x20000)) @ be32 track @ []) (length (0 # drop 1 (be32 (0x20000 :: u32)))) = track"
    by (rule be32_at_word)
  then have 1: "be32_at (0 # drop 1 (be32 0x20000) @ be32 track) 4 = track" by simp
  have "be32_at ((0 # drop 1 (be32 f)) @ be_of_nat 4 n @ (be32 off @ samples)) (length (0 # drop 1 (be32 f))) = of_nat n"
    by (rule be32_at_take_drop)
  then have 2: "be32_at trun 4 = of_nat n" by (simp add: trun_def)
  have "be32_at ((0 # drop 1 (be32 f) @ be_of_nat 4 n) @ be32 off @ samples) (length (0 # drop 1 (be32 f) @ be_of_nat 4 n)) = off"
    by (rule be32_at_word)
  then have 3: "be32_at trun 8 = off" by (simp add: trun_def)
  have 4: "(of_nat (nat_of_be (take 8 (drop 4 (1 # drop 1 (be32 0) @ be64 bdt)))) :: u64) = bdt"
    using unat_less_2p [of bdt] by (simp add: nat_of_be_of_nat)
  show "flags_at trun = f" unfolding trun_def by (rule flags_at_full [OF assms(3)])
  show "demux_traf fragment body =
     Some \<lparr>dm_track = track, dm_base = bdt, dm_timing = map (run_timing trun) [0..<unat (of_nat n :: u32)],
           dm_data = cut fragment (unat off) (map (run_size trun) [0..<unat (of_nat n :: u32)])\<rparr>"
    unfolding demux_traf_def boxes prod.case option.case Let_def 1 2 3 4 by (rule refl)
qed

lemma video_run:
  assumes "length pre = 12" "flags_at trun = 0xf01" "trun = pre @ concat (map video_sample aus)" "i < length aus"
  shows "run_timing trun i = (au_duration (aus ! i), au_comp_offset (aus ! i))"
    and "length (au_avcc (aus ! i)) < 2 ^ 32 \<Longrightarrow> run_size trun i = length (au_avcc (aus ! i))"
proof -
  let ?a = "aus ! i" and ?rest = "concat (map video_sample (drop (Suc i) aus))"
  have at: "be32_at trun (12 + i * 16 + q) = be32_at (video_sample ?a @ ?rest) q" for q
    unfolding assms(3) using assms(1,4) by (intro be32_at_record) (simp_all add: video_sample_def)
  have "be32_at (video_sample ?a @ ?rest) 0 = au_duration ?a"
    using be32_at_word [of "[]" "au_duration ?a"] by (simp add: video_sample_def)
  moreover have "be32_at (video_sample ?a @ ?rest) 12 = au_comp_offset ?a"
    using be32_at_word [of "be32 (au_duration ?a) @ be_of_nat 4 (length (au_avcc ?a)) @ be32 (sample_flags ?a)" "au_comp_offset ?a" ?rest]
    by (simp add: video_sample_def)
  ultimately show "run_timing trun i = (au_duration ?a, au_comp_offset ?a)"
    using at [of 0] at [of 12] by (simp add: run_timing_def assms(2) Let_def)
  have "be32_at (video_sample ?a @ ?rest) 4 = of_nat (length (au_avcc ?a))"
    using be32_at_take_drop [of "be32 (au_duration ?a)" "length (au_avcc ?a)" "be32 (sample_flags ?a) @ be32 (au_comp_offset ?a) @ ?rest"]
    by (simp add: video_sample_def)
  then show "length (au_avcc ?a) < 2 ^ 32 \<Longrightarrow> run_size trun i = length (au_avcc ?a)"
    using at [of 4] by (simp add: run_size_def assms(2) unat_of_nat)
qed

lemma audio_run:
  assumes "length pre = 12" "flags_at trun = 0x301" "trun = pre @ concat (map audio_sample fs)" "i < length fs"
  shows "run_timing trun i = (af_duration (fs ! i), 0)"
    and "length (af_data (fs ! i)) < 2 ^ 32 \<Longrightarrow> run_size trun i = length (af_data (fs ! i))"
proof -
  let ?a = "fs ! i" and ?rest = "concat (map audio_sample (drop (Suc i) fs))"
  have at: "be32_at trun (12 + i * 8 + q) = be32_at (audio_sample ?a @ ?rest) q" for q
    unfolding assms(3) using assms(1,4) by (intro be32_at_record) (simp_all add: audio_sample_def)
  have "be32_at (audio_sample ?a @ ?rest) 0 = af_duration ?a"
    using be32_at_word [of "[]" "af_duration ?a"] by (simp add: audio_sample_def)
  then show "run_timing trun i = (af_duration ?a, 0)"
    using at [of 0] by (simp add: run_timing_def assms(2) Let_def)
  have "be32_at (audio_sample ?a @ ?rest) 4 = of_nat (length (af_data ?a))"
    using be32_at_take_drop [of "be32 (af_duration ?a)" "length (af_data ?a)" ?rest] by (simp add: audio_sample_def)
  then show "length (af_data ?a) < 2 ^ 32 \<Longrightarrow> run_size trun i = length (af_data ?a)"
    using at [of 4] by (simp add: run_size_def assms(2) unat_of_nat)
qed

lemma map_nth_upt: "(\<And>i. i < length xs \<Longrightarrow> f i = g (xs ! i)) \<Longrightarrow> map f [0..<length xs] = map g xs"
  by (rule nth_equalityI) simp_all

lemma demux_video_traf:
  assumes "64 + 16 * length aus < 2 ^ 32" "\<forall>a \<in> set aus. length (au_avcc a) < 2 ^ 32"
    and "fragment = pre @ concat (map au_avcc aus) @ post" "unat off = length pre"
    and "video_traf_at bdt aus off = bx (ascii ''traf'') body"
  shows "demux_traf fragment body = Some \<lparr>dm_track = VIDEO_TRACK_ID, dm_base = bdt,
     dm_timing = map (\<lambda>a. (au_duration a, au_comp_offset a)) aus, dm_data = map au_avcc aus\<rparr>"
proof -
  let ?pre = "0 # drop 1 (be32 0xf01) @ be_of_nat 4 (length aus) @ be32 off"
  let ?trun = "0 # drop 1 (be32 0xf01) @ be_of_nat 4 (length aus) @ be32 off @ concat (map video_sample aus)"
  note fields = traf_fields [OF assms(5)]
  have flags: "flags_at ?trun = 0xf01" using assms(1) by (intro fields(2)) simp_all
  have n: "unat (of_nat (length aus) :: u32) = length aus" using assms(1) by (simp add: unat_of_nat)
  have t: "map (run_timing ?trun) [0..<length aus] = map (\<lambda>a. (au_duration a, au_comp_offset a)) aus"
    by (intro map_nth_upt video_run(1) [where pre = ?pre] flags) simp_all
  have "map (run_size ?trun) [0..<length aus] = map (\<lambda>a. length (au_avcc a)) aus"
    using assms(2) by (intro map_nth_upt video_run(2) [where pre = ?pre] flags) simp_all
  then have "cut fragment (unat off) (map (run_size ?trun) [0..<length aus]) = map au_avcc aus"
    using cut_concat [of pre "unat off" "map au_avcc aus" post] assms(3,4) by (simp add: comp_def)
  with fields(1) [of fragment] assms(1) n t show ?thesis by simp
qed

lemma demux_audio_traf:
  assumes "64 + 8 * length fs < 2 ^ 32" "\<forall>a \<in> set fs. length (af_data a) < 2 ^ 32"
    and "fragment = pre @ concat (map af_data fs) @ post" "unat off = length pre"
    and "audio_traf_at bdt fs off = bx (ascii ''traf'') body"
  shows "demux_traf fragment body = Some \<lparr>dm_track = AUDIO_TRACK_ID, dm_base = bdt,
     dm_timing = map (\<lambda>a. (af_duration a, 0)) fs, dm_data = map af_data fs\<rparr>"
proof -
  let ?pre = "0 # drop 1 (be32 0x301) @ be_of_nat 4 (length fs) @ be32 off"
  let ?trun = "0 # drop 1 (be32 0x301) @ be_of_nat 4 (length fs) @ be32 off @ concat (map audio_sample fs)"
  note fields = traf_fields [OF assms(5)]
  have flags: "flags_at ?trun = 0x301" using assms(1) by (intro fields(2)) simp_all
  have n: "unat (of_nat (length fs) :: u32) = length fs" using assms(1) by (simp add: unat_of_nat)
  have t: "map (run_timing ?trun) [0..<length fs] = map (\<lambda>a. (af_duration a, 0)) fs"
    by (intro map_nth_upt audio_run(1) [where pre = ?pre] flags) simp_all
  have "map (run_size ?trun) [0..<length fs] = map (\<lambda>a. length (af_data a)) fs"
    using assms(2) by (intro map_nth_upt audio_run(2) [where pre = ?pre] flags) simp_all
  then have "cut fragment (unat off) (map (run_size ?trun) [0..<length fs]) = map af_data fs"
    using cut_concat [of pre "unat off" "map af_data fs" post] assms(3,4) by (simp add: comp_def)
  with fields(1) [of fragment] assms(1) n t show ?thesis by simp
qed

lemma demux_layout:
  assumes "8 + length b < 2 ^ 32" "8 + length c < 2 ^ 32" "8 + length d < 2 ^ 32"
    and "length m + 16 + length b + length c < 2 ^ 32"
    and "moof_body = full_bx (ascii ''mfhd'') 0 0 m @ bx (ascii ''traf'') b @ (if two then bx (ascii ''traf'') c else [])"
    and "length moof_body + 8 < 2 ^ 32"
  shows "demux (bx (ascii ''moof'') moof_body @ bx (ascii ''mdat'') d) =
    map (demux_traf (bx (ascii ''moof'') moof_body @ bx (ascii ''mdat'') d)) (if two then [b, c] else [b])"
proof -
  have ne: "ascii ''mdat'' \<noteq> ascii ''moof''" by (simp add: ascii_def)
  have "boxes_of (bx (ascii ''moof'') moof_body @ bx (ascii ''mdat'') d @ []) (ascii ''moof'') = [moof_body]"
    using assms(3,6) by (subst boxes_of_bx, simp, simp, subst boxes_of_bx) (simp_all add: ne)
  moreover have "boxes_of (moof_body @ []) (ascii ''traf'') = (if two then [b, c] else [b])"
    using assms(1,2,4) boxes_of_bx [of "ascii ''traf''" c "[]" "ascii ''traf''"] unfolding assms(5) full_bx_def
    by (simp add: boxes_of_bx ascii_neq)
  ultimately show ?thesis by (simp add: demux_def)
qed

lemma length_concat_ge: "x \<in> set xs \<Longrightarrow> length x \<le> length (concat xs)"
  by (induction xs) auto

definition fragment_bytes :: "u64 \<Rightarrow> u64 \<Rightarrow> au list \<Rightarrow> (audio_frame list \<times> u64) option \<Rightarrow> bytes" where
  "fragment_bytes seq bdt aus audio = moof seq bdt aus audio @ mdat aus (map_option fst audio)"

text \<open>
  C34: Muxing loses nothing: a demuxer that follows the boxes, the run tables and the patched
  data offsets of a fragment of less than 4 GiB finds exactly one video track with the base
  decode time, the durations, the composition offsets and the bytes of every access unit in
  order, and, where audio was muxed, one audio track with every Opus packet.
\<close>

theorem fragment_demuxes:
  assumes "length (fragment_bytes seq bdt aus audio) < 2 ^ 32"
  shows "demux (fragment_bytes seq bdt aus audio) =
    Some \<lparr>dm_track = VIDEO_TRACK_ID, dm_base = bdt, dm_timing = map (\<lambda>a. (au_duration a, au_comp_offset a)) aus,
          dm_data = map au_avcc aus\<rparr>
    # (case audio of
         Some (fs, abdt) \<Rightarrow> [Some \<lparr>dm_track = AUDIO_TRACK_ID, dm_base = abdt, dm_timing = map (\<lambda>f. (af_duration f, 0)) fs,
                                  dm_data = map af_data fs\<rparr>]
       | None \<Rightarrow> [])"
proof -
  define frag where "frag = fragment_bytes seq bdt aus audio"
  define vdata where "vdata = concat (map au_avcc aus)"
  define adata where "adata = (case audio of Some (fs, _) \<Rightarrow> concat (map af_data fs) | None \<Rightarrow> [])"
  obtain vb where vb: "video_traf_at bdt aus (video_offset aus audio) = bx (ascii ''traf'') vb" by (metis traf_at_def)
  have lvb: "length vb = 56 + 16 * length aus"
    using arg_cong [OF vb, of length] by simp
  define tail where "tail = (case audio of Some (fs, abdt) \<Rightarrow> audio_traf_at abdt fs (audio_offset aus audio) | None \<Rightarrow> [])"
  define mb where "mb = full_bx (ascii ''mfhd'') 0 0 (be32 (ucast seq + 1)) @ bx (ascii ''traf'') vb @ tail"
  have mdat: "mdat aus (map_option fst audio) = bx (ascii ''mdat'') (vdata @ adata)"
    by (auto simp: mdat_def vdata_def adata_def split: option.splits)
  have frag: "frag = bx (ascii ''moof'') mb @ bx (ascii ''mdat'') (vdata @ adata)"
    by (simp add: frag_def fragment_bytes_def moof_layout vb mb_def tail_def mdat)
  have lmb: "length mb + 8 = moof_size aus audio"
    by (auto simp: mb_def tail_def lvb moof_size_def split: option.splits)
  have total: "moof_size aus audio + 8 + length vdata + length adata < 2 ^ 32"
    using assms lmb unfolding frag_def [symmetric] frag by simp
  have voff: "unat (video_offset aus audio) = length (bx (ascii ''moof'') mb) + 8"
    using total lmb by (simp add: video_offset_def unat_of_nat del: of_nat_add)
  have video: "demux_traf frag vb = Some \<lparr>dm_track = VIDEO_TRACK_ID, dm_base = bdt,
     dm_timing = map (\<lambda>a. (au_duration a, au_comp_offset a)) aus, dm_data = map au_avcc aus\<rparr>"
  proof (rule demux_video_traf [OF _ _ _ _ vb])
    show "\<forall>a \<in> set aus. length (au_avcc a) < 2 ^ 32"
      using total length_concat_ge [of _ "map au_avcc aus"] unfolding vdata_def by fastforce
    show "frag = (bx (ascii ''moof'') mb @ be_of_nat 4 (8 + length (vdata @ adata)) @ ascii ''mdat'') @ concat (map au_avcc aus) @ adata"
      by (simp add: frag bx_def [of "ascii ''mdat''"] vdata_def)
  qed (use total voff in \<open>simp_all add: moof_size_def\<close>)
  show ?thesis
  proof (cases audio)
    case None
    have "demux frag = map (demux_traf frag) (if False then [vb, []] else [vb])"
      unfolding frag using total lmb by (intro demux_layout [where m = "be32 (ucast seq + 1)"]) (simp_all add: lvb mb_def tail_def None moof_size_def)
    with video None show ?thesis by (simp add: frag_def)
  next
    case (Some fa)
    obtain fs abdt where fa: "audio = Some (fs, abdt)" using Some by (cases fa) simp
    obtain ab where ab: "audio_traf_at abdt fs (audio_offset aus audio) = bx (ascii ''traf'') ab" by (metis traf_at_def)
    have lab: "length ab = 56 + 8 * length fs"
      using arg_cong [OF ab, of length] by simp
    have aoff: "unat (audio_offset aus audio) = length (bx (ascii ''moof'') mb) + 8 + length vdata"
      using total lmb by (simp add: audio_offset_def unat_of_nat video_bytes_def vdata_def del: of_nat_add)
    have "demux_traf frag ab = Some \<lparr>dm_track = AUDIO_TRACK_ID, dm_base = abdt,
       dm_timing = map (\<lambda>f. (af_duration f, 0)) fs, dm_data = map af_data fs\<rparr>"
    proof (rule demux_audio_traf [OF _ _ _ _ ab])
      show "\<forall>a \<in> set fs. length (af_data a) < 2 ^ 32"
        using total length_concat_ge [of _ "map af_data fs"] unfolding adata_def fa by fastforce
      show "frag = (bx (ascii ''moof'') mb @ be_of_nat 4 (8 + length (vdata @ adata)) @ ascii ''mdat'' @ vdata) @ concat (map af_data fs) @ []"
        by (simp add: frag bx_def [of "ascii ''mdat''"] adata_def fa)
    qed (use total aoff in \<open>simp_all add: moof_size_def fa\<close>)
    moreover have "demux frag = map (demux_traf frag) (if True then [vb, ab] else [vb])"
      unfolding frag using total lmb
      by (intro demux_layout [where m = "be32 (ucast seq + 1)"]) (simp_all add: lvb lab mb_def tail_def fa ab [unfolded fa] moof_size_def)
    ultimately show ?thesis using video fa by (simp add: frag_def)
  qed
qed

theorem fragment_demuxes_witness:
  "\<exists>d. demux (fragment_bytes 7 90000 [\<lparr>au_avcc = [0, 0, 0, 1, 0x65], au_pts = 0, au_duration = 3000, au_comp_offset = 0, au_keyframe = True,
        au_poc_dec = 0, au_poc_gop = 0, au_poc_val = 0\<rparr>] None) = [Some d] \<and> dm_data d = [[0, 0, 0, 1, 0x65]] \<and> dm_base d = 90000"
proof -
  have "length (fragment_bytes 7 90000 [\<lparr>au_avcc = [0, 0, 0, 1, 0x65], au_pts = 0, au_duration = 3000, au_comp_offset = 0, au_keyframe = True,
        au_poc_dec = 0, au_poc_gop = 0, au_poc_val = 0\<rparr>] None) < 2 ^ 32"
    by (simp add: fragment_bytes_def moof_layout mdat_def video_sample_def)
  from fragment_demuxes [OF this] show ?thesis by simp
qed

subsection \<open>Timing\<close>

lemma fold_max_ge: "(d :: int) \<le> fold (\<lambda>x d. max d (f x)) xs d" "x \<in> set xs \<Longrightarrow> f x \<le> fold (\<lambda>x d. max d (f x)) xs d"
proof (induction xs arbitrary: d)
  case (Cons y xs)
  {
    case 1
    show ?case using Cons(1) [of "max d (f y)"] by simp
  next
    case 2
    then show ?case using Cons(1,2) [of "max d (f y)"] by auto
  }
qed simp_all

lemma fold_max_in: "fold (\<lambda>x d. max d (f x)) xs (d :: int) \<in> insert d (f ` set xs)"
proof (induction xs arbitrary: d)
  case (Cons y xs)
  from Cons [of "max d (f y)"] show ?case by (auto simp: max_def split: if_splits)
qed simp

definition frame_dur :: "au list \<Rightarrow> u32 \<Rightarrow> int" where
  "frame_dur aus fallback =
     (let s = sort (map (\<lambda>a. au_pts a - Min (set (map au_pts aus))) aus); gaps = filter (\<lambda>d. 0 < d) (map2 (\<lambda>a b. b - a) s (tl s))
      in if gaps = [] then uint (max fallback 1) else max (sort gaps ! (length gaps div 2)) 1)"

definition rel_pts :: "au list \<Rightarrow> nat \<Rightarrow> int" where
  "rel_pts aus i = au_pts (aus ! i) - Min (set (map au_pts aus))"

definition reorder_delay :: "au list \<Rightarrow> int \<Rightarrow> int" where
  "reorder_delay aus fd = fold (\<lambda>i d. max d (int i * fd - rel_pts aus i)) [0..<length aus] 0"

lemma enumerate_map_upt: "enumerate 0 (map f xs) = map (\<lambda>i. (i, f (xs ! i))) [0..<length xs]"
  by (rule nth_equalityI) (simp_all add: nth_enumerate_eq)

lemma compute_timing_eq:
  assumes "aus \<noteq> []"
  shows "compute_timing aus fallback =
    (map (\<lambda>i. (aus ! i)\<lparr>au_duration := of_int (frame_dur aus fallback),
           au_comp_offset := of_int (max (rel_pts aus i - int i * frame_dur aus fallback + reorder_delay aus (frame_dur aus fallback)) 0)\<rparr>)
       [0..<length aus],
     of_int (frame_dur aus fallback))"
proof -
  have "fold (\<lambda>(i, r) d. max d (int i * fd - r)) (enumerate 0 (map (\<lambda>a. au_pts a - Min (set (map au_pts aus))) aus)) 0
      = reorder_delay aus fd" for fd
    unfolding reorder_delay_def enumerate_map_upt fold_map comp_def prod.case rel_pts_def ..
  moreover have "enumerate 0 (zip aus (map (\<lambda>a. au_pts a - Min (set (map au_pts aus))) aus))
      = map (\<lambda>i. (i, aus ! i, rel_pts aus i)) [0..<length aus]"
    by (rule nth_equalityI) (simp_all add: nth_enumerate_eq rel_pts_def)
  ultimately show ?thesis
    using assms unfolding compute_timing_def Let_def frame_dur_def [unfolded Let_def, symmetric] by (simp add: comp_def)
qed

lemma rel_pts_bounds:
  assumes "i < length aus"
  shows "0 \<le> rel_pts aus i" "rel_pts aus i \<le> Max (set (map au_pts aus)) - Min (set (map au_pts aus))"
  using assms by (auto simp: rel_pts_def intro!: Min_le Max_ge)

lemma frame_dur_bounds:
  assumes "aus \<noteq> []"
  shows "1 \<le> frame_dur aus fb"
    "frame_dur aus fb \<le> Max (set (map au_pts aus)) - Min (set (map au_pts aus)) + uint (max fb 1)"
proof -
  define s where "s = sort (map (\<lambda>a. au_pts a - Min (set (map au_pts aus))) aus)"
  define gaps where "gaps = filter (\<lambda>d. 0 < d) (map2 (\<lambda>a b. b - a) s (tl s))"
  let ?span = "Max (set (map au_pts aus)) - Min (set (map au_pts aus))"
  have fd: "frame_dur aus fb = (if gaps = [] then uint (max fb 1) else max (sort gaps ! (length gaps div 2)) 1)"
    by (simp add: frame_dur_def Let_def s_def gaps_def)
  have one: "1 \<le> uint (max fb 1)"
    by (auto simp: max_def word_le_def)
  show "1 \<le> frame_dur aus fb" using one by (simp add: fd)
  have mem: "0 \<le> x \<and> x \<le> ?span" if "x \<in> set s" for x
    using that assms by (auto simp: s_def intro!: Min_le Max_ge)
  have gap: "g \<le> ?span" if "g \<in> set gaps" for g
  proof -
    from that obtain x y where "(x, y) \<in> set (zip s (tl s))" "g = y - x" by (auto simp: gaps_def)
    moreover from this have "x \<in> set s" "y \<in> set s"
      by (cases s; auto dest: set_zip_leftD set_zip_rightD)+
    ultimately show ?thesis using mem [of x] mem [of y] by simp
  qed
  have med: "sort gaps ! (length gaps div 2) \<le> ?span" if "gaps \<noteq> []"
    using nth_mem [of "length gaps div 2" "sort gaps"] that by (intro gap) simp
  have "0 \<le> ?span" using rel_pts_bounds [of 0 aus] assms by simp
  moreover have "frame_dur aus fb = uint (max fb 1) \<or> frame_dur aus fb = 1 \<or> frame_dur aus fb \<le> ?span"
    using med by (cases "gaps = []"; cases "sort gaps ! (length gaps div 2) \<le> 1") (simp_all add: fd max_def [of _ "1 :: int"])
  ultimately show "frame_dur aus fb \<le> ?span + uint (max fb 1)" using one by linarith
qed

lemma reorder_delay_props:
  shows "0 \<le> reorder_delay aus fd"
    and "i < length aus \<Longrightarrow> int i * fd - rel_pts aus i \<le> reorder_delay aus fd"
    and "reorder_delay aus fd = 0 \<or> (\<exists>i < length aus. int i * fd - rel_pts aus i = reorder_delay aus fd)"
  unfolding reorder_delay_def
  using fold_max_ge [where f = "\<lambda>i. int i * fd - rel_pts aus i" and xs = "[0..<length aus]" and d = 0]
    fold_max_in [of "\<lambda>i. int i * fd - rel_pts aus i" "[0..<length aus]" 0]
  by auto

lemma comp_offset_fits:
  assumes "aus \<noteq> []" "(int (length aus) + 1) * (Max (set (map au_pts aus)) - Min (set (map au_pts aus)) + uint (max fb 1)) < 2 ^ 32"
    and "i < length aus"
  defines "fd \<equiv> frame_dur aus fb"
  shows "0 \<le> rel_pts aus i - int i * fd + reorder_delay aus fd" "rel_pts aus i - int i * fd + reorder_delay aus fd < 2 ^ 32" "fd < 2 ^ 32"
proof -
  let ?span = "Max (set (map au_pts aus)) - Min (set (map au_pts aus))"
  let ?m = "?span + uint (max fb 1)"
  show "0 \<le> rel_pts aus i - int i * fd + reorder_delay aus fd" using reorder_delay_props(2) [OF assms(3)] by (simp add: algebra_simps)
  have fd: "1 \<le> fd" "fd \<le> ?m" using frame_dur_bounds [OF assms(1)] by (simp_all add: fd_def)
  have "int j * fd - rel_pts aus j \<le> int (length aus) * ?m" if "j < length aus" for j
    using rel_pts_bounds(1) [OF that] mult_mono [of "int j" "int (length aus)" fd ?m] that fd by simp
  moreover have "0 \<le> int (length aus) * ?m" using fd by simp
  ultimately have "reorder_delay aus fd \<le> int (length aus) * ?m" using reorder_delay_props(3) [of aus fd] by metis
  moreover have "rel_pts aus i \<le> ?m" using rel_pts_bounds(2) [OF assms(3)] uint_ge_0 [of "max fb 1"] by linarith
  moreover have "0 \<le> int i * fd" using fd by simp
  moreover have "int (length aus) * ?m + ?m < 2 ^ 32" using assms(2) by (simp add: algebra_simps)
  ultimately show "rel_pts aus i - int i * fd + reorder_delay aus fd < 2 ^ 32" by linarith
  show "fd < 2 ^ 32" using fd \<open>0 \<le> int (length aus) * ?m\<close> \<open>int (length aus) * ?m + ?m < 2 ^ 32\<close> by linarith
qed

text \<open>
  C35: The timing derived from presentation times reproduces them: every decode duration is the
  same positive frame duration, so decode times increase, and decode time plus composition
  offset of each access unit is its presentation time, relative to the earliest of the
  fragment, plus one constant delay that is the least that keeps all offsets non-negative. The
  media itself is untouched. Nothing is truncated while the span of the fragment and its
  decode time fit in 32 bits.
\<close>

theorem timing_reproduced:
  assumes "aus \<noteq> []" "(int (length aus) + 1) * (Max (set (map au_pts aus)) - Min (set (map au_pts aus)) + uint (max fb 1)) < 2 ^ 32"
    and "compute_timing aus fb = (aus', fd)"
  shows "(\<exists>D \<ge> 0. (D = 0 \<or> (\<exists>i < length aus. au_comp_offset (aus' ! i) = 0))
      \<and> (\<forall>i < length aus. int i * uint fd + uint (au_comp_offset (aus' ! i)) = au_pts (aus ! i) - Min (set (map au_pts aus)) + D
           \<and> au_duration (aus' ! i) = fd))
    \<and> 0 < fd \<and> map au_avcc aus' = map au_avcc aus \<and> map au_keyframe aus' = map au_keyframe aus"
proof -
  let ?f = "frame_dur aus fb"
  let ?D = "reorder_delay aus ?f"
  note eq = compute_timing_eq [OF assms(1), of fb]
  have aus': "aus' = map (\<lambda>i. (aus ! i)\<lparr>au_duration := of_int ?f, au_comp_offset := of_int (max (rel_pts aus i - int i * ?f + ?D) 0)\<rparr>) [0..<length aus]"
    and fd: "fd = of_int ?f" using eq assms(3) by simp_all
  have f: "1 \<le> ?f" "?f < 2 ^ 32"
    using frame_dur_bounds(1) [OF assms(1)] comp_offset_fits(3) [OF assms(1,2), of 0] assms(1) by auto
  then have ufd: "uint fd = ?f" by (simp add: fd uint_word_of_int)
  then have pos: "0 < fd" using f by (simp add: word_less_def)
  have off: "uint (au_comp_offset (aus' ! i)) = rel_pts aus i - int i * ?f + ?D" if "i < length aus" for i
    using comp_offset_fits(1,2) [OF assms(1,2) that] that
    by (simp add: aus' uint_word_of_int max_absorb1 del: of_int_add of_int_diff of_int_mult)
  have "?D = 0 \<or> (\<exists>i < length aus. au_comp_offset (aus' ! i) = 0)"
  proof (cases "?D = 0")
    case False
    then obtain i where "i < length aus" "rel_pts aus i - int i * ?f + ?D = 0"
      using reorder_delay_props(3) [of aus ?f] by force
    then show ?thesis by (intro disjI2 exI [of _ i]) (simp add: aus')
  qed simp
  moreover have "int i * uint fd + uint (au_comp_offset (aus' ! i)) = au_pts (aus ! i) - Min (set (map au_pts aus)) + ?D
      \<and> au_duration (aus' ! i) = fd" if "i < length aus" for i
    using off [OF that] that unfolding ufd by (simp add: aus' fd rel_pts_def)
  moreover have "map au_avcc aus' = map au_avcc aus" "map au_keyframe aus' = map au_keyframe aus"
    by (auto simp: aus' intro!: nth_equalityI)
  ultimately show ?thesis
    using reorder_delay_props(1) [of aus ?f] pos by blast
qed

theorem timing_reproduced_witness:
  "\<exists>aus' fd D. compute_timing (map (\<lambda>t. \<lparr>au_avcc = [1], au_pts = t, au_duration = 0, au_comp_offset = 0, au_keyframe = True,
        au_poc_dec = 0, au_poc_gop = 0, au_poc_val = 0\<rparr>) [0, 9000, 3000, 6000]) 3000 = (aus', fd)
     \<and> uint fd + uint (au_comp_offset (aus' ! 1)) = 9000 + D"
proof -
  let ?aus = "map (\<lambda>t. \<lparr>au_avcc = [1], au_pts = t, au_duration = 0, au_comp_offset = 0, au_keyframe = True,
        au_poc_dec = 0, au_poc_gop = 0, au_poc_val = 0\<rparr>) [0, 9000, 3000, 6000]"
  obtain aus' fd where eq: "compute_timing ?aus 3000 = (aus', fd)" by fastforce
  have m: "Min (set (map au_pts ?aus)) = 0" by (simp add: min_def)
  have "\<exists>D \<ge> 0. (D = 0 \<or> (\<exists>i < length ?aus. au_comp_offset (aus' ! i) = 0))
      \<and> (\<forall>i < length ?aus. int i * uint fd + uint (au_comp_offset (aus' ! i)) = au_pts (?aus ! i) - Min (set (map au_pts ?aus)) + D
           \<and> au_duration (aus' ! i) = fd)"
    using timing_reproduced [OF _ _ eq] by (simp add: max_def)
  then obtain D where D: "\<forall>i < length ?aus. int i * uint fd + uint (au_comp_offset (aus' ! i)) = au_pts (?aus ! i) - Min (set (map au_pts ?aus)) + D
           \<and> au_duration (aus' ! i) = fd" by blast
  have "uint fd + uint (au_comp_offset (aus' ! 1)) = 9000 + D" using D [rule_format, of 1] m by simp
  with eq show ?thesis by blast
qed

subsection \<open>Annex B framing\<close>

text \<open>The scan for start codes on the remaining bytes, and a stream of units framed by three or
  four byte start codes. Encoders never put a start code inside a unit nor end one with a zero.\<close>

fun sc :: "bytes \<Rightarrow> nat \<Rightarrow> nat list" where
  "sc (a # b # c # r) i = (if a = 0 \<and> b = 0 \<and> c = 1 then i # sc r (i + 3) else sc (b # c # r) (i + 1))"
| "sc _ i = []"

fun no_start :: "bytes \<Rightarrow> bool" where
  "no_start (a # b # c # r) \<longleftrightarrow> \<not> (a = 0 \<and> b = 0 \<and> c = 1) \<and> no_start (b # c # r)"
| "no_start _ \<longleftrightarrow> True"

definition nal_ok :: "bytes \<Rightarrow> bool" where
  "nal_ok n \<longleftrightarrow> n \<noteq> [] \<and> last n \<noteq> 0 \<and> no_start n"

definition framed :: "(bool \<times> bytes) list \<Rightarrow> bytes" where
  "framed us = concat (map (\<lambda>(four, n). (if four then [0] else []) @ [0, 0, 1] @ n) us)"

lemma start_codes_sc: "start_codes b i = sc (drop i b) i"
proof (induction b i rule: start_codes.induct)
  case (1 b i)
  show ?case
  proof (cases "i + 3 \<le> length b")
    case True
    have e: "drop j b = b ! j # drop (Suc j) b" if "j < length b" for j
      using Cons_nth_drop_Suc [OF that] by simp
    have d1: "drop (Suc i) b = b ! (i + 1) # b ! (i + 2) # drop (i + 3) b"
      using e [of "Suc i"] e [of "Suc (Suc i)"] True by (simp add: eval_nat_numeral)
    then have d: "drop i b = b ! i # b ! (i + 1) # b ! (i + 2) # drop (i + 3) b" using e [of i] True by simp
    with 1 True d d1 show ?thesis by (subst start_codes.simps) simp
  next
    case False
    have short: "length d < 3 \<Longrightarrow> sc d i = []" for d by (cases "(d, i)" rule: sc.cases) auto
    have "sc (drop i b) i = []" using False by (intro short) simp
    with False show ?thesis by (simp add: start_codes.simps)
  qed
qed

lemma sc_skip:
  "no_start n \<Longrightarrow> n \<noteq> [] \<Longrightarrow> last n \<noteq> 0 \<Longrightarrow> sc (n @ r) i = sc r (i + length n)"
proof (induction n arbitrary: i)
  case (Cons a n)
  show ?case
  proof (cases n)
    case Nil
    then show ?thesis using Cons.prems by (cases r; cases "tl r") auto
  next
    case (Cons b t)
    then have IH: "sc (n @ r) (i + 1) = sc r (i + 1 + length n)"
      using Cons.IH [of "i + 1"] Cons.prems by (cases t) simp_all
    show ?thesis
    proof (cases t)
      case Nil
      then show ?thesis using IH Cons Cons.prems by (cases r) auto
    next
      case (Cons c u)
      then show ?thesis using IH Cons.prems \<open>n = b # t\<close> by auto
    qed
  qed
qed simp

lemma sc_nal_end: "nal_ok n \<Longrightarrow> sc n i = []"
  using sc_skip [of n "[]" i] by (simp add: nal_ok_def)

lemma sc_framed:
  "nal_ok n \<Longrightarrow> sc (framed ((four, n) # us)) i =
     (let s = i + (if four then 1 else 0) in s # sc (framed us) (s + 3 + length n))"
  by (auto simp: framed_def sc_skip nal_ok_def Let_def sc_nal_end)

lemma nals_at_framed:
  "list_all (\<lambda>u. nal_ok (snd u)) us \<Longrightarrow> nals_at (pre @ framed us) (sc (framed us) (length pre)) = map snd us"
proof (induction us arbitrary: pre)
  case Nil
  then show ?case by (simp add: framed_def)
next
  case (Cons u us)
  obtain four n where u: "u = (four, n)" by fastforce
  let ?code = "(if four then [0] else []) @ [0, 0, 1 :: u8]"
  let ?b = "pre @ framed (u # us)" and ?s = "length pre + (if four then 1 else 0)"
  have ok: "nal_ok n" "list_all (\<lambda>u. nal_ok (snd u)) us" using Cons.prems u by simp_all
  have b: "?b = (pre @ ?code @ n) @ framed us" by (simp add: framed_def u)
  have IH: "nals_at ?b (sc (framed us) (?s + 3 + length n)) = map snd us"
  proof -
    have "length (pre @ ?code @ n) = ?s + 3 + length n" by simp
    then show ?thesis using Cons.IH [OF ok(2), of "pre @ ?code @ n"] unfolding b by (simp only:)
  qed
  define e where "e = ?s + 3 + length n"
  have cut: "drop (?s + 3) (take e ?b) = n"
  proof -
    have le: "length (pre @ ?code @ n) = e" "length (pre @ ?code) = ?s + 3" by (simp_all add: e_def)
    have "take e ?b = (pre @ ?code) @ n"
      using append_eq_conv_conj [of "pre @ ?code @ n" "framed us" ?b] unfolding b le by (metis append_assoc)
    then show ?thesis using append_eq_conv_conj [of "pre @ ?code" n "take e ?b"] unfolding le by metis
  qed
  have "(case sc (framed us) e of next # _ \<Rightarrow> if 0 < next \<and> ?b ! (next - 1) = 0 then next - 1 else next | [] \<Rightarrow> length ?b) = e"
  proof (cases us)
    case Nil
    then show ?thesis unfolding b e_def by (simp add: framed_def)
  next
    case (Cons u' us')
    obtain four' n' where u': "u' = (four', n')" by fastforce
    have nx: "sc (framed us) e = (e + (if four' then 1 else 0)) # sc (framed us') (e + (if four' then 1 else 0) + 3 + length n')"
      using ok(2) sc_framed [of n' four' us' e] by (simp add: Cons u' Let_def)
    have "?b ! (e - 1) = last n" "e \<noteq> 0"
      using ok(1) unfolding b e_def nal_ok_def by (auto simp: nth_append last_conv_nth)
    moreover have "four' \<Longrightarrow> ?b ! e = 0"
      unfolding b e_def by (simp add: nth_append Cons u' framed_def)
    ultimately show ?thesis using ok(1) unfolding nx nal_ok_def by simp
  qed
  then have "nals_at ?b (?s # sc (framed us) e) = (if ?s + 3 < e then [drop (?s + 3) (take e ?b)] else []) @ nals_at ?b (sc (framed us) e)"
    by (simp add: Let_def)
  moreover have "?s + 3 < e" using ok(1) by (simp add: e_def nal_ok_def)
  ultimately show ?case
    using IH cut sc_framed [OF ok(1), of four us "length pre"] u by (simp add: e_def Let_def)
qed

text \<open>
  Splitting an Annex B buffer finds exactly the units it was framed from, with three or four
  byte start codes in any mixture, and the sample made of it is exactly those units, in order
  and length prefixed, less the parameter sets and delimiters.
\<close>

theorem annexb_roundtrip:
  assumes "list_all (\<lambda>u. nal_ok (snd u)) us"
  shows "iter_annexb_nals (framed us) = map snd us
    \<and> annexb_to_avcc (framed us) =
        concat (map (\<lambda>n. be_of_nat 4 (length n) @ n) (filter (\<lambda>n. nal_type n \<notin> {7, 8, 9}) (map snd us)))"
proof -
  have nals: "iter_annexb_nals (framed us) = map snd us"
    using nals_at_framed [OF assms, of "[]"] by (simp add: iter_annexb_nals_def start_codes_sc)
  have "concat (map (\<lambda>nal. if nal = [] \<or> nal_type nal \<in> {7, 8, 9} then [] else be_of_nat 4 (length nal) @ nal) ns)
      = concat (map (\<lambda>n. be_of_nat 4 (length n) @ n) (filter (\<lambda>n. nal_type n \<notin> {7, 8, 9}) ns))"
    if "list_all nal_ok ns" for ns
    using that by (induction ns) (simp_all add: nal_ok_def)
  from this [of "map snd us"] assms nals show ?thesis by (simp add: annexb_to_avcc_def list_all_iff)
qed

theorem annexb_roundtrip_witness:
  "iter_annexb_nals (framed [(True, [0x67, 1]), (False, [0x65, 0, 0, 3])]) = [[0x67, 1], [0x65, 0, 0, 3]]"
  using annexb_roundtrip [of "[(True, [0x67, 1]), (False, [0x65, 0, 0, 3])]"] by (simp add: nal_ok_def)

end
