(* ===== verification/H264_Poc.thy ===== *)
theory H264_Poc
  imports Prelude
begin

section \<open>Picture order count\<close>

text \<open>
  Models \<open>src/infra/segmenter/src/h264_poc.rs\<close>: the bit reader over an H.264 payload, the
  removal of emulation-prevention bytes, the parts of a sequence parameter set and of a slice
  header that lead to the picture order count, and the tracker that extends the wrapped count.
  A reader is its data with a bit position; every read returns the value and the new position.
  The tracker's \<open>i32\<close> values are integers, converted from \<open>u32\<close> as the casts do; the overflow
  of an order count past 31 bits is not modelled.
\<close>

unbundle bit_operations_syntax

subsection \<open>Reading bits\<close>

definition br_bit :: "bytes \<Rightarrow> nat \<Rightarrow> u32 \<times> nat" where
  "br_bit d pos =
     (if length d \<le> pos div 8 then (0, pos + 1)
      else (if bit (d ! (pos div 8)) (7 - pos mod 8) then 1 else 0, pos + 1))"

fun br_u_loop :: "nat \<Rightarrow> u32 \<Rightarrow> bytes \<Rightarrow> nat \<Rightarrow> u32 \<times> nat" where
  "br_u_loop 0 v d pos = (v, pos)"
| "br_u_loop (Suc n) v d pos = (case br_bit d pos of (b, pos') \<Rightarrow> br_u_loop n (push_bit 1 v OR b) d pos')"

definition br_u :: "nat \<Rightarrow> bytes \<Rightarrow> nat \<Rightarrow> u32 \<times> nat" where
  "br_u n d pos = br_u_loop n 0 d pos"

text \<open>The leading zeros of an Exp-Golomb code; \<open>None\<close> is the early return on more than 31.\<close>

function ue_zeros :: "bytes \<Rightarrow> nat \<Rightarrow> nat \<Rightarrow> nat option \<times> nat" where
  "ue_zeros d pos zeros =
     (if pos div 8 < length d then
        (case br_bit d pos of (b, pos') \<Rightarrow>
           if b = 0 then (if 31 < zeros + 1 then (None, pos') else ue_zeros d pos' (zeros + 1))
           else (Some zeros, pos'))
      else (Some zeros, pos))"
  by auto
termination
  by (relation "measure (\<lambda>(_, _, zeros). 32 - zeros)") auto

declare ue_zeros.simps [simp del]

definition br_ue :: "bytes \<Rightarrow> nat \<Rightarrow> u32 \<times> nat" where
  "br_ue d pos =
     (case ue_zeros d pos 0 of
        (None, pos') \<Rightarrow> (0, pos')
      | (Some zeros, pos') \<Rightarrow>
          if zeros = 0 then (0, pos')
          else (case br_u zeros d pos' of (v, pos'') \<Rightarrow> (push_bit zeros 1 - 1 + v, pos'')))"

definition br_se :: "bytes \<Rightarrow> nat \<Rightarrow> int \<times> nat" where
  "br_se d pos =
     (case br_ue d pos of (k, pos') \<Rightarrow>
        ((if k AND 1 = 1 then 1 else -1) * int (unat ((k + 1) div 2)), pos'))"

fun unescape :: "nat \<Rightarrow> bytes \<Rightarrow> bytes" where
  "unescape zeros [] = []"
| "unescape zeros (b # rest) =
     (if 2 \<le> zeros \<and> b = 3 \<and> rest \<noteq> [] \<and> hd rest \<le> 3 then unescape 0 rest
      else b # unescape (if b = 0 then zeros + 1 else 0) rest)"

definition unescape_rbsp :: "bytes \<Rightarrow> bytes" where
  "unescape_rbsp payload = unescape 0 payload"

subsection \<open>Parameter sets and slices\<close>

record sps_poc =
  log2_max_frame_num :: u32
  log2_max_poc_lsb :: u32
  frame_mbs_only :: bool
  separate_colour_plane :: bool

text \<open>\<open>%\<close> on \<open>i32\<close> takes the sign of the dividend.\<close>

definition rust_rem :: "int \<Rightarrow> int \<Rightarrow> int" where
  "rust_rem a b = sgn a * (\<bar>a\<bar> mod \<bar>b\<bar>)"

fun skip_scaling_list :: "nat \<Rightarrow> int \<Rightarrow> int \<Rightarrow> bytes \<Rightarrow> nat \<Rightarrow> nat" where
  "skip_scaling_list 0 last' next' d pos = pos"
| "skip_scaling_list (Suc n) last' next' d pos =
     (let (next1, pos1) = (if next' \<noteq> 0 then (case br_se d pos of (delta, p) \<Rightarrow> (rust_rem (last' + delta + 256) 256, p)) else (next', pos))
      in skip_scaling_list n (if next1 = 0 then last' else next1) next1 d pos1)"

fun skip_scaling_matrix :: "nat \<Rightarrow> nat \<Rightarrow> bytes \<Rightarrow> nat \<Rightarrow> nat" where
  "skip_scaling_matrix 0 i d pos = pos"
| "skip_scaling_matrix (Suc n) i d pos =
     (case br_bit d pos of (b, pos') \<Rightarrow>
        skip_scaling_matrix n (i + 1) d (if b = 1 then skip_scaling_list (if i < 6 then 16 else 64) 8 8 d pos' else pos'))"

definition HIGH_PROFILES :: "u32 set" where
  "HIGH_PROFILES = {100, 110, 122, 244, 44, 83, 86, 118, 128, 138, 139, 134, 135}"

text \<open>The chroma and scaling-list syntax of the high profiles: the colour-plane flag and the position after it.\<close>

definition parse_high :: "bytes \<Rightarrow> nat \<Rightarrow> bool \<times> nat" where
  "parse_high d pos =
     (let (chroma, p) = br_ue d pos;
          (separate, p) = (if chroma = 3 then (case br_bit d p of (b, q) \<Rightarrow> (b = 1, q)) else (False, p));
          (_, p) = br_ue d p;
          (_, p) = br_ue d p;
          (_, p) = br_bit d p;
          (present, p) = br_bit d p
      in (separate, if present = 1 then skip_scaling_matrix (if chroma = 3 then 12 else 8) 0 d p else p))"

definition parse_sps :: "bytes \<Rightarrow> sps_poc option" where
  "parse_sps sps_nal =
     (if sps_nal = [] \<or> hd sps_nal AND 31 \<noteq> 7 then None
      else
        (let d = unescape_rbsp (tl sps_nal);
             (profile, p) = br_u 8 d 0;
             (_, p) = br_u 8 d p;
             (_, p) = br_u 8 d p;
             (_, p) = br_ue d p;
             (separate, p) = (if profile \<in> HIGH_PROFILES then parse_high d p else (False, p));
             (frame_num, p) = br_ue d p;
             (poc_type, p) = br_ue d p
         in if poc_type \<noteq> 0 then None
            else
              (let (lsb, p) = br_ue d p;
                   (_, p) = br_ue d p;
                   (_, p) = br_bit d p;
                   (_, p) = br_ue d p;
                   (_, p) = br_ue d p;
                   (mbs_only, p) = br_bit d p
               in Some \<lparr>log2_max_frame_num = frame_num + 4, log2_max_poc_lsb = lsb + 4,
                        frame_mbs_only = (mbs_only = 1), separate_colour_plane = separate\<rparr>)))"

definition slice_poc_lsb :: "bytes \<Rightarrow> sps_poc \<Rightarrow> (bool \<times> u32) option" where
  "slice_poc_lsb nal sps =
     (if nal = [] then None
      else if hd nal AND 31 \<noteq> 1 \<and> hd nal AND 31 \<noteq> 5 then None
      else
        (let is_idr = (hd nal AND 31 = 5);
             d = unescape_rbsp (tl nal);
             (_, p) = br_ue d 0;
             (_, p) = br_ue d p;
             (_, p) = br_ue d p;
             p = (if separate_colour_plane sps then snd (br_u 2 d p) else p);
             (_, p) = br_u (unat (log2_max_frame_num sps)) d p;
             p = (if \<not> frame_mbs_only sps then (case br_bit d p of (f, q) \<Rightarrow> if f = 1 then snd (br_bit d q) else q) else p);
             p = (if is_idr then snd (br_ue d p) else p)
         in Some (is_idr, fst (br_u (unat (log2_max_poc_lsb sps)) d p))))"

subsection \<open>The tracker\<close>

record poc_tracker =
  max_poc_lsb :: int
  prev_msb :: int
  prev_lsb :: int

definition poc_tracker_new :: "sps_poc \<Rightarrow> poc_tracker" where
  "poc_tracker_new sps = \<lparr>max_poc_lsb = sint (push_bit (unat (log2_max_poc_lsb sps) mod 32) (1 :: u32)), prev_msb = 0, prev_lsb = 0\<rparr>"

definition tracker_poc :: "bool \<Rightarrow> u32 \<Rightarrow> u8 \<Rightarrow> poc_tracker \<Rightarrow> poc_tracker \<times> int" where
  "tracker_poc is_idr lsb ref_idc t =
     (let t = (if is_idr then t\<lparr>prev_msb := 0, prev_lsb := 0\<rparr> else t);
          lsb = sint lsb;
          half = max_poc_lsb t div 2;
          msb = (if lsb < prev_lsb t \<and> half \<le> prev_lsb t - lsb then prev_msb t + max_poc_lsb t
                 else if prev_lsb t < lsb \<and> half < lsb - prev_lsb t then prev_msb t - max_poc_lsb t
                 else prev_msb t);
          poc = msb + lsb
      in (if ref_idc \<noteq> 0 then t\<lparr>prev_msb := msb, prev_lsb := lsb\<rparr> else t, poc))"

definition nal_ref_idc :: "u8 \<Rightarrow> u8" where
  "nal_ref_idc h = drop_bit 5 h AND 3"

subsection \<open>Emulation prevention\<close>

text \<open>The encoder's side, from the H.264 specification: after two zero bytes, a byte of at most 3
  is preceded by a 3.\<close>

fun escape :: "nat \<Rightarrow> bytes \<Rightarrow> bytes" where
  "escape zeros [] = []"
| "escape zeros (b # rest) =
     (if 2 \<le> zeros \<and> b \<le> 3 then 3 # b # escape (if b = 0 then 1 else 0) rest
      else b # escape (if b = 0 then zeros + 1 else 0) rest)"

lemma unescape_escape: "unescape zeros (escape zeros p) = p"
proof (induction p arbitrary: zeros)
  case (Cons b p)
  have "unescape 0 (b # q) = b # unescape (if b = 0 then 1 else 0) q" for q by simp
  moreover have "b = 3 \<Longrightarrow> b \<le> 3" by simp
  ultimately show ?case using Cons.IH by auto
qed simp

text \<open>
  Removing emulation prevention undoes exactly what an H.264 encoder inserts, for every
  payload, so the header fields are read from the bits the encoder wrote.
\<close>

theorem rbsp_roundtrip: "unescape_rbsp (escape 0 payload) = payload"
  by (simp add: unescape_rbsp_def unescape_escape)

subsection \<open>The order count is recovered\<close>

text \<open>The tracker at a reference picture of order count \<open>R\<close>.\<close>

definition tracks :: "int \<Rightarrow> int \<Rightarrow> poc_tracker \<Rightarrow> bool" where
  "tracks mx R t \<longleftrightarrow> max_poc_lsb t = mx \<and> prev_lsb t = R mod mx \<and> prev_msb t + prev_lsb t = R"

lemma mod_unique_int: "0 \<le> r \<Longrightarrow> r < mx \<Longrightarrow> P = k * mx + r \<Longrightarrow> P mod mx = (r :: int)"
  by simp

lemma msb_choice:
  fixes mx h R P :: int
  assumes mx: "mx = 2 * h" and range: "- h < P - R" "P - R \<le> h"
  shows "(if P mod mx < R mod mx \<and> h \<le> R mod mx - P mod mx then R - R mod mx + mx
          else if R mod mx < P mod mx \<and> h < P mod mx - R mod mx then R - R mod mx - mx
          else R - R mod mx) + P mod mx = P"
proof -
  define a q where "a = R mod mx" and "q = R div mx"
  have pos: "0 < mx" using range mx by linarith
  have a: "0 \<le> a" "a < mx" using pos by (simp_all add: a_def)
  have R: "R = q * mx + a" unfolding a_def q_def by (simp only: div_mult_mod_eq)
  consider "a + (P - R) < 0" | "0 \<le> a + (P - R)" "a + (P - R) < mx" | "mx \<le> a + (P - R)" by linarith
  then show ?thesis
  proof cases
    case 1
    have "P mod mx = a + (P - R) + mx"
      by (rule mod_unique_int [of _ _ _ "q - 1"]) (use 1 a range mx R in \<open>linarith | simp add: algebra_simps\<close>)+
    then show ?thesis unfolding a_def [symmetric] using 1 range mx by (auto split: if_splits)
  next
    case 2
    have "P mod mx = a + (P - R)"
      by (rule mod_unique_int [of _ _ _ q]) (use 2 a range mx R in \<open>linarith | simp add: algebra_simps\<close>)+
    then show ?thesis unfolding a_def [symmetric] using 2 range mx by (auto split: if_splits)
  next
    case 3
    have "P mod mx = a + (P - R) - mx"
      by (rule mod_unique_int [of _ _ _ "q + 1"]) (use 3 a range mx R in \<open>linarith | simp add: algebra_simps\<close>)+
    then show ?thesis unfolding a_def [symmetric] using 3 range mx by (auto split: if_splits)
  qed
qed

lemma two_int: "(2 :: int) \<noteq> 0"
  by simp

lemma tracker_step:
  assumes "tracks (2 * h) R t" and "- h < P - (if idr then 0 else R)" and "P - (if idr then 0 else R) \<le> h"
    and "sint lsb = P mod (2 * h)"
  shows "snd (tracker_poc idr lsb ref t) = P
    \<and> tracks (2 * h) (if ref \<noteq> 0 then P else if idr then 0 else R) (fst (tracker_poc idr lsb ref t))"
proof -
  let ?R = "if idr then 0 else R"
  define t0 where "t0 = (if idr then t\<lparr>prev_msb := 0, prev_lsb := 0\<rparr> else t)"
  have t0: "prev_lsb t0 = ?R mod (2 * h)" "prev_msb t0 = ?R - ?R mod (2 * h)" "max_poc_lsb t0 = 2 * h"
    using assms(1) by (auto simp: tracks_def t0_def)
  define msb where "msb = (if P mod (2 * h) < ?R mod (2 * h) \<and> h \<le> ?R mod (2 * h) - P mod (2 * h) then ?R - ?R mod (2 * h) + 2 * h
          else if ?R mod (2 * h) < P mod (2 * h) \<and> h < P mod (2 * h) - ?R mod (2 * h) then ?R - ?R mod (2 * h) - 2 * h
          else ?R - ?R mod (2 * h))"
  have msb: "msb + P mod (2 * h) = P" unfolding msb_def using assms(2,3) by (rule msb_choice [OF refl])
  have "tracker_poc idr lsb ref t = (if ref \<noteq> 0 then t0\<lparr>prev_msb := msb, prev_lsb := P mod (2 * h)\<rparr> else t0, P)"
    unfolding tracker_poc_def Let_def t0_def [symmetric] t0 assms(4) nonzero_mult_div_cancel_left [OF two_int] msb_def [symmetric] msb ..
  moreover have "tracks (2 * h) ?R t0" using t0 by (simp add: tracks_def)
  ultimately show ?thesis using msb t0(3) by (simp add: tracks_def)
qed

text \<open>Frames in decoding order with their true order counts: whether each is an IDR picture,
  its count, and its reference bits. Consecutive counts lie within half the coded range of the
  last reference picture, as the H.264 specification demands.\<close>

fun frames_ok :: "int \<Rightarrow> int \<Rightarrow> (bool \<times> int \<times> u8) list \<Rightarrow> bool" where
  "frames_ok h R [] \<longleftrightarrow> True"
| "frames_ok h R ((idr, P, ref) # fs) \<longleftrightarrow>
     - h < P - (if idr then 0 else R) \<and> P - (if idr then 0 else R) \<le> h
     \<and> frames_ok h (if ref \<noteq> 0 then P else if idr then 0 else R) fs"

fun track_all :: "(bool \<times> u32 \<times> u8) list \<Rightarrow> poc_tracker \<Rightarrow> int list" where
  "track_all [] t = []"
| "track_all ((idr, lsb, ref) # fs) t = (case tracker_poc idr lsb ref t of (t', poc) \<Rightarrow> poc # track_all fs t')"

lemma track_all_ok:
  "tracks (2 * h) R t \<Longrightarrow> frames_ok h R fs \<Longrightarrow> (\<And>P. sint (f P :: u32) = P mod (2 * h))
   \<Longrightarrow> track_all (map (\<lambda>(idr, P, ref). (idr, f P, ref)) fs) t = map (\<lambda>(_, P, _). P) fs"
proof (induction fs arbitrary: R t)
  case (Cons fr fs)
  obtain idr P ref where fr: "fr = (idr, P, ref)" by (cases fr)
  have "snd (tracker_poc idr (f P) ref t) = P"
    "tracks (2 * h) (if ref \<noteq> 0 then P else if idr then 0 else R) (fst (tracker_poc idr (f P) ref t))"
    using tracker_step [of h R t P idr "f P" ref] Cons.prems by (simp_all add: fr)
  with Cons.IH Cons.prems(2,3) show ?case by (simp add: fr split_beta)
qed simp

lemma sint_small:
  assumes "0 \<le> x" "x < 2 ^ 31"
  shows "sint (word_of_int x :: u32) = x"
  using assms by (simp add: sint_sbintrunc' signed_take_bit_int_eq_self)

text \<open>
  C40: The tracker recovers presentation order exactly. From the low bits of the order counts
  alone, of any length from 4 to 16 bits, it returns the counts the encoder meant for every
  picture of the stream, across IDR pictures, disposable pictures and wrap-arounds in either
  direction, as long as each count is within half the coded range of the last reference.
\<close>

theorem poc_recovered:
  assumes "4 \<le> unat (log2_max_poc_lsb sps)" and "unat (log2_max_poc_lsb sps) \<le> 16"
    and "frames_ok (2 ^ (unat (log2_max_poc_lsb sps) - 1)) 0 fs"
  shows "track_all (map (\<lambda>(idr, P, ref). (idr, word_of_int (P mod 2 ^ unat (log2_max_poc_lsb sps)), ref)) fs)
      (poc_tracker_new sps) = map (\<lambda>(_, P, _). P) fs"
proof -
  let ?k = "unat (log2_max_poc_lsb sps)"
  have two: "(2 :: int) ^ ?k = 2 * 2 ^ (?k - 1)" using assms(1) by (cases ?k) simp_all
  have small: "(2 :: int) ^ ?k \<le> 2 ^ 16" using assms(2) by (intro power_increasing) simp_all
  have "push_bit (?k mod 32) (1 :: u32) = word_of_int (2 ^ ?k)" using assms(2) by (simp add: push_bit_eq_mult)
  moreover have "sint (word_of_int (2 ^ ?k) :: u32) = 2 ^ ?k" by (rule sint_small) (use small in simp_all)
  ultimately have "sint (push_bit (?k mod 32) (1 :: u32)) = 2 ^ ?k" by (simp only:)
  then have "tracks (2 * 2 ^ (?k - 1)) 0 (poc_tracker_new sps)"
    by (simp add: tracks_def poc_tracker_new_def two)
  moreover have "sint (word_of_int (P mod 2 ^ ?k) :: u32) = P mod (2 * 2 ^ (?k - 1))" for P
  proof -
    have b: "P mod 2 ^ ?k < 2 ^ ?k" by (rule pos_mod_bound) simp
    have "0 \<le> P mod 2 ^ ?k" by simp
    moreover have "P mod 2 ^ ?k < 2 ^ 31" by (rule order_less_le_trans [OF b order_trans [OF small]]) simp
    ultimately show ?thesis unfolding two [symmetric] by (rule sint_small)
  qed
  ultimately show ?thesis
    by (intro track_all_ok [where h = "2 ^ (?k - 1)" and R = 0 and f = "\<lambda>P. word_of_int (P mod 2 ^ ?k)"] assms(3))
qed

theorem poc_recovered_witness:
  "track_all (map (\<lambda>(idr, P, ref). (idr, word_of_int (P mod 2 ^ 4), ref))
      [(True, 0, 3), (False, 8, 2), (False, 4, 2), (False, 2, 0), (False, 12, 2), (False, 18, 2)])
     (poc_tracker_new \<lparr>log2_max_frame_num = 4, log2_max_poc_lsb = 4, frame_mbs_only = True, separate_colour_plane = False\<rparr>)
   = [0, 8, 4, 2, 12, 18]"
  using poc_recovered [of "\<lparr>log2_max_frame_num = 4, log2_max_poc_lsb = 4, frame_mbs_only = True, separate_colour_plane = False\<rparr>"
      "[(True, 0, 3), (False, 8, 2), (False, 4, 2), (False, 2, 0), (False, 12, 2), (False, 18, 2)]"]
  by simp

end
