(* ===== verification/Fragment_Builder.thy ===== *)
theory Fragment_Builder
  imports Fmp4_Props H264_Poc "HOL-Library.Sublist"
begin

section \<open>The fragment builder\<close>

text \<open>
  Models \<open>FragmentBuilder\<close> of \<open>src/infra/segmenter/src/fmp4.rs\<close>: access units and Opus frames go
  in, fragments come out at keyframes and, in low-latency mode, at the part cadence. Signed
  64-bit quantities (times in ticks, decode indices, picture order counts) are integers; the
  one product that can leave their range saturates as in the source. \<open>/\<close> on them truncates.
\<close>

subsection \<open>State\<close>

definition MAX_PENDING_AUDIO :: nat where "MAX_PENDING_AUDIO = 200"
definition POC_STEP_WARMUP_FRAMES :: int where "POC_STEP_WARMUP_FRAMES = 12"
definition I64_MAX :: int where "I64_MAX = 2 ^ 63 - 1"
definition I64_MIN :: int where "I64_MIN = - (2 ^ 63)"

record segment =
  sg_seq :: u64
  sg_id :: segment_id
  sg_bytes :: bytes

record poc_mapper =
  pm_sps :: sps_poc
  pm_tracker :: poc_tracker
  pm_decode_index :: int
  pm_gop_start_index :: int
  pm_frame_dur_ticks :: int
  pm_last_rtp_us :: "int option"
  pm_poc_step :: int
  pm_reorder_delay :: int

record audio_track =
  at_channels :: u8
  at_pending :: "audio_frame list"
  at_base_decode_time :: u64

record fragment_builder =
  fb_params :: h264_params
  fb_seq :: u64
  fb_base_decode_time :: u64
  fb_pending :: "au list"
  fb_pending_ticks :: u64
  fb_part_ticks :: "u32 option"
  fb_pts_mode :: bool
  fb_last_frame_dur :: u32
  fb_pending_pts_lo :: int
  fb_pending_pts_hi :: int
  fb_poc :: "poc_mapper option"
  fb_poc_init :: bool
  fb_poc_active :: bool
  fb_audio :: "audio_track option"

definition fb_new :: "h264_params \<Rightarrow> fragment_builder" where
  "fb_new params = \<lparr>fb_params = params, fb_seq = 0, fb_base_decode_time = 0, fb_pending = [], fb_pending_ticks = 0,
     fb_part_ticks = None, fb_pts_mode = False, fb_last_frame_dur = 3000, fb_pending_pts_lo = I64_MAX,
     fb_pending_pts_hi = I64_MIN, fb_poc = None, fb_poc_init = False, fb_poc_active = False, fb_audio = None\<rparr>"

definition fb_new_ll :: "h264_params \<Rightarrow> u32 \<Rightarrow> fragment_builder" where
  "fb_new_ll params part_ms =
     (fb_new params)\<lparr>fb_part_ticks := Some (ucast (ucast (max part_ms 20) * ucast TIMESCALE div 1000 :: u64))\<rparr>"

definition with_opus_audio :: "u8 \<Rightarrow> fragment_builder \<Rightarrow> fragment_builder" where
  "with_opus_audio channels b =
     b\<lparr>fb_audio := Some \<lparr>at_channels = max channels 1, at_pending = [], at_base_decode_time = 0\<rparr>\<rparr>"

definition has_audio :: "fragment_builder \<Rightarrow> bool" where
  "has_audio b \<longleftrightarrow> fb_audio b \<noteq> None"

definition init_segment :: "fragment_builder \<Rightarrow> bytes" where
  "init_segment b = init_bytes (fb_params b) (map_option at_channels (fb_audio b))"

text \<open>Truncating division and the saturating product.\<close>

definition rust_div :: "int \<Rightarrow> int \<Rightarrow> int" where
  "rust_div a b = sgn a * sgn b * (\<bar>a\<bar> div \<bar>b\<bar>)"

definition i64_sat :: "int \<Rightarrow> int" where
  "i64_sat x = max I64_MIN (min x I64_MAX)"

subsection \<open>Emitting a fragment\<close>

text \<open>A positive value of the mapper, or a default.\<close>

definition pm_or :: "int \<Rightarrow> (poc_mapper \<Rightarrow> int) \<Rightarrow> poc_mapper option \<Rightarrow> int" where
  "pm_or d sel m = (case m of Some m \<Rightarrow> if 0 < sel m then sel m else d | None \<Rightarrow> d)"

definition presentation_index :: "int \<Rightarrow> au \<Rightarrow> int" where
  "presentation_index step a = au_poc_gop a + rust_div (au_poc_val a) step"

definition poc_delay :: "int \<Rightarrow> au list \<Rightarrow> poc_mapper option \<Rightarrow> int" where
  "poc_delay step aus m =
     (if (case m of Some m \<Rightarrow> 0 \<le> pm_reorder_delay m | None \<Rightarrow> False) then pm_reorder_delay (the m)
      else max (case map (\<lambda>a. au_poc_dec a - presentation_index step a) aus of [] \<Rightarrow> 0 | ds \<Rightarrow> Max (set ds)) 0)"

definition poc_time :: "int \<Rightarrow> int \<Rightarrow> int \<Rightarrow> au \<Rightarrow> au" where
  "poc_time fd step delay a =
     a\<lparr>au_duration := of_int fd,
       au_comp_offset := of_int (max ((presentation_index step a - au_poc_dec a + delay) * fd) 0)\<rparr>"

definition poc_timing :: "au list \<Rightarrow> fragment_builder \<Rightarrow> fragment_builder \<times> au list" where
  "poc_timing aus b =
     (let fd = pm_or 3000 pm_frame_dur_ticks (fb_poc b);
          step = pm_or 2 pm_poc_step (fb_poc b);
          delay = poc_delay step aus (fb_poc b)
      in (b\<lparr>fb_poc := map_option (\<lambda>m. m\<lparr>pm_reorder_delay := delay\<rparr>) (fb_poc b)\<rparr>, map (poc_time fd step delay) aus))"

definition fill_timing :: "au list \<Rightarrow> fragment_builder \<Rightarrow> fragment_builder \<times> au list" where
  "fill_timing aus b =
     (if fb_poc_active b then poc_timing aus b
      else if fb_pts_mode b then
        (let (aus', fd) = compute_timing aus (fb_last_frame_dur b) in (b\<lparr>fb_last_frame_dur := fd\<rparr>, aus'))
      else (b, aus))"

definition take_audio :: "fragment_builder \<Rightarrow> (audio_frame list \<times> u64) option" where
  "take_audio b =
     (case fb_audio b of
        Some a \<Rightarrow> if at_pending a \<noteq> [] then Some (at_pending a, at_base_decode_time a) else None
      | None \<Rightarrow> None)"

definition emit :: "libs \<Rightarrow> fragment_builder \<Rightarrow> fragment_builder \<times> segment option" where
  "emit L b =
     (if fb_pending b = [] then (b, None)
      else
        (let b1 = b\<lparr>fb_pending := [], fb_pending_ticks := 0, fb_pending_pts_lo := I64_MAX, fb_pending_pts_hi := I64_MIN\<rparr>;
             (b2, aus) = fill_timing (fb_pending b) b1;
             seq = fb_seq b2;
             audio = take_audio b2;
             data = moof seq (fb_base_decode_time b2) aus audio @ mdat aus (map_option fst audio);
             base = fb_base_decode_time b2 + (\<Sum>a\<leftarrow>aus. ucast (au_duration a));
             track = (case (fb_audio b2, audio) of
                        (Some a, Some (frames, _)) \<Rightarrow>
                          Some (a\<lparr>at_pending := [],
                                  at_base_decode_time := at_base_decode_time a + (\<Sum>f\<leftarrow>frames. ucast (af_duration f))\<rparr>)
                      | (t, _) \<Rightarrow> t)
         in (b2\<lparr>fb_seq := seq + 1, fb_base_decode_time := base, fb_audio := track\<rparr>,
             Some \<lparr>sg_seq = seq, sg_id = segment_id_of L data, sg_bytes = data\<rparr>)))"

definition flush :: "libs \<Rightarrow> fragment_builder \<Rightarrow> fragment_builder \<times> segment option" where
  "flush L b = (if fb_pending b = [] then (b, None) else emit L b)"

subsection \<open>Pushing\<close>

definition close_at_keyframe :: "libs \<Rightarrow> bool \<Rightarrow> fragment_builder \<Rightarrow> fragment_builder \<times> segment option" where
  "close_at_keyframe L keyframe b = (if keyframe \<and> fb_pending b \<noteq> [] then emit L b else (b, None))"

definition push_au :: "libs \<Rightarrow> bytes \<Rightarrow> u32 \<Rightarrow> bool \<Rightarrow> fragment_builder \<Rightarrow> fragment_builder \<times> segment option" where
  "push_au L nal duration keyframe b =
     (let (b1, closed) = close_at_keyframe L keyframe b;
          avcc = annexb_to_avcc nal;
          b2 = (if avcc \<noteq> [] then
                  b1\<lparr>fb_pending := fb_pending b1 @ [\<lparr>au_avcc = avcc, au_pts = 0, au_duration = duration, au_comp_offset = 0,
                       au_keyframe = keyframe, au_poc_dec = 0, au_poc_gop = 0, au_poc_val = 0\<rparr>],
                     fb_pending_ticks := fb_pending_ticks b1 + ucast duration\<rparr>
                else b1)
      in if closed = None \<and> (case fb_part_ticks b2 of Some pt \<Rightarrow> fb_pending b2 \<noteq> [] \<and> ucast pt \<le> fb_pending_ticks b2 | None \<Rightarrow> False)
         then emit L b2
         else (b2, closed))"

definition poc_note_rtp :: "int \<Rightarrow> fragment_builder \<Rightarrow> fragment_builder" where
  "poc_note_rtp pts_us b =
     (case fb_poc b of
        None \<Rightarrow> b
      | Some m \<Rightarrow>
          if pm_frame_dur_ticks m = 0 then
            (let d = (case pm_last_rtp_us m of
                        Some last' \<Rightarrow>
                          if 1000 \<le> pts_us - last' \<and> pts_us - last' \<le> 200000
                          then max ((pts_us - last') * uint TIMESCALE div 1000000) 1 else pm_frame_dur_ticks m
                      | None \<Rightarrow> pm_frame_dur_ticks m)
             in b\<lparr>fb_poc := Some (m\<lparr>pm_frame_dur_ticks := d, pm_last_rtp_us := Some pts_us\<rparr>)\<rparr>)
          else b)"

definition poc_setup :: "fragment_builder \<Rightarrow> fragment_builder" where
  "poc_setup b =
     (if fb_poc_init b then b
      else
        (case parse_sps (hp_sps (fb_params b)) of
           Some sps \<Rightarrow>
             b\<lparr>fb_poc_init := True,
               fb_poc := Some \<lparr>pm_sps = sps, pm_tracker = poc_tracker_new sps, pm_decode_index = 0, pm_gop_start_index = 0,
                 pm_frame_dur_ticks = 0, pm_last_rtp_us = None, pm_poc_step = 0, pm_reorder_delay = -1\<rparr>\<rparr>
         | None \<Rightarrow> b\<lparr>fb_poc_init := True\<rparr>))"

definition poc_record :: "bytes \<Rightarrow> bool \<Rightarrow> fragment_builder \<Rightarrow> fragment_builder \<times> (int \<times> int \<times> int) option" where
  "poc_record nal keyframe b0 =
     (let b = poc_setup b0
      in case fb_poc b of
           None \<Rightarrow> (b, None)
         | Some m \<Rightarrow>
             (case first_slice_nal nal of
                None \<Rightarrow> (b, None)
              | Some slice_nal \<Rightarrow>
                  (case slice_poc_lsb slice_nal (pm_sps m) of
                     None \<Rightarrow> (b, None)
                   | Some (is_idr, lsb) \<Rightarrow>
                       (let d = pm_decode_index m;
                            gop = (if is_idr \<or> keyframe then d else pm_gop_start_index m);
                            (tracker, poc) = tracker_poc is_idr lsb (nal_ref_idc (hd slice_nal)) (pm_tracker m);
                            step = (if 0 < poc then au_gcd (pm_poc_step m) poc else pm_poc_step m)
                        in (b\<lparr>fb_poc := Some (m\<lparr>pm_tracker := tracker, pm_gop_start_index := gop, pm_poc_step := step,
                                               pm_decode_index := d + 1\<rparr>)\<rparr>,
                            Some (d, gop, poc))))))"

definition part_span :: "fragment_builder \<Rightarrow> int" where
  "part_span b =
     (if fb_poc_active b then int (length (fb_pending b)) * pm_or 3000 pm_frame_dur_ticks (fb_poc b)
      else max (fb_pending_pts_hi b - fb_pending_pts_lo b) 0)"

definition push_au_pts :: "libs \<Rightarrow> bytes \<Rightarrow> int \<Rightarrow> bool \<Rightarrow> fragment_builder \<Rightarrow> fragment_builder \<times> segment option" where
  "push_au_pts L nal pts_us keyframe b =
     (let (b1, poc) = poc_record nal keyframe (poc_note_rtp pts_us (b\<lparr>fb_pts_mode := True\<rparr>));
          pts = rust_div (i64_sat (pts_us * uint TIMESCALE)) 1000000;
          (b2, closed) = close_at_keyframe L keyframe b1;
          avcc = annexb_to_avcc nal;
          b3 = (if avcc \<noteq> [] then
                  (let (poc_dec, poc_gop, poc_val) = (case poc of Some p \<Rightarrow> p | None \<Rightarrow> (0, 0, 0))
                   in b2\<lparr>fb_poc_active := (fb_poc_active b2 \<or> poc \<noteq> None),
                         fb_pending := fb_pending b2 @ [\<lparr>au_avcc = avcc, au_pts = pts, au_duration = 0, au_comp_offset = 0,
                           au_keyframe = keyframe, au_poc_dec = poc_dec, au_poc_gop = poc_gop, au_poc_val = poc_val\<rparr>],
                         fb_pending_pts_lo := min (fb_pending_pts_lo b2) pts,
                         fb_pending_pts_hi := max (fb_pending_pts_hi b2) pts\<rparr>)
                else b2);
          warmed = (case fb_poc b3 of Some m \<Rightarrow> POC_STEP_WARMUP_FRAMES \<le> pm_decode_index m | None \<Rightarrow> True)
      in if closed = None \<and> (case fb_part_ticks b3 of
              Some pt \<Rightarrow> warmed \<and> fb_pending b3 \<noteq> [] \<and> uint pt \<le> part_span b3 | None \<Rightarrow> False)
         then emit L b3
         else (b3, closed))"

definition push_opus :: "bytes \<Rightarrow> u32 \<Rightarrow> fragment_builder \<Rightarrow> fragment_builder" where
  "push_opus frame duration b =
     (case fb_audio b of
        None \<Rightarrow> b
      | Some a \<Rightarrow>
          if frame = [] then b
          else
            (let a1 = (if MAX_PENDING_AUDIO \<le> length (at_pending a) then
                         a\<lparr>at_pending := tl (at_pending a),
                           at_base_decode_time := at_base_decode_time a + ucast (af_duration (hd (at_pending a)))\<rparr>
                       else a)
             in b\<lparr>fb_audio := Some (a1\<lparr>at_pending := at_pending a1 @ [\<lparr>af_data = frame, af_duration = max duration 1\<rparr>]\<rparr>)\<rparr>))"

subsection \<open>Sequences of operations\<close>

datatype fb_op = PushAu bytes u32 bool | PushAuPts bytes int bool | PushOpus bytes u32 | Flush

fun fb_step :: "libs \<Rightarrow> fb_op \<Rightarrow> fragment_builder \<Rightarrow> fragment_builder \<times> segment option" where
  "fb_step L (PushAu nal duration keyframe) b = push_au L nal duration keyframe b"
| "fb_step L (PushAuPts nal pts keyframe) b = push_au_pts L nal pts keyframe b"
| "fb_step L (PushOpus frame duration) b = (push_opus frame duration b, None)"
| "fb_step L Flush b = flush L b"

fun fb_run :: "libs \<Rightarrow> fb_op list \<Rightarrow> fragment_builder \<Rightarrow> fragment_builder \<times> segment list" where
  "fb_run L [] b = (b, [])"
| "fb_run L (op # ops) b =
     (case fb_step L op b of (b1, s) \<Rightarrow> case fb_run L ops b1 of (b2, segs) \<Rightarrow> (b2, (case s of Some x \<Rightarrow> [x] | None \<Rightarrow> []) @ segs))"

text \<open>What the operations put in: the units that carry media, with their keyframe flag, and the
  Opus frames.\<close>

type_synonym unit' = "bytes \<times> bool"

fun units_in :: "fb_op \<Rightarrow> unit' list" where
  "units_in (PushAu nal _ keyframe) = (if annexb_to_avcc nal = [] then [] else [(annexb_to_avcc nal, keyframe)])"
| "units_in (PushAuPts nal _ keyframe) = (if annexb_to_avcc nal = [] then [] else [(annexb_to_avcc nal, keyframe)])"
| "units_in _ = []"

fun opus_in :: "fb_op \<Rightarrow> audio_frame list" where
  "opus_in (PushOpus frame duration) = (if frame = [] then [] else [\<lparr>af_data = frame, af_duration = max duration 1\<rparr>])"
| "opus_in _ = []"

record frag =
  fr_seq :: u64
  fr_base :: u64
  fr_aus :: "au list"
  fr_audio :: "(audio_frame list \<times> u64) option"

definition seg_of :: "libs \<Rightarrow> frag \<Rightarrow> segment" where
  "seg_of L f =
     (let data = fragment_bytes (fr_seq f) (fr_base f) (fr_aus f) (fr_audio f)
      in \<lparr>sg_seq = fr_seq f, sg_id = segment_id_of L data, sg_bytes = data\<rparr>)"

definition units_of :: "au list \<Rightarrow> unit' list" where
  "units_of aus = map (\<lambda>a. (au_avcc a, au_keyframe a)) aus"

definition ticks_of :: "au list \<Rightarrow> u64" where
  "ticks_of aus = (\<Sum>a\<leftarrow>aus. ucast (au_duration a))"

definition audio_ticks :: "audio_frame list \<Rightarrow> u64" where
  "audio_ticks fs = (\<Sum>f\<leftarrow>fs. ucast (af_duration f))"

definition key_first :: "unit' list \<Rightarrow> bool" where
  "key_first us \<longleftrightarrow> (\<forall>u \<in> set (tl us). \<not> snd u)"

definition frag_audio :: "frag \<Rightarrow> audio_frame list" where
  "frag_audio f = (case fr_audio f of Some (fs, _) \<Rightarrow> fs | None \<Rightarrow> [])"

text \<open>A block of frames at its place on the audio timeline.\<close>

definition placed :: "audio_frame list \<Rightarrow> audio_frame list \<times> u64 \<Rightarrow> bool" where
  "placed audio_in = (\<lambda>(fs, base). \<exists>pre post. audio_in = pre @ fs @ post \<and> base = audio_ticks pre)"

fun contiguous :: "u64 \<Rightarrow> u64 \<Rightarrow> frag list \<Rightarrow> bool" where
  "contiguous seq base [] \<longleftrightarrow> True"
| "contiguous seq base (f # fs) \<longleftrightarrow> fr_seq f = seq \<and> fr_base f = base \<and> contiguous (seq + 1) (base + ticks_of (fr_aus f)) fs"

definition frag_ok :: "audio_frame list \<Rightarrow> frag \<Rightarrow> bool" where
  "frag_ok audio_in f \<longleftrightarrow> fr_aus f \<noteq> [] \<and> key_first (units_of (fr_aus f))
     \<and> (case fr_audio f of Some (fs, base) \<Rightarrow> fs \<noteq> [] \<and> length fs \<le> MAX_PENDING_AUDIO \<and> placed audio_in (fs, base) | None \<Rightarrow> True)"

definition audio_ok :: "audio_frame list \<Rightarrow> audio_frame list \<Rightarrow> audio_track option \<Rightarrow> bool" where
  "audio_ok audio_in emitted t =
     (case t of
        Some a \<Rightarrow> length (at_pending a) \<le> MAX_PENDING_AUDIO
          \<and> (\<exists>pre. audio_in = pre @ at_pending a \<and> at_base_decode_time a = audio_ticks pre \<and> subseq emitted pre)
      | None \<Rightarrow> emitted = [])"

definition trace_ok :: "unit' list \<Rightarrow> audio_frame list \<Rightarrow> frag list \<Rightarrow> fragment_builder \<Rightarrow> bool" where
  "trace_ok aus_in audio_in frags b \<longleftrightarrow>
     contiguous 0 0 frags \<and> fb_seq b = of_nat (length frags) \<and> fb_base_decode_time b = (\<Sum>f\<leftarrow>frags. ticks_of (fr_aus f))
     \<and> concat (map (units_of \<circ> fr_aus) frags) @ units_of (fb_pending b) = aus_in
     \<and> key_first (units_of (fb_pending b)) \<and> (\<forall>f \<in> set frags. frag_ok audio_in f)
     \<and> audio_ok audio_in (concat (map frag_audio frags)) (fb_audio b)"

subsection \<open>Emission\<close>

lemma compute_timing_units: "units_of (fst (compute_timing aus fb)) = units_of aus"
proof (cases "aus = []")
  case False
  then show ?thesis by (auto simp: compute_timing_eq units_of_def intro!: nth_equalityI)
qed (simp add: compute_timing_def)

lemma fill_timing_frame:
  assumes "fill_timing aus b = (b', aus')"
  shows "units_of aus' = units_of aus" "fb_seq b' = fb_seq b" "fb_base_decode_time b' = fb_base_decode_time b"
    "fb_audio b' = fb_audio b" "fb_pending b' = fb_pending b"
  using assms compute_timing_units [of aus "fb_last_frame_dur b"]
  by (auto simp: fill_timing_def poc_timing_def Let_def units_of_def poc_time_def split: if_splits prod.splits)

definition audio_taken :: "audio_track option \<Rightarrow> audio_track option" where
  "audio_taken t = map_option (\<lambda>a. a\<lparr>at_pending := [], at_base_decode_time := at_base_decode_time a + audio_ticks (at_pending a)\<rparr>) t"

lemma emit_fragment:
  assumes "fb_pending b \<noteq> []"
  obtains b' f where "emit L b = (b', Some (seg_of L f))" "fr_seq f = fb_seq b" "fr_base f = fb_base_decode_time b"
    "units_of (fr_aus f) = units_of (fb_pending b)" "fr_audio f = take_audio b"
    "fb_pending b' = []" "fb_seq b' = fb_seq b + 1" "fb_base_decode_time b' = fb_base_decode_time b + ticks_of (fr_aus f)"
    "fb_audio b' = audio_taken (fb_audio b)"
proof -
  let ?b1 = "b\<lparr>fb_pending := [], fb_pending_ticks := 0, fb_pending_pts_lo := I64_MAX, fb_pending_pts_hi := I64_MIN\<rparr>"
  obtain b2 aus where fill: "fill_timing (fb_pending b) ?b1 = (b2, aus)" by fastforce
  note frame = fill_timing_frame [OF fill]
  define f where "f = \<lparr>fr_seq = fb_seq b, fr_base = fb_base_decode_time b, fr_aus = aus, fr_audio = take_audio b\<rparr>"
  have ta: "take_audio b2 = take_audio b" using frame(4) by (simp add: take_audio_def)
  have track: "(case fb_audio b2 of None \<Rightarrow> None
      | Some a \<Rightarrow> (case take_audio b2 of None \<Rightarrow> Some a
          | Some (frames, _) \<Rightarrow> Some (a\<lparr>at_pending := [], at_base_decode_time := at_base_decode_time a + (\<Sum>f\<leftarrow>frames. ucast (af_duration f))\<rparr>)))
      = audio_taken (fb_audio b)"
    using frame(4) by (auto simp: take_audio_def audio_taken_def audio_ticks_def split: option.splits)
  show ?thesis
  proof (rule that [of "b2\<lparr>fb_seq := fb_seq b + 1, fb_base_decode_time := fb_base_decode_time b + ticks_of aus, fb_audio := audio_taken (fb_audio b)\<rparr>" f])
    show "emit L b = (b2\<lparr>fb_seq := fb_seq b + 1, fb_base_decode_time := fb_base_decode_time b + ticks_of aus, fb_audio := audio_taken (fb_audio b)\<rparr>,
        Some (seg_of L f))"
      using assms frame(2,3) 
      unfolding emit_def Let_def fill prod.case by (simp add: track ta ticks_of_def seg_of_def f_def fragment_bytes_def Let_def)
  qed (use frame in \<open>simp_all add: f_def\<close>)
qed

lemma contiguous_snoc:
  "contiguous seq base (fs @ [f]) \<longleftrightarrow>
     contiguous seq base fs \<and> fr_seq f = seq + of_nat (length fs) \<and> fr_base f = base + (\<Sum>f\<leftarrow>fs. ticks_of (fr_aus f))"
  by (induction fs arbitrary: seq base) (auto simp: add_ac)

lemma units_of_Nil [simp]: "units_of xs = [] \<longleftrightarrow> xs = []" "units_of [] = []" "units_of (xs @ ys) = units_of xs @ units_of ys"
  by (simp_all add: units_of_def)

lemma audio_ticks_append [simp]: "audio_ticks (xs @ ys) = audio_ticks xs + audio_ticks ys" "audio_ticks [] = 0"
  by (simp_all add: audio_ticks_def)

lemma trace_emit:
  assumes "trace_ok aus_in audio_in frags b" "fb_pending b \<noteq> []" "emit L b = (b', s)"
  shows "\<exists>f. s = Some (seg_of L f) \<and> fb_pending b' = [] \<and> trace_ok aus_in audio_in (frags @ [f]) b'"
proof -
  obtain b'' f where e: "emit L b = (b'', Some (seg_of L f))" "fr_seq f = fb_seq b" "fr_base f = fb_base_decode_time b"
    "units_of (fr_aus f) = units_of (fb_pending b)" "fr_audio f = take_audio b"
    "fb_pending b'' = []" "fb_seq b'' = fb_seq b + 1" "fb_base_decode_time b'' = fb_base_decode_time b + ticks_of (fr_aus f)"
    "fb_audio b'' = audio_taken (fb_audio b)"
    using emit_fragment [OF assms(2)] .
  have ok: "audio_ok audio_in (concat (map frag_audio frags)) (fb_audio b)" using assms(1) by (simp add: trace_ok_def)
  have "case fr_audio f of Some (fs, base) \<Rightarrow> fs \<noteq> [] \<and> length fs \<le> MAX_PENDING_AUDIO \<and> placed audio_in (fs, base) | None \<Rightarrow> True"
    using ok by (fastforce simp: e(5) take_audio_def audio_ok_def placed_def split: option.splits intro: exI [of _ "[]"])
  then have "frag_ok audio_in f" using assms(1,2) e(4) units_of_Nil(1) [of "fr_aus f"] by (auto simp: frag_ok_def trace_ok_def)
  moreover have "audio_ok audio_in (concat (map frag_audio (frags @ [f]))) (fb_audio b'')"
    using ok by (auto simp: e(5,9) audio_ok_def audio_taken_def take_audio_def frag_audio_def split: option.splits
        intro: subseq_append' list_emb_append_mono)
  ultimately have "trace_ok aus_in audio_in (frags @ [f]) b''"
    using assms(1) e by (auto simp: trace_ok_def contiguous_snoc key_first_def)
  with assms(3) e(1,6) show ?thesis by auto
qed

subsection \<open>The timeline of a stream\<close>

lemma trace_cong:
  "fb_seq b' = fb_seq b \<Longrightarrow> fb_base_decode_time b' = fb_base_decode_time b \<Longrightarrow> fb_pending b' = fb_pending b \<Longrightarrow>
   fb_audio b' = fb_audio b \<Longrightarrow> trace_ok aus_in audio_in frags b' = trace_ok aus_in audio_in frags b"
  by (simp add: trace_ok_def)

definition media_of :: "fragment_builder \<Rightarrow> u64 \<times> u64 \<times> au list \<times> audio_track option" where
  "media_of b = (fb_seq b, fb_base_decode_time b, fb_pending b, fb_audio b)"

lemma media_poc_note_rtp: "media_of (poc_note_rtp pts b) = media_of b"
  by (simp add: poc_note_rtp_def media_of_def Let_def split: option.split)

lemma media_poc_setup: "media_of (poc_setup b) = media_of b"
  by (simp add: poc_setup_def media_of_def split: option.split)

lemma media_poc: "media_of (b\<lparr>fb_poc := x\<rparr>) = media_of b"
  by (simp add: media_of_def)

lemma media_poc_record: "media_of (fst (poc_record nal k b)) = media_of b"
  unfolding poc_record_def Let_def
  by (simp add: media_poc media_poc_setup split: option.split prod.split)

lemma poc_frame:
  assumes "fst (poc_record nal k (poc_note_rtp pts b)) = b'"
  shows "fb_seq b' = fb_seq b" "fb_base_decode_time b' = fb_base_decode_time b" "fb_pending b' = fb_pending b" "fb_audio b' = fb_audio b"
proof -
  have "media_of b' = media_of b"
    using media_poc_record [of nal k "poc_note_rtp pts b"] media_poc_note_rtp [of pts b] assms by simp
  then show "fb_seq b' = fb_seq b" "fb_base_decode_time b' = fb_base_decode_time b" "fb_pending b' = fb_pending b" "fb_audio b' = fb_audio b"
    by (simp_all add: media_of_def)
qed

lemma trace_append:
  assumes "trace_ok aus_in audio_in frags b" "k \<Longrightarrow> fb_pending b = []"
    and "units_of (fb_pending b') = units_of (fb_pending b) @ [(media, k)]"
    and "fb_seq b' = fb_seq b" "fb_base_decode_time b' = fb_base_decode_time b" "fb_audio b' = fb_audio b"
  shows "trace_ok (aus_in @ [(media, k)]) audio_in frags b'"
proof -
  have "key_first (units_of (fb_pending b) @ [(media, k)])"
    using assms(1,2) by (cases "fb_pending b") (auto simp: trace_ok_def key_first_def units_of_def)
  with assms show ?thesis by (auto simp: trace_ok_def)
qed

definition closes :: "libs \<Rightarrow> unit' list \<Rightarrow> audio_frame list \<Rightarrow> frag list \<Rightarrow> fragment_builder \<times> segment option \<Rightarrow> bool" where
  "closes L aus_in audio_in frags = (\<lambda>(b, s). \<exists>fs. trace_ok aus_in audio_in (frags @ fs) b
     \<and> (case s of Some x \<Rightarrow> [x] | None \<Rightarrow> []) = map (seg_of L) fs)"

lemma closes_emit:
  "trace_ok aus_in audio_in frags b \<Longrightarrow> fb_pending b \<noteq> [] \<Longrightarrow> closes L aus_in audio_in frags (emit L b)"
  using trace_emit [of aus_in audio_in frags b L "fst (emit L b)" "snd (emit L b)"]
  by (auto simp: closes_def split_beta intro: exI [of _ "[f]" for f])

lemma closes_keep: "trace_ok aus_in audio_in frags b \<Longrightarrow> closes L aus_in audio_in frags (b, None)"
  by (auto simp: closes_def intro: exI [of _ "[]"])

lemma trace_close:
  assumes "trace_ok aus_in audio_in frags b" "close_at_keyframe L k b = (b', s)"
  obtains fs where "trace_ok aus_in audio_in (frags @ fs) b'" "k \<longrightarrow> fb_pending b' = []"
    "(case s of Some x \<Rightarrow> [x] | None \<Rightarrow> []) = map (seg_of L) fs"
proof (cases "k \<and> fb_pending b \<noteq> []")
  case True
  with assms(2) have "emit L b = (b', s)" by (simp add: close_at_keyframe_def)
  from trace_emit [OF assms(1) _ this] True obtain f where "s = Some (seg_of L f)" "fb_pending b' = []" "trace_ok aus_in audio_in (frags @ [f]) b'"
    by blast
  then show ?thesis using that [of "[f]"] by simp
next
  case False
  then show ?thesis using assms that [of "[]"] by (auto simp: close_at_keyframe_def)
qed

text \<open>After the optional close and the optional unit, a part may close; never twice in one call.\<close>

lemma closes_part:
  assumes "trace_ok aus_in audio_in (frags @ fs) b" "(case s of Some x \<Rightarrow> [x] | None \<Rightarrow> []) = map (seg_of L) fs"
    and "cond \<longrightarrow> fb_pending b \<noteq> []"
  shows "closes L aus_in audio_in frags (if s = None \<and> cond then emit L b else (b, s))"
proof (cases "s = None \<and> cond")
  case True
  then have "fs = []" using assms(2) by simp
  then show ?thesis using True assms closes_emit [of aus_in audio_in frags b L] by simp
next
  case False
  then show ?thesis using assms(1,2) by (auto simp: closes_def)
qed

lemma closes_push_au:
  assumes "trace_ok aus_in audio_in frags b"
  shows "closes L (aus_in @ units_in (PushAu nal duration k)) audio_in frags (push_au L nal duration k b)"
proof -
  obtain b1 s where c: "close_at_keyframe L k b = (b1, s)" by fastforce
  obtain fs where fs: "trace_ok aus_in audio_in (frags @ fs) b1" "k \<longrightarrow> fb_pending b1 = []"
    "(case s of Some x \<Rightarrow> [x] | None \<Rightarrow> []) = map (seg_of L) fs"
    using trace_close [OF assms c] .
  define b2 where "b2 = (if annexb_to_avcc nal \<noteq> [] then
      b1\<lparr>fb_pending := fb_pending b1 @ [\<lparr>au_avcc = annexb_to_avcc nal, au_pts = 0, au_duration = duration, au_comp_offset = 0,
           au_keyframe = k, au_poc_dec = 0, au_poc_gop = 0, au_poc_val = 0\<rparr>],
         fb_pending_ticks := fb_pending_ticks b1 + ucast duration\<rparr> else b1)"
  have "trace_ok (aus_in @ units_in (PushAu nal duration k)) audio_in (frags @ fs) b2"
    using fs(1) trace_append [OF fs(1), of k b2 "annexb_to_avcc nal"] fs(2) by (auto simp: b2_def units_of_def)
  then show ?thesis unfolding push_au_def c prod.case Let_def b2_def [symmetric]
    by (intro closes_part [OF _ fs(3)]) (auto split: option.splits)
qed

lemma closes_push_au_pts:
  assumes "trace_ok aus_in audio_in frags b"
  shows "closes L (aus_in @ units_in (PushAuPts nal pts k)) audio_in frags (push_au_pts L nal pts k b)"
proof -
  obtain b0 poc where r: "poc_record nal k (poc_note_rtp pts (b\<lparr>fb_pts_mode := True\<rparr>)) = (b0, poc)" by fastforce
  have t0: "trace_ok aus_in audio_in frags b0"
    using assms poc_frame [of nal k pts "b\<lparr>fb_pts_mode := True\<rparr>" b0] r trace_cong [of b0 b] by simp
  obtain b1 s where c: "close_at_keyframe L k b0 = (b1, s)" by fastforce
  obtain fs where fs: "trace_ok aus_in audio_in (frags @ fs) b1" "k \<longrightarrow> fb_pending b1 = []"
    "(case s of Some x \<Rightarrow> [x] | None \<Rightarrow> []) = map (seg_of L) fs"
    using trace_close [OF t0 c] .
  obtain pd pg pv where p: "(case poc of Some p \<Rightarrow> p | None \<Rightarrow> (0, 0, 0)) = (pd, pg, pv)" by (metis prod_cases3)
  define t where "t = rust_div (i64_sat (pts * uint TIMESCALE)) 1000000"
  define b2 where "b2 = (if annexb_to_avcc nal \<noteq> [] then
      b1\<lparr>fb_poc_active := (fb_poc_active b1 \<or> poc \<noteq> None),
         fb_pending := fb_pending b1 @ [\<lparr>au_avcc = annexb_to_avcc nal, au_pts = t, au_duration = 0, au_comp_offset = 0,
           au_keyframe = k, au_poc_dec = pd, au_poc_gop = pg, au_poc_val = pv\<rparr>],
         fb_pending_pts_lo := min (fb_pending_pts_lo b1) t, fb_pending_pts_hi := max (fb_pending_pts_hi b1) t\<rparr> else b1)"
  have "trace_ok (aus_in @ units_in (PushAuPts nal pts k)) audio_in (frags @ fs) b2"
    using fs(1) trace_append [OF fs(1), of k b2 "annexb_to_avcc nal"] fs(2) by (auto simp: b2_def units_of_def)
  then show ?thesis unfolding push_au_pts_def r c p prod.case Let_def t_def [symmetric] b2_def [symmetric]
    by (intro closes_part [OF _ fs(3)]) (auto split: option.splits)
qed

lemma closes_push_opus:
  assumes "trace_ok aus_in audio_in frags b"
  shows "closes L aus_in (audio_in @ opus_in (PushOpus frame duration)) frags (push_opus frame duration b, None)"
proof -
  let ?in = "audio_in @ opus_in (PushOpus frame duration)"
  have "frag_ok ?in f" if "frag_ok audio_in f" for f
    using that by (fastforce simp: frag_ok_def placed_def split: option.splits)
  moreover have "audio_ok ?in emitted (fb_audio (push_opus frame duration b))" if ok: "audio_ok audio_in emitted (fb_audio b)" for emitted
  proof (cases "fb_audio b")
    case (Some a)
    then obtain pre where pre: "audio_in = pre @ at_pending a" "at_base_decode_time a = audio_ticks pre" "subseq emitted pre"
      "length (at_pending a) \<le> MAX_PENDING_AUDIO"
      using ok by (auto simp: audio_ok_def)
    show ?thesis
    proof (cases "MAX_PENDING_AUDIO \<le> length (at_pending a)")
      case True
      then obtain x xs where x: "at_pending a = x # xs" by (cases "at_pending a") (auto simp: MAX_PENDING_AUDIO_def)
      have "subseq emitted (pre @ [x])" using list_emb_append_mono [OF pre(3), of "[]" "[x]"] by simp
      then show ?thesis using pre x True
        by (auto simp: push_opus_def Some audio_ok_def Let_def audio_ticks_def intro!: exI [of _ "pre @ [x]"])
    next
      case False
      then show ?thesis using pre by (auto simp: push_opus_def Some audio_ok_def Let_def)
    qed
  qed (use ok in \<open>simp add: push_opus_def audio_ok_def\<close>)
  moreover have "media_of (push_opus frame duration b) = (fb_seq b, fb_base_decode_time b, fb_pending b, fb_audio (push_opus frame duration b))"
    by (simp add: push_opus_def media_of_def Let_def split: option.split)
  ultimately have "trace_ok aus_in ?in frags (push_opus frame duration b)"
    using assms by (simp add: trace_ok_def media_of_def)
  then show ?thesis by (rule closes_keep)
qed

lemma closes_step:
  "trace_ok aus_in audio_in frags b \<Longrightarrow>
   closes L (aus_in @ units_in op) (audio_in @ opus_in op) frags (fb_step L op b)"
  using closes_push_au closes_push_au_pts closes_push_opus closes_emit closes_keep
  by (cases op) (simp_all add: flush_def)

lemma fb_run_trace:
  "trace_ok aus_in audio_in frags b \<Longrightarrow> fb_run L ops b = (b', segs) \<Longrightarrow>
   \<exists>fs. segs = map (seg_of L) fs
     \<and> trace_ok (aus_in @ concat (map units_in ops)) (audio_in @ concat (map opus_in ops)) (frags @ fs) b'"
proof (induction ops arbitrary: aus_in audio_in frags b segs)
  case Nil
  then show ?case by simp
next
  case (Cons op ops)
  obtain b1 s where s: "fb_step L op b = (b1, s)" by fastforce
  obtain segs' where r: "fb_run L ops b1 = (b', segs')" "segs = (case s of Some x \<Rightarrow> [x] | None \<Rightarrow> []) @ segs'"
    using Cons.prems(2) s by (auto split: prod.splits)
  obtain fs where fs: "trace_ok (aus_in @ units_in op) (audio_in @ opus_in op) (frags @ fs) b1"
    "(case s of Some x \<Rightarrow> [x] | None \<Rightarrow> []) = map (seg_of L) fs"
    using closes_step [OF Cons.prems(1), of L op] s by (auto simp: closes_def)
  obtain gs where "segs' = map (seg_of L) gs" "trace_ok ((aus_in @ units_in op) @ concat (map units_in ops))
      ((audio_in @ opus_in op) @ concat (map opus_in ops)) ((frags @ fs) @ gs) b'"
    using Cons.IH [OF fs(1) r(1)] by blast
  then show ?case using fs(2) r(2) by (intro exI [of _ "fs @ gs"]) simp
qed

definition fresh :: "fragment_builder \<Rightarrow> bool" where
  "fresh b \<longleftrightarrow> fb_seq b = 0 \<and> fb_base_decode_time b = 0 \<and> fb_pending b = []
     \<and> (case fb_audio b of Some a \<Rightarrow> at_pending a = [] \<and> at_base_decode_time a = 0 | None \<Rightarrow> True)"

lemma fresh_new: "fresh (fb_new p)" "fresh (fb_new_ll p ms)" "fresh (with_opus_audio ch (fb_new p))" "fresh (with_opus_audio ch (fb_new_ll p ms))"
  by (simp_all add: fresh_def fb_new_def fb_new_ll_def with_opus_audio_def)

lemma trace_fresh: "fresh b \<Longrightarrow> trace_ok [] [] [] b"
  by (auto simp: fresh_def trace_ok_def audio_ok_def key_first_def split: option.splits)

text \<open>
  C33: Whatever is pushed, by duration or by presentation time, with or without parts and audio,
  the segments that come out carry consecutive sequence numbers from 0, each starts on the
  video timeline exactly where the one before it ended, and together with what is still
  pending they contain every access unit that carries media once and in order; within a
  segment only the first unit can be a keyframe. Every block of Opus frames muxed is a run of
  consecutive input frames at its true place on the audio timeline, even after frames were
  dropped because video stalled, and no more than 200 frames are ever held.
\<close>

theorem stream_timeline:
  assumes "fresh b" "fb_run L ops b = (b', segs)"
  shows "\<exists>frags. segs = map (seg_of L) frags
     \<and> trace_ok (concat (map units_in ops)) (concat (map opus_in ops)) frags b'"
  using fb_run_trace [OF trace_fresh [OF assms(1)] assms(2)] by simp

theorem stream_timeline_witness:
  "\<exists>frags b' segs. fb_run toy_libs [PushAu [0, 0, 1, 0x65, 1] 3000 True, PushOpus [7] 960, Flush]
       (with_opus_audio 2 (fb_new \<lparr>hp_sps = [0x67], hp_pps = [0x68], hp_width = 16, hp_height = 16\<rparr>)) = (b', segs)
     \<and> segs = map (seg_of toy_libs) frags \<and> contiguous 0 0 frags"
proof -
  let ?b = "with_opus_audio 2 (fb_new \<lparr>hp_sps = [0x67], hp_pps = [0x68], hp_width = 16, hp_height = 16\<rparr>)"
  obtain b' segs where r: "fb_run toy_libs [PushAu [0, 0, 1, 0x65, 1] 3000 True, PushOpus [7] 960, Flush] ?b = (b', segs)" by fastforce
  from stream_timeline [OF fresh_new(3) r] obtain frags where "segs = map (seg_of toy_libs) frags" "contiguous 0 0 frags"
    unfolding trace_ok_def by blast
  with r show ?thesis by blast
qed

end
