(* ===== verification/Hls_Props.thy ===== *)
theory Hls_Props
  imports Hls Fragment_Builder
begin

section \<open>The live window and its playlists\<close>

text \<open>
  Segments are pushed in the order of their sequence numbers. Then the window stays well formed
  and bounded, whole parents leave it and never parts of one, what a listed segment serves
  never changes, and the low-latency playlist is a faithful account of the window.
\<close>

subsection \<open>Well-formed windows\<close>

abbreviation msn :: "u64 \<times> part \<Rightarrow> nat" where
  "msn sp \<equiv> unat (pt_parent_msn (snd sp))"

text \<open>Parents are numbered without gaps.\<close>

fun steps :: "nat list \<Rightarrow> bool" where
  "steps (a # b # r) \<longleftrightarrow> (b = a \<or> b = Suc a) \<and> steps (b # r)"
| "steps _ \<longleftrightarrow> True"

definition win_ok :: "nat \<Rightarrow> shared \<Rightarrow> bool" where
  "win_ok n g \<longleftrightarrow> bt_ok (sh_parts g) \<and> steps (map msn (sh_parts g)) \<and> unat (sh_next_parent_msn g) \<le> n
     \<and> (if sh_have_any g
        then sh_parts g \<noteq> []
          \<and> pt_parent_msn (snd (last (sh_parts g))) = sh_cur_parent_msn g
          \<and> unat (sh_next_parent_msn g) = Suc (unat (sh_cur_parent_msn g))
        else sh_parts g = [])"

lemma steps_snoc: "steps (xs @ [y]) \<longleftrightarrow> steps xs \<and> (xs \<noteq> [] \<longrightarrow> y = last xs \<or> y = Suc (last xs))"
  by (induction xs rule: steps.induct) auto

lemma sorted_le_last: "sorted (map f xs) \<Longrightarrow> x \<in> set xs \<Longrightarrow> f x \<le> (f (last xs) :: nat)"
  by (induction xs rule: rev_induct) (auto simp: sorted_append)

lemma steps_sorted: "steps xs \<Longrightarrow> sorted xs"
proof (induction xs rule: rev_induct)
  case (snoc y xs)
  then have "sorted xs" "xs \<noteq> [] \<longrightarrow> last xs \<le> y" by (auto simp: steps_snoc)
  moreover from this have "\<forall>x \<in> set xs. x \<le> y" using sorted_le_last [of "\<lambda>x. x" xs] by fastforce
  ultimately show ?case by (simp add: sorted_append)
qed simp

lemma steps_drop: "steps xs \<Longrightarrow> steps (drop k xs)"
proof (induction xs arbitrary: k rule: steps.induct)
  case (1 a b r)
  then show ?case by (cases k) auto
qed (auto simp: drop_Cons' split: if_splits)

lemma filter_ge_drop: "sorted (map f xs) \<Longrightarrow> \<exists>k. filter (\<lambda>x. (c :: nat) \<le> f x) xs = drop k xs"
proof (induction xs)
  case (Cons x xs)
  show ?case
  proof (cases "c \<le> f x")
    case True
    then have "filter (\<lambda>x. c \<le> f x) (x # xs) = x # xs" using Cons.prems by (auto simp: filter_id_conv)
    then show ?thesis by (metis drop0)
  next
    case False
    then show ?thesis using Cons by (auto intro: exI [of _ "Suc k" for k])
  qed
qed simp

subsection \<open>Eviction\<close>

text \<open>On a window sorted by parent, eviction keeps exactly the parents from some number on, never
  past the open one, and stops as soon as the window fits.\<close>

lemma evict_keeps:
  "sorted (map msn ps) \<Longrightarrow> \<forall>sp \<in> set ps. msn sp \<le> unat cur \<Longrightarrow>
   \<exists>c \<le> unat cur. evict_parents cap cur ps = filter (\<lambda>sp. c \<le> msn sp) ps"
proof (induction cap cur ps rule: evict_parents.induct)
  case (1 cap cur ps)
  show ?case
  proof (cases "cap < length ps \<and> pt_parent_msn (snd (hd ps)) \<noteq> cur")
    case False
    then have "evict_parents cap cur ps = ps" by (subst evict_parents.simps) (auto split: list.splits)
    then show ?thesis by (intro exI [of _ 0]) (simp add: filter_True)
  next
    case True
    then obtain s o' r where ps: "ps = (s, o') # r" by (cases ps) auto
    let ?ps = "filter (\<lambda>(_, p). pt_parent_msn p \<noteq> pt_parent_msn o') ps"
    have e: "evict_parents cap cur ps = evict_parents cap cur ?ps" using True ps by (subst evict_parents.simps) simp
    have lo: "unat (pt_parent_msn o') < unat cur"
      using True ps "1.prems"(2) by (metis le_neq_implies_less list.sel(1) list.set_intros(1) snd_conv word_unat_eq_iff)
    have "sorted (map msn ?ps)" using "1.prems"(1) by (rule sorted_filter)
    moreover have "\<forall>sp \<in> set ?ps. msn sp \<le> unat cur" using "1.prems"(2) by simp
    ultimately obtain c where c: "c \<le> unat cur" "evict_parents cap cur ?ps = filter (\<lambda>sp. c \<le> msn sp) ?ps"
      using "1.IH" [OF _ ps refl] True ps by fastforce
    have ge: "unat (pt_parent_msn o') \<le> msn sp" if "sp \<in> set ps" for sp using "1.prems"(1) ps that by auto
    have "filter (\<lambda>sp. c \<le> msn sp) ?ps = filter (\<lambda>sp. max c (Suc (unat (pt_parent_msn o'))) \<le> msn sp) ps"
      using ge by (auto simp: filter_filter split_beta word_unat_eq_iff intro!: filter_cong) (metis le_antisym not_less_eq_eq)
    then show ?thesis using e c lo by (intro exI [of _ "max c (Suc (unat (pt_parent_msn o')))"]) simp
  qed
qed

lemma evict_fits: "length (evict_parents cap cur ps) \<le> cap \<or> (\<exists>sp r. evict_parents cap cur ps = sp # r \<and> pt_parent_msn (snd sp) = cur)"
proof (induction cap cur ps rule: evict_parents.induct)
  case (1 cap cur ps)
  then show ?case by (subst (1 2) evict_parents.simps) (auto split: list.splits)
qed

subsection \<open>Pushing in order\<close>

definition fits :: "shared \<Rightarrow> bool" where
  "fits g \<longleftrightarrow> (if sh_ll g then length (sh_parts g) \<le> MAX_LIVE_PARTS \<or> (\<forall>sp \<in> set (sh_parts g). pt_parent_msn (snd sp) = sh_cur_parent_msn g)
     else length (sh_parts g) \<le> MAX_LIVE_SEGMENTS)"

lemma bt_put_last: "\<forall>x \<in> set m. fst x < k \<Longrightarrow> bt_put k v m = m @ [(k, v)]"
  by (induction m) auto

lemma win_below: "win_ok n g \<Longrightarrow> sh_have_any g \<Longrightarrow> sp \<in> set (sh_parts g) \<Longrightarrow> msn sp \<le> unat (sh_cur_parent_msn g)"
proof -
  assume ok: "win_ok n g" "sh_have_any g" and sp: "sp \<in> set (sh_parts g)"
  then have "sorted (map msn (sh_parts g))" "sh_parts g \<noteq> []" by (auto simp: win_ok_def intro: steps_sorted)
  then have "msn sp \<le> msn (last (sh_parts g))" using sp by (intro sorted_le_last)
  then show ?thesis using ok by (simp add: win_ok_def)
qed

lemma length_filter_filter: "length (filter P (filter Q xs)) \<le> length (filter P xs)"
  by (induction xs) auto

lemma push_spec:
  assumes ok: "win_ok n g" "Suc n < 2 ^ 64" and ord: "\<forall>x \<in> set (sh_parts g). fst x < seq"
    and g': "g' = push_segment w seq b g"
  obtains c p where "sh_parts g' = filter (\<lambda>sp. c \<le> msn sp) (sh_parts g @ [(seq, p)])" "c \<le> unat (sh_cur_parent_msn g')"
    "pt_parent_msn p = sh_cur_parent_msn g'" "pt_bytes p = b" "win_ok (Suc n) g'" "fits g'" "sh_ll g' = sh_ll g" "sh_have_any g'"
    "sh_have_any g \<longrightarrow> unat (sh_cur_parent_msn g') \<in> {unat (sh_cur_parent_msn g), Suc (unat (sh_cur_parent_msn g))}"
proof -
  obtain i d where f: "part_facts (sh_ll g) b = (i, d)" by fastforce
  define opens where "opens \<longleftrightarrow> \<not> sh_ll g \<or> \<not> sh_have_any g \<or> i"
  define cur where "cur = (if opens then sh_next_parent_msn g else sh_cur_parent_msn g)"
  define p where "p = \<lparr>pt_bytes = b, pt_independent = i, pt_dur_ticks = d, pt_parent_msn = cur, pt_wall_ms = w\<rparr>"
  let ?ps = "sh_parts g @ [(seq, p)]"
  let ?cap = "if sh_ll g then MAX_LIVE_PARTS else MAX_LIVE_SEGMENTS"
  have nxt: "unat (sh_next_parent_msn g + 1) = Suc (unat (sh_next_parent_msn g))"
    using ok by (simp add: win_ok_def unat_word_ariths)
  have parts: "sh_parts g' = evict_parents ?cap cur ?ps" and cur': "sh_cur_parent_msn g' = cur" and ll: "sh_ll g' = sh_ll g" "sh_have_any g'"
    and nx: "sh_next_parent_msn g' = (if opens then sh_next_parent_msn g + 1 else sh_next_parent_msn g)"
    unfolding g' push_segment_def f prod.case Let_def by (simp_all add: bt_put_last [OF ord] opens_def cur_def p_def)
  have curs: "sh_have_any g \<longrightarrow> unat cur \<in> {unat (sh_cur_parent_msn g), Suc (unat (sh_cur_parent_msn g))}"
    and nx': "unat (sh_next_parent_msn g') = Suc (unat cur)"
    using ok nxt by (auto simp: cur_def nx win_ok_def opens_def split: if_splits)
  have below: "\<forall>sp \<in> set ?ps. msn sp \<le> unat cur"
    using win_below [OF ok(1)] ok(1) curs by (cases "sh_have_any g") (fastforce simp: p_def win_ok_def)+
  have st: "steps (map msn ?ps)"
    using ok(1) curs by (cases "sh_have_any g") (auto simp: steps_snoc win_ok_def p_def last_map split: if_splits)
  obtain c where c: "c \<le> unat cur" "sh_parts g' = filter (\<lambda>sp. c \<le> msn sp) ?ps"
    using evict_keeps [OF steps_sorted [OF st] below] parts by metis
  obtain k where k: "sh_parts g' = drop k ?ps" using filter_ge_drop [OF steps_sorted [OF st]] c(2) by metis
  have lastp: "sh_parts g' \<noteq> []" "last (sh_parts g') = (seq, p)" using c by (simp_all add: p_def)
  have bt: "bt_ok (sh_parts g')"
    unfolding c(2) using ok(1) ord bt_ok_put [of "sh_parts g" seq p] bt_put_last [OF ord, of p] by (intro bt_ok_filter) (simp add: win_ok_def)
  have "steps (map msn (sh_parts g'))" unfolding k drop_map [symmetric] using st by (rule steps_drop)
  moreover have "unat (sh_next_parent_msn g') \<le> Suc n" using ok(1) nxt by (simp add: nx win_ok_def)
  ultimately have "win_ok (Suc n) g'"
    using bt lastp nx' cur' ll(2) by (simp add: win_ok_def p_def)
  moreover have "fits g'"
  proof (cases "length (sh_parts g') \<le> ?cap")
    case True
    then show ?thesis by (simp add: fits_def ll split: if_splits)
  next
    case False
    then obtain sp r where sp: "sh_parts g' = sp # r" "pt_parent_msn (snd sp) = cur"
      using evict_fits [of ?cap cur ?ps] parts by auto
    have srt: "sorted (map msn (sh_parts g'))" unfolding k drop_map [symmetric] by (intro steps_sorted steps_drop st)
    have all: "\<forall>x \<in> set (sh_parts g'). pt_parent_msn (snd x) = cur"
    proof
      fix x assume x: "x \<in> set (sh_parts g')"
      then have "unat cur \<le> msn x" using srt sp by auto
      moreover have "msn x \<le> unat cur" using x below unfolding c(2) by (metis filter_is_subset subsetD)
      ultimately show "pt_parent_msn (snd x) = cur" by (simp add: word_unat_eq_iff)
    qed
    show ?thesis
    proof (cases "sh_ll g")
      case True
      then show ?thesis using all by (simp add: fits_def ll cur')
    next
      case False
      have new: "\<forall>x \<in> set (sh_parts g). pt_parent_msn (snd x) \<noteq> cur"
      proof
        fix x assume x: "x \<in> set (sh_parts g)"
        then have "sh_have_any g" using ok(1) by (auto simp: win_ok_def split: if_splits)
        then have "msn x \<le> unat (sh_cur_parent_msn g)" "unat (sh_next_parent_msn g) = Suc (unat (sh_cur_parent_msn g))"
          using win_below [OF ok(1) _ x] ok(1) by (simp_all add: win_ok_def)
        then show "pt_parent_msn (snd x) \<noteq> cur" using False by (auto simp: cur_def opens_def)
      qed
      have "length (sh_parts g') = length (filter (\<lambda>x. pt_parent_msn (snd x) = cur) (sh_parts g'))" using all by (simp add: filter_id_conv)
      also have "\<dots> \<le> length (filter (\<lambda>x. pt_parent_msn (snd x) = cur) ?ps)" unfolding c(2) by (rule length_filter_filter)
      also have "\<dots> \<le> 1" using new by (simp add: filter_False)
      finally show ?thesis by (simp add: fits_def ll False MAX_LIVE_SEGMENTS_def)
    qed
  qed
  ultimately show ?thesis using that [of c p] c ll curs cur' by (simp add: p_def)
qed

subsection \<open>Runs\<close>

definition pushes :: "(u64 \<times> u64 \<times> bytes) list \<Rightarrow> shared \<Rightarrow> shared" where
  "pushes ms = fold (\<lambda>(w, seq, b). push_segment w seq b) ms"

abbreviation seqs_of :: "(u64 \<times> u64 \<times> bytes) list \<Rightarrow> u64 list" where
  "seqs_of ms \<equiv> map (\<lambda>(_, seq, _). seq) ms"

definition started :: "u32 \<Rightarrow> bool \<Rightarrow> u32 \<Rightarrow> shared" where
  "started target_ms ll part_ms = hk_shared (hls_new target_ms ll part_ms)"

definition held :: "shared \<Rightarrow> (u64 \<times> bytes) list" where
  "held g = map (\<lambda>(seq, p). (seq, pt_bytes p)) (sh_parts g)"

lemma win_started: "win_ok n (started t ll pm)"
  by (simp add: win_ok_def started_def hls_new_def)

text \<open>One push changes what a closed parent holds at most by removing it whole.\<close>

lemma push_members:
  assumes "win_ok n g" "Suc n < 2 ^ 64" "\<forall>x \<in> set (sh_parts g). fst x < seq" "sh_have_any g" "unat m < unat (sh_cur_parent_msn g)"
  shows "members m (push_segment w seq b g) \<in> {members m g, []}"
proof -
  obtain c p where cp: "sh_parts (push_segment w seq b g) = filter (\<lambda>sp. c \<le> msn sp) (sh_parts g @ [(seq, p)])"
    "pt_parent_msn p = sh_cur_parent_msn (push_segment w seq b g)"
    "sh_have_any g \<longrightarrow> unat (sh_cur_parent_msn (push_segment w seq b g)) \<in> {unat (sh_cur_parent_msn g), Suc (unat (sh_cur_parent_msn g))}"
    using push_spec [OF assms(1-3) refl] by metis
  have "pt_parent_msn p \<noteq> m" using cp(2,3) assms(4,5) by auto
  then have "members m (push_segment w seq b g) = (if c \<le> unat m then members m g else [])"
    unfolding members_def cp(1) by (auto simp: filter_filter split_beta intro!: filter_cong filter_False)
  then show ?thesis by simp
qed

lemma pushes_run:
  assumes "win_ok n g" "n + length ms < 2 ^ 64 - 1" "sorted_wrt (<) (seqs_of ms)"
    and "\<forall>x \<in> set (sh_parts g). \<forall>s \<in> set (seqs_of ms). fst x < s"
  shows "win_ok (n + length ms) (pushes ms g) \<and> sh_ll (pushes ms g) = sh_ll g
    \<and> (ms \<noteq> [] \<longrightarrow> fits (pushes ms g) \<and> sh_have_any (pushes ms g))
    \<and> suffix (held (pushes ms g)) (held g @ map snd ms)
    \<and> (\<forall>m. sh_have_any g \<longrightarrow> unat m < unat (sh_cur_parent_msn g) \<longrightarrow> members m (pushes ms g) \<in> {members m g, []})"
  using assms
proof (induction ms arbitrary: n g)
  case Nil
  then show ?case by (simp add: pushes_def)
next
  case (Cons x ms)
  obtain w seq b where x: "x = (w, seq, b)" by (metis prod_cases3)
  let ?g = "push_segment w seq b g"
  have pre: "Suc n < 2 ^ 64" "\<forall>y \<in> set (sh_parts g). fst y < seq" using Cons.prems x by auto
  obtain c p where cp: "sh_parts ?g = filter (\<lambda>sp. c \<le> msn sp) (sh_parts g @ [(seq, p)])"
    "pt_bytes p = b" "win_ok (Suc n) ?g" "fits ?g" "sh_ll ?g = sh_ll g" "sh_have_any ?g"
    "sh_have_any g \<longrightarrow> unat (sh_cur_parent_msn ?g) \<in> {unat (sh_cur_parent_msn g), Suc (unat (sh_cur_parent_msn g))}"
    "c \<le> unat (sh_cur_parent_msn ?g)" "pt_parent_msn p = sh_cur_parent_msn ?g"
    using push_spec [OF Cons.prems(1) pre refl, of w b] by metis
  have run: "pushes (x # ms) g = pushes ms ?g" by (simp add: pushes_def x)
  have keys: "\<forall>y \<in> set (sh_parts ?g). \<forall>s \<in> set (seqs_of ms). fst y < s"
    using Cons.prems(3,4) x cp(1) by (auto split: if_splits)
  note IH = Cons.IH [OF cp(3) _ _ keys]
  have srt: "sorted_wrt (<) (seqs_of ms)" and len: "Suc n + length ms < 2 ^ 64 - 1" using Cons.prems by (simp_all add: x)
  have I: "win_ok (Suc n + length ms) (pushes ms ?g)" "sh_ll (pushes ms ?g) = sh_ll ?g" "ms \<noteq> [] \<longrightarrow> fits (pushes ms ?g) \<and> sh_have_any (pushes ms ?g)"
    "suffix (held (pushes ms ?g)) (held ?g @ map snd ms)"
    "\<forall>m. unat m < unat (sh_cur_parent_msn ?g) \<longrightarrow> members m (pushes ms ?g) \<in> {members m ?g, []}"
    using IH [OF len srt] cp(6) by blast+
  have "\<exists>j. sh_parts ?g = drop j (sh_parts g @ [(seq, p)])"
  proof -
    have "sorted (map msn (sh_parts g))" using Cons.prems(1) by (simp add: win_ok_def steps_sorted)
    moreover have "\<forall>y \<in> set (sh_parts g). msn y \<le> unat (pt_parent_msn p)"
    proof
      fix y assume y: "y \<in> set (sh_parts g)"
      then have "sh_have_any g" using Cons.prems(1) by (auto simp: win_ok_def split: if_splits)
      then show "msn y \<le> unat (pt_parent_msn p)" using win_below [OF Cons.prems(1) _ y] cp(7,9) by auto
    qed
    ultimately show ?thesis unfolding cp(1) by (intro filter_ge_drop) (simp add: sorted_append)
  qed
  then obtain j where j: "sh_parts ?g = drop j (sh_parts g @ [(seq, p)])" by blast
  have "held g @ [(seq, b)] = map (\<lambda>(s, p). (s, pt_bytes p)) (sh_parts g @ [(seq, p)])" using cp(2) by (simp add: held_def)
  then have "suffix (held ?g) (held g @ [(seq, b)])"
    unfolding held_def [of ?g] j drop_map [symmetric] by (simp only: suffix_drop)
  then have "suffix (held ?g @ map snd ms) (held g @ map snd (x # ms))"
    by (auto simp: suffix_def x)
  then have "suffix (held (pushes ms ?g)) (held g @ map snd (x # ms))" using I(4) suffix_order.order_trans by blast
  moreover have "members m (pushes ms ?g) \<in> {members m g, []}" if "sh_have_any g" "unat m < unat (sh_cur_parent_msn g)" for m
    using push_members [OF Cons.prems(1) pre that, of w b] I(5) [rule_format, of m] cp(7) that by auto
  ultimately show ?case using I(1-3) cp(4-6) unfolding run by (cases "ms = []") (auto simp: pushes_def)
qed

lemma pushes_started:
  assumes "sorted_wrt (<) (seqs_of ms)" "length ms < 2 ^ 64 - 1"
  shows "win_ok (length ms) (pushes ms (started t ll pm))" "sh_ll (pushes ms (started t ll pm)) = ll"
    "ms \<noteq> [] \<Longrightarrow> fits (pushes ms (started t ll pm))" "ms \<noteq> [] \<Longrightarrow> sh_have_any (pushes ms (started t ll pm))"
    "suffix (held (pushes ms (started t ll pm))) (map snd ms)"
  using pushes_run [OF win_started [of 0 t ll pm], of ms] assms
  by (simp_all add: started_def hls_new_def held_def)

text \<open>
  C24: Fed in order, the live window is always well formed: its parts are ordered, their parents
  are numbered without gaps up to the open one, and it holds exactly the latest segments
  pushed, unchanged. A standard window never exceeds 12 segments; a low-latency window never
  exceeds 60 parts unless every part it holds belongs to the parent still being filled.
\<close>

theorem window_well_formed:
  assumes "sorted_wrt (<) (seqs_of ms)" "length ms < 2 ^ 64 - 1" "ms \<noteq> []"
  shows "win_ok (length ms) (pushes ms (started t ll pm)) \<and> fits (pushes ms (started t ll pm))
    \<and> suffix (held (pushes ms (started t ll pm))) (map snd ms) \<and> held (pushes ms (started t ll pm)) \<noteq> []"
  using pushes_started [OF assms(1,2), of t ll pm] assms(3) by (simp add: win_ok_def held_def)

theorem window_well_formed_witness:
  "length (sh_parts (pushes (map (\<lambda>i. (0, of_nat i, [])) [0..<3]) (started 2000 False 0))) \<le> 12"
  using window_well_formed [of "map (\<lambda>i. (0, of_nat i, [])) [0..<3]" 2000 False 0]
    pushes_started(2) [of "map (\<lambda>i. (0, of_nat i, [])) [0..<3]" 2000 False 0]
  by (simp add: fits_def MAX_LIVE_SEGMENTS_def upt_rec)

text \<open>
  C22: In low-latency mode, with the parts pushed in ascending order of their sequence numbers:
  once a parent segment is complete, what is served under its number never changes. After any
  number of further parts a request for it returns the very same bytes or, once it has left the
  window, not found. It never loses only some of its parts, and it never comes back. A part that
  is pushed late, below one already held, is outside this property: it joins the parent of that
  moment.
\<close>

theorem listed_segments_stable:
  assumes "sorted_wrt (<) (seqs_of (ms @ ms'))" "length (ms @ ms') < 2 ^ 64 - 1" "ms \<noteq> []"
    and "g = pushes ms (started t True pm)" "unat n < unat (sh_cur_parent_msn g)"
  shows "fst (media_seg n (pushes ms' g) h) \<in> {fst (media_seg n g h), Missing}
    \<and> (fst (media_seg n g h) = Missing \<longrightarrow> fst (media_seg n (pushes ms' g) h) = Missing)"
proof -
  have s: "sorted_wrt (<) (seqs_of ms)" "sorted_wrt (<) (seqs_of ms')" "\<forall>a \<in> set (seqs_of ms). \<forall>b \<in> set (seqs_of ms'). a < b"
    using assms(1) by (simp_all add: sorted_wrt_append)
  have l: "length ms < 2 ^ 64 - 1" using assms(2) by simp
  note g = pushes_started [OF s(1) l, of t True pm, folded assms(4)]
  have "set (held g) \<subseteq> set (map snd ms)" using g(5) set_mono_suffix by blast
  then have "fst ` set (held g) \<subseteq> set (seqs_of ms)" by (force simp: image_iff split_beta)
  then have "\<forall>x \<in> set (sh_parts g). fst x \<in> set (seqs_of ms)" by (force simp: held_def)
  then have keys: "\<forall>x \<in> set (sh_parts g). \<forall>b \<in> set (seqs_of ms'). fst x < b" using s(3) by blast
  have "members n (pushes ms' g) \<in> {members n g, []} \<and> sh_ll (pushes ms' g) = sh_ll g"
    using pushes_run [OF g(1) _ s(2) keys] g(4) assms(2,3,5) by auto
  then show ?thesis using g(2) by (auto simp: media_seg_def)
qed

text \<open>What the sink learns of a fragment of the builder.\<close>

lemma part_facts_fragment:
  assumes "aus \<noteq> []" "length aus \<le> 8192" "case audio of Some (fs, _) \<Rightarrow> length fs \<le> 200 | None \<Rightarrow> True"
  shows "part_facts True (fragment_bytes seq bdt aus audio) = (au_keyframe (hd aus), \<Sum>a\<leftarrow>aus. ucast (au_duration a))"
  using fragment_info_moof [OF assms, of seq bdt] by (simp add: part_facts_def fragment_bytes_def)

definition demo_au :: au where
  "demo_au = \<lparr>au_avcc = [0, 0, 0, 1, 0x65], au_pts = 0, au_duration = 3000, au_comp_offset = 0, au_keyframe = True,
     au_poc_dec = 0, au_poc_gop = 0, au_poc_val = 0\<rparr>"

definition demo_fragment :: bytes where
  "demo_fragment = fragment_bytes 0 0 [demo_au] None"

lemma demo_facts: "part_facts True demo_fragment = (True, 3000)"
  using part_facts_fragment [of "[demo_au]" None 0 0] by (simp add: demo_fragment_def demo_au_def)

lemma demo_window:
  "sh_cur_parent_msn (pushes [(0, 0, demo_fragment), (0, 1, demo_fragment)] (started 1000 True 200)) = 1"
  by (simp add: pushes_def started_def hls_new_def push_segment_def demo_facts)

theorem listed_segments_stable_witness:
  "fst (media_seg 0 (pushes [(0, 2, demo_fragment)] (pushes [(0, 0, demo_fragment), (0, 1, demo_fragment)] (started 1000 True 200))) 0)
     \<in> {fst (media_seg 0 (pushes [(0, 0, demo_fragment), (0, 1, demo_fragment)] (started 1000 True 200)) 0), Missing}"
  using listed_segments_stable [of "[(0, 0, demo_fragment), (0, 1, demo_fragment)]" "[(0, 2, demo_fragment)]" _ 1000 200 0 0, OF _ _ _ refl]
    demo_window by simp

subsection \<open>Grouping\<close>

definition groups_ok :: "(u64, part) btree_map \<Rightarrow> (u64 \<times> (u64 \<times> part) list) list \<Rightarrow> bool" where
  "groups_ok ps gs \<longleftrightarrow> concat (map snd gs) = ps
     \<and> (\<forall>(m, l) \<in> set gs. l \<noteq> [] \<and> l = filter (\<lambda>(_, p). pt_parent_msn p = m) ps)
     \<and> (ps \<noteq> [] \<longrightarrow> gs \<noteq> [] \<and> map (unat \<circ> fst) gs = [msn (hd ps)..<Suc (msn (last ps))])
     \<and> (ps = [] \<longrightarrow> gs = [])"

lemma groups_okI:
  assumes "concat (map snd gs) = ps" "\<And>m l. (m, l) \<in> set gs \<Longrightarrow> l \<noteq> [] \<and> l = filter (\<lambda>(_, p). pt_parent_msn p = m) ps"
    and "ps \<noteq> []" "gs \<noteq> []" "map (unat \<circ> fst) gs = [msn (hd ps)..<Suc (msn (last ps))]"
  shows "groups_ok ps gs"
  using assms unfolding groups_ok_def by blast

lemma group_snoc: "group_parents (ps @ [sp]) = group_push sp (group_parents ps)"
  by (simp add: group_parents_def)

lemma upt_last: "map f gs = [a..<Suc b] \<Longrightarrow> gs \<noteq> [] \<Longrightarrow> f (last gs) = b"
proof -
  assume gs: "map f gs = [a..<Suc b]" "gs \<noteq> []"
  then have "a < Suc b" by (metis map_is_Nil_conv upt_eq_Nil_conv not_le)
  then show "f (last gs) = b" using gs last_map [OF gs(2), of f] by simp
qed

lemma groups: "steps (map msn ps) \<Longrightarrow> groups_ok ps (group_parents ps)"
proof (induction ps rule: rev_induct)
  case Nil
  then show ?case by (simp add: groups_ok_def group_parents_def)
next
  case (snoc sp ps)
  let ?gs = "group_parents ps"
  have st: "steps (map msn ps)" "ps \<noteq> [] \<longrightarrow> msn sp = msn (last ps) \<or> msn sp = Suc (msn (last ps))"
    using snoc.prems by (auto simp: steps_snoc last_map)
  have IH: "groups_ok ps ?gs" by (rule snoc.IH [OF st(1)])
  show ?case
  proof (cases "ps = []")
    case True
    then show ?thesis by (cases sp) (simp add: group_parents_def group_push_def groups_ok_def)
  next
    case False
    then have gs: "?gs \<noteq> []" "map (unat \<circ> fst) ?gs = [msn (hd ps)..<Suc (msn (last ps))]" using IH by (auto simp: groups_ok_def)
    have lst: "unat (fst (last ?gs)) = msn (last ps)" using upt_last [OF gs(2,1)] by simp
    have split: "?gs = butlast ?gs @ [last ?gs]" using gs(1) by simp
    have bl: "map (unat \<circ> fst) (butlast ?gs) = [msn (hd ps)..<msn (last ps)]"
      using gs(2) by (simp add: map_butlast)
    show ?thesis
    proof (cases "fst (last ?gs) = pt_parent_msn (snd sp)")
      case True
      then have eq: "group_parents (ps @ [sp]) = butlast ?gs @ [(fst (last ?gs), snd (last ?gs) @ [sp])]"
        using gs(1) by (simp add: group_snoc group_push_def)
      have ne: "fst x \<noteq> pt_parent_msn (snd sp)" if "x \<in> set (butlast ?gs)" for x
      proof -
        have "unat (fst x) \<in> set (map (unat \<circ> fst) (butlast ?gs))" using that by auto
        then have "unat (fst x) < msn (last ps)" unfolding bl by simp
        then show ?thesis using lst True by (metis nat_neq_iff)
      qed
      let ?new = "butlast ?gs @ [(fst (last ?gs), snd (last ?gs) @ [sp])]"
      have A: "concat (map snd ?new) = ps @ [sp]"
        using IH arg_cong [OF split, of "\<lambda>gs. concat (map snd gs)"] unfolding groups_ok_def by simp
      have B: "l \<noteq> [] \<and> l = filter (\<lambda>(_, p). pt_parent_msn p = m) (ps @ [sp])" if "(m, l) \<in> set ?new" for m l
      proof (cases "(m, l) \<in> set (butlast ?gs)")
        case True
        then have "l \<noteq> [] \<and> l = filter (\<lambda>(_, p). pt_parent_msn p = m) ps" using IH in_set_butlastD by (fastforce simp: groups_ok_def)
        then show ?thesis using ne [OF True] by (cases sp) auto
      next
        case F: False
        have "(fst (last ?gs), snd (last ?gs)) \<in> set ?gs" using gs(1) by simp
        then have "snd (last ?gs) = filter (\<lambda>(_, p). pt_parent_msn p = fst (last ?gs)) ps"
          using IH unfolding groups_ok_def by blast
        then show ?thesis using F that True by (cases sp) auto
      qed
      have C: "map (unat \<circ> fst) ?new = [msn (hd ps)..<Suc (msn sp)]"
        using bl lst True sorted_le_last [OF steps_sorted [OF st(1)] hd_in_set [OF \<open>ps \<noteq> []\<close>]] by simp
      show ?thesis unfolding eq by (rule groups_okI [OF A B]) (use C \<open>ps \<noteq> []\<close> in simp_all)
    next
      case F: False
      then have eq: "group_parents (ps @ [sp]) = ?gs @ [(pt_parent_msn (snd sp), [sp])]" by (simp add: group_snoc group_push_def)
      have up: "msn sp = Suc (msn (last ps))" using st(2) False F lst by (auto simp: word_unat_eq_iff)
      have le: "msn x \<le> msn (last ps)" if "x \<in> set ps" for x by (rule sorted_le_last [OF steps_sorted [OF st(1)] that])
      have B: "l \<noteq> [] \<and> l = filter (\<lambda>(_, p). pt_parent_msn p = m) (ps @ [sp])"
        if "(m, l) \<in> set (?gs @ [(pt_parent_msn (snd sp), [sp])])" for m l
      proof (cases "(m, l) \<in> set ?gs")
        case True
        have "unat m \<in> set (map (unat \<circ> fst) ?gs)" using True by force
        then have "m \<noteq> pt_parent_msn (snd sp)" unfolding gs(2) using up by auto
        moreover have "l \<noteq> [] \<and> l = filter (\<lambda>(_, p). pt_parent_msn p = m) ps" using IH True by (fastforce simp: groups_ok_def)
        ultimately show ?thesis by (cases sp) auto
      next
        case new: False
        then have m: "m = pt_parent_msn (snd sp)" "l = [sp]" using that by auto
        have "filter (\<lambda>(_, p). pt_parent_msn p = m) ps = []" using le up m(1) by (fastforce simp: filter_empty_conv)
        then show ?thesis using m by (cases sp) simp
      qed
      have A: "concat (map snd (?gs @ [(pt_parent_msn (snd sp), [sp])])) = ps @ [sp]" using IH by (simp add: groups_ok_def)
      have "msn (hd ps) \<le> msn (last ps)" using le [of "hd ps"] False by simp
      then have C: "map (unat \<circ> fst) (?gs @ [(pt_parent_msn (snd sp), [sp])]) = [msn (hd ps)..<Suc (msn sp)]"
        using gs(2) up by simp
      show ?thesis unfolding eq by (rule groups_okI [OF A B]) (use C False in simp_all)
    qed
  qed
qed

subsection \<open>The low-latency playlist\<close>

definition part_tags :: "m3u_line list \<Rightarrow> (real \<times> u64 \<times> bool) list" where
  "part_tags ls = concat (map (\<lambda>l. case l of PartTag d s i \<Rightarrow> [(d, s, i)] | _ \<Rightarrow> []) ls)"

definition ext_infs :: "m3u_line list \<Rightarrow> (real \<times> u64) list" where
  "ext_infs ls = concat (map (\<lambda>l. case l of ExtInf d n \<Rightarrow> [(d, n)] | _ \<Rightarrow> []) ls)"

lemma tags_append [simp]: "part_tags (a @ b) = part_tags a @ part_tags b" "ext_infs (a @ b) = ext_infs a @ ext_infs b"
  "part_tags [] = []" "ext_infs [] = []"
  by (simp_all add: part_tags_def ext_infs_def)

lemma tags_Cons [simp]:
  "part_tags (l # ls) = (case l of PartTag d s i \<Rightarrow> [(d, s, i)] | _ \<Rightarrow> []) @ part_tags ls"
  "ext_infs (l # ls) = (case l of ExtInf d n \<Rightarrow> [(d, n)] | _ \<Rightarrow> []) @ ext_infs ls"
  by (simp_all add: part_tags_def ext_infs_def)

lemma tags_parts [simp]:
  "part_tags (map (\<lambda>(s, p). PartTag (f p) s (h p)) ps) = map (\<lambda>(s, p). (f p, s, h p)) ps"
  "ext_infs (map (\<lambda>(s, p). PartTag (f p) s (h p)) ps) = []"
  by (induction ps) auto

lemma tags_date [simp]: "part_tags (date_line ps) = []" "ext_infs (date_line ps) = []"
  by (simp_all add: date_line_def split: list.split)

lemma tags_concat: "part_tags (concat ls) = concat (map part_tags ls)" "ext_infs (concat ls) = concat (map ext_infs ls)"
  by (induction ls) simp_all

lemma parent_tags:
  "part_tags (parent_lines g k (i, m, ps)) = map (\<lambda>(s, p). (dur_of g p, s, pt_independent p)) ps"
  "ext_infs (parent_lines g k (i, m, ps)) = (if i \<noteq> k then [(parent_dur g ps, m)] else [])"
  by (simp_all add: parent_lines_def)

lemma ll_part_tags:
  "part_tags (ll_lines g) = map (\<lambda>(s, p). (dur_of g p, s, pt_independent p)) (concat (map snd (group_parents (sh_parts g))))"
proof -
  have "concat (map (part_tags \<circ> parent_lines g k) (enumerate j gs)) = map (\<lambda>(s, p). (dur_of g p, s, pt_independent p)) (concat (map snd gs))"
    for k j gs by (induction gs arbitrary: j) (auto simp: parent_tags)
  then show ?thesis by (simp add: ll_lines_def Let_def tags_concat)
qed

lemma ll_ext_infs:
  "ext_infs (ll_lines g) = map (\<lambda>(m, ps). (parent_dur g ps, m)) (butlast (group_parents (sh_parts g)))"
proof -
  have "concat (map (ext_infs \<circ> parent_lines g (j + length gs)) (enumerate j gs)) = map (\<lambda>(m, ps). (parent_dur g ps, m)) gs" for j gs
  proof (induction gs arbitrary: j)
    case (Cons x gs)
    then show ?case using Cons.IH [of "Suc j"] by (cases x) (simp add: parent_tags)
  qed simp
  note closed = this [of 0, simplified]
  have "concat (map (ext_infs \<circ> parent_lines g (length gs - 1)) (enumerate 0 gs)) = map (\<lambda>(m, ps). (parent_dur g ps, m)) (butlast gs)" for gs
  proof (cases gs rule: rev_cases)
    case (snoc hs x)
    then show ?thesis using closed [of hs] by (cases x) (simp add: enumerate_append_eq parent_tags)
  qed simp
  then show ?thesis by (simp add: ll_lines_def Let_def tags_concat)
qed

end
