(* ===== verification/Hls_Playlist.thy ===== *)
theory Hls_Playlist
  imports Hls_Props
begin

section \<open>What the low-latency playlist promises\<close>

text \<open>
  The playlist of a window fed in order, read back tag by tag and compared with the window and
  with what the server answers for every address the playlist contains.
\<close>

subsection \<open>Requests for what is listed\<close>

lemma digit_char: "d < 10 \<Longrightarrow> (of_char (char_of (48 + d) :: char) :: nat) = 48 + d"
  by (simp add: of_char_of)

lemma dec_digits: "list_all is_digit (dec n) \<and> dec n \<noteq> [] \<and> digits_value (dec n) = n"
proof (induction n rule: dec.induct)
  case (1 n)
  show ?case
  proof (cases "n < 10")
    case True
    then show ?thesis by (subst (1 2 3) dec.simps) (simp add: is_digit_def digits_value_def digit_char)
  next
    case False
    have d: "n mod 10 < 10" by simp
    note IH = "1.IH" [OF False]
    have e: "dec n = dec (n div 10) @ [char_of (48 + n mod 10)]" using False by (subst dec.simps) simp
    have "is_digit (char_of (48 + n mod 10))" unfolding is_digit_def digit_char [OF d] using d by simp
    moreover have "digits_value (dec n) = 10 * digits_value (dec (n div 10)) + n mod 10"
      unfolding e digits_value_def foldl_append foldl.simps digit_char [OF d] by simp
    ultimately show ?thesis using IH unfolding e by simp
  qed
qed

lemma parse_dec: "parse_u64 (dec (unat n)) = Some n"
proof -
  note d = dec_digits [of "unat n"]
  have "hd (dec (unat n)) \<noteq> CHR ''+''" using d by (cases "dec (unat n)") (auto simp: is_digit_def)
  moreover have "unat n < 2 ^ 64" using unsigned_less [of n] by simp
  ultimately show ?thesis using d by (simp add: parse_u64_def)
qed

lemma strip_media_dec: "strip_media pre (pre @ dec (unat n) @ ''.m4s'') = Some n"
  by (simp add: strip_media_def parse_dec)

lemma split_on_plain: "c \<notin> set s \<Longrightarrow> split_on c s = [s]"
  by (induction s) auto

lemma dec_plain: "CHR ''?'' \<notin> set (dec n)"
  using dec_digits [of n] by (auto simp: list_all_iff is_digit_def)

lemma handle_part: "hls_handle False (''/part/'' @ dec (unat n) @ ''.m4s'') ws g h = Some (apfst Some (media_part n g h))"
  using strip_media_dec [of "''/part/''" n] by (simp add: hls_handle_def split_on_plain dec_plain)

lemma handle_seg: "hls_handle False (''/seg/'' @ dec (unat n) @ ''.m4s'') ws g h = Some (apfst Some (media_seg n g h))"
proof -
  have "strip_media ''/part/'' (''/seg/'' @ dec (unat n) @ ''.m4s'') = None" by (simp add: strip_media_def)
  then show ?thesis using strip_media_dec [of "''/seg/''" n] by (simp add: hls_handle_def split_on_plain dec_plain)
qed

subsection \<open>The playlist is sound\<close>

lemma fold_max_init: "(a :: real) \<le> fold (\<lambda>x m. max m (f x)) xs a"
proof (induction xs arbitrary: a)
  case (Cons x xs)
  show ?case using order_trans [OF max.cobounded1 Cons.IH [of "max a (f x)"]] by simp
qed simp

lemma fold_max_mem: "x \<in> set xs \<Longrightarrow> f x \<le> fold (\<lambda>x m. max m (f x)) xs (a :: real)"
proof (induction xs arbitrary: a)
  case (Cons y xs)
  then show ?case using order_trans [OF max.cobounded2 fold_max_init [of "max a (f y)" f xs]] by auto
qed simp

lemma fold_max_snd: "fold (\<lambda>(_, y) m. max m (f y)) xs a = fold (\<lambda>x m. max m (f (snd x))) xs (a :: real)"
  by (induction xs arbitrary: a) auto

lemma max_part_ge: "(s, p) \<in> set (sh_parts g) \<Longrightarrow> dur_of g p \<le> max_part g"
  using fold_max_mem [of "(s, p)" "sh_parts g" "\<lambda>sp. dur_of g (snd sp)"] by (simp add: max_part_def fold_max_snd)

lemma max_parent_ge: "(m, ps) \<in> set (group_parents (sh_parts g)) \<Longrightarrow> parent_dur g ps \<le> max_parent g"
  using fold_max_mem [of "(m, ps)" "group_parents (sh_parts g)" "\<lambda>mp. parent_dur g (snd mp)"]
  by (simp add: max_parent_def fold_max_snd)

lemma to_u32_ge: "x \<le> y \<Longrightarrow> f64_to_u32 (ceil_s y) < 2 ^ 32 - 1 \<Longrightarrow> x \<le> real (f64_to_u32 (ceil_s y))"
  unfolding f64_to_u32_def ceil_s_def by (auto simp: max_def min_def split: if_splits) linarith+

lemma ll_head:
  "PartInf (max_part g) \<in> set (ll_lines g)"
  "TargetDuration (f64_to_u32 (ceil_s (max (max_parent g) (ms_to_s (sh_target_ms g))))) \<in> set (ll_lines g)"
  by (simp_all add: ll_lines_def Let_def)

lemma win_groups:
  assumes "win_ok n g" "sh_have_any g"
  shows "concat (map snd (group_parents (sh_parts g))) = sh_parts g"
    and "(m, l) \<in> set (group_parents (sh_parts g)) \<Longrightarrow> l \<noteq> [] \<and> l = members m g"
    and "map (unat \<circ> fst) (butlast (group_parents (sh_parts g))) = [msn (hd (sh_parts g))..<unat (sh_cur_parent_msn g)]"
proof -
  have st: "steps (map msn (sh_parts g))" using assms(1) unfolding win_ok_def by blast
  have ne: "sh_parts g \<noteq> []" "pt_parent_msn (snd (last (sh_parts g))) = sh_cur_parent_msn g" using assms unfolding win_ok_def by simp_all
  have ok: "groups_ok (sh_parts g) (group_parents (sh_parts g))" "sh_parts g \<noteq> []" "msn (last (sh_parts g)) = unat (sh_cur_parent_msn g)"
    using groups [OF st] ne by simp_all
  show "concat (map snd (group_parents (sh_parts g))) = sh_parts g" using ok(1) by (simp add: groups_ok_def)
  show "l \<noteq> [] \<and> l = members m g" if "(m, l) \<in> set (group_parents (sh_parts g))"
  proof -
    have "\<forall>x \<in> set (group_parents (sh_parts g)). case x of (m, l) \<Rightarrow> l \<noteq> [] \<and> l = filter (\<lambda>(_, p). pt_parent_msn p = m) (sh_parts g)"
      using ok(1) unfolding groups_ok_def by (elim conjE)
    from bspec [OF this that] show ?thesis unfolding members_def prod.case .
  qed
  show "map (unat \<circ> fst) (butlast (group_parents (sh_parts g))) = [msn (hd (sh_parts g))..<unat (sh_cur_parent_msn g)]"
  proof -
    have "map (unat \<circ> fst) (group_parents (sh_parts g)) = [msn (hd (sh_parts g))..<Suc (unat (sh_cur_parent_msn g))]"
      using ok(1,2) unfolding groups_ok_def ok(3) by (elim conjE) simp
    then show ?thesis by (simp add: map_butlast)
  qed
qed

text \<open>
  C21: The low-latency playlist of a window fed in order accounts for the window exactly. Its
  part tags are all parts held, in order; its closed segments are numbered without a gap from
  the first parent held up to the open one, each with the summed duration of its parts; no part
  is longer than the announced part target and no segment longer than the announced target
  duration (while that fits 32 bits); and every address it lists is answered with the bytes
  of the part, or of all parts of the segment in order. The init segment and the preload hint
  are not part of this property.
\<close>

theorem ll_playlist_sound:
  assumes "sorted_wrt (<) (seqs_of ms)" "length ms < 2 ^ 64 - 1" "ms \<noteq> []" "g = pushes ms (started t True pm)"
  shows "part_tags (ll_lines g) = map (\<lambda>(s, p). (dur_of g p, s, pt_independent p)) (sh_parts g)
    \<and> map (unat \<circ> snd) (ext_infs (ll_lines g)) = [msn (hd (sh_parts g))..<unat (sh_cur_parent_msn g)]
    \<and> (\<forall>(d, n) \<in> set (ext_infs (ll_lines g)). d = (\<Sum>(_, p)\<leftarrow>members n g. dur_of g p)
        \<and> (\<exists>target. TargetDuration target \<in> set (ll_lines g) \<and> (target < 2 ^ 32 - 1 \<longrightarrow> d \<le> real target))
        \<and> members n g \<noteq> []
        \<and> map_option fst (hls_handle False (''/seg/'' @ dec (unat n) @ ''.m4s'') ws g h)
          = Some (Some (Media (concat (map (\<lambda>(_, p). pt_bytes p) (members n g))))))
    \<and> (\<forall>(s, p) \<in> set (sh_parts g). (\<exists>longest. PartInf longest \<in> set (ll_lines g) \<and> dur_of g p \<le> longest)
        \<and> map_option fst (hls_handle False (''/part/'' @ dec (unat s) @ ''.m4s'') ws g h) = Some (Some (Media (pt_bytes p))))"
proof -
  note g = pushes_started [OF assms(1,2), of t True pm, folded assms(4)]
  note any = g(4) [OF assms(3)]
  note grp = win_groups [OF g(1) any]
  have infs: "ext_infs (ll_lines g) = map (\<lambda>(m, ps). (parent_dur g ps, m)) (butlast (group_parents (sh_parts g)))" by (rule ll_ext_infs)
  have seg: "d = (\<Sum>(_, p)\<leftarrow>members n g. dur_of g p) \<and> d \<le> max (max_parent g) (ms_to_s (sh_target_ms g)) \<and> members n g \<noteq> []"
    if dn: "(d, n) \<in> set (ext_infs (ll_lines g))" for d n
  proof -
    obtain ps where ps: "(n, ps) \<in> set (group_parents (sh_parts g))" "d = parent_dur g ps"
      using dn unfolding infs by (auto dest: in_set_butlastD)
    have mem: "ps \<noteq> []" "ps = members n g" using grp(2) [OF ps(1)] by blast+
    have "d \<le> max (max_parent g) (ms_to_s (sh_target_ms g))" unfolding ps(2) by (rule max.coboundedI1 [OF max_parent_ge [OF ps(1)]])
    then show ?thesis using mem ps(2) by (simp add: parent_dur_def)
  qed
  have served: "map_option fst (hls_handle False (''/seg/'' @ dec (unat n) @ ''.m4s'') ws g h)
      = Some (Some (Media (concat (map (\<lambda>(_, p). pt_bytes p) (members n g)))))" if "members n g \<noteq> []" for n
    unfolding handle_seg using that g(2) by (simp add: media_seg_def)
  have part: "map_option fst (hls_handle False (''/part/'' @ dec (unat s) @ ''.m4s'') ws g h) = Some (Some (Media (pt_bytes p)))"
    if "(s, p) \<in> set (sh_parts g)" for s p
  proof -
    have "distinct (map fst (sh_parts g))" using g(1) by (simp add: win_ok_def bt_distinct)
    then show ?thesis unfolding handle_part using that by (simp add: media_part_def map_of_eq_Some_iff)
  qed
  have tags: "part_tags (ll_lines g) = map (\<lambda>(s, p). (dur_of g p, s, pt_independent p)) (sh_parts g)"
    unfolding ll_part_tags grp(1) ..
  have nums: "map (unat \<circ> snd) (ext_infs (ll_lines g)) = [msn (hd (sh_parts g))..<unat (sh_cur_parent_msn g)]"
    unfolding grp(3) [symmetric] infs by (simp add: comp_def split_beta)
  have "\<forall>(d, n) \<in> set (ext_infs (ll_lines g)). d = (\<Sum>(_, p)\<leftarrow>members n g. dur_of g p)
        \<and> (\<exists>target. TargetDuration target \<in> set (ll_lines g) \<and> (target < 2 ^ 32 - 1 \<longrightarrow> d \<le> real target))
        \<and> members n g \<noteq> []
        \<and> map_option fst (hls_handle False (''/seg/'' @ dec (unat n) @ ''.m4s'') ws g h)
          = Some (Some (Media (concat (map (\<lambda>(_, p). pt_bytes p) (members n g)))))"
    using seg served to_u32_ge ll_head(2) [of g] by blast
  moreover have "\<forall>(s, p) \<in> set (sh_parts g). (\<exists>longest. PartInf longest \<in> set (ll_lines g) \<and> dur_of g p \<le> longest)
        \<and> map_option fst (hls_handle False (''/part/'' @ dec (unat s) @ ''.m4s'') ws g h) = Some (Some (Media (pt_bytes p)))"
    using part max_part_ge ll_head(1) [of g] by blast
  ultimately show ?thesis using tags nums by blast
qed

theorem ll_playlist_sound_witness:
  "map (unat \<circ> snd) (ext_infs (ll_lines (pushes [(0, 0, demo_fragment), (0, 1, demo_fragment)] (started 1000 True 200)))) = [0]"
  using ll_playlist_sound [of "[(0, 0, demo_fragment), (0, 1, demo_fragment)]" _ 1000 200 "[]" 0, OF _ _ _ refl]
  by (simp add: pushes_def started_def hls_new_def push_segment_def demo_facts evict_parents.simps MAX_LIVE_PARTS_def)

subsection \<open>Blocking reload\<close>

lemma live_edge_win:
  "win_ok n g \<Longrightarrow> sh_have_any g \<Longrightarrow>
   live_edge (sh_parts g) = Some (sh_cur_parent_msn g, of_nat (length (members (sh_cur_parent_msn g) g)) - 1)"
  by (simp add: win_ok_def live_edge_def members_def Let_def)

lemma members_push:
  assumes "win_ok n g" "Suc n < 2 ^ 64" "\<forall>x \<in> set (sh_parts g). fst x < seq" "sh_have_any g"
    and g': "g' = push_segment w seq b g"
  shows "win_ok (Suc n) g'" "sh_have_any g'" "sh_ll g' = sh_ll g"
    and "sh_cur_parent_msn g < sh_cur_parent_msn g' \<or> sh_cur_parent_msn g' = sh_cur_parent_msn g
      \<and> length (members (sh_cur_parent_msn g') g') = Suc (length (members (sh_cur_parent_msn g) g))"
    and "\<exists>q. last (sh_parts g') = (seq, q) \<and> pt_bytes q = b"
proof -
  obtain c p where cp: "sh_parts g' = filter (\<lambda>sp. c \<le> msn sp) (sh_parts g @ [(seq, p)])" "c \<le> unat (sh_cur_parent_msn g')"
    "pt_parent_msn p = sh_cur_parent_msn g'" "win_ok (Suc n) g'" "sh_ll g' = sh_ll g" "sh_have_any g'"
    "sh_have_any g \<longrightarrow> unat (sh_cur_parent_msn g') \<in> {unat (sh_cur_parent_msn g), Suc (unat (sh_cur_parent_msn g))}" "pt_bytes p = b"
    using push_spec [OF assms(1-3) g'] by metis
  show "win_ok (Suc n) g'" "sh_have_any g'" "sh_ll g' = sh_ll g" by (fact cp)+
  have up: "sh_cur_parent_msn g' = sh_cur_parent_msn g \<or> unat (sh_cur_parent_msn g) < unat (sh_cur_parent_msn g')"
    using cp(7) assms(4) by (auto simp: word_unat_eq_iff)
  have "members (sh_cur_parent_msn g') g' = members (sh_cur_parent_msn g') g @ [(seq, p)]"
    unfolding members_def cp(1) using cp(2,3) by (auto simp: filter_filter intro!: filter_cong)
  then show "sh_cur_parent_msn g < sh_cur_parent_msn g' \<or> sh_cur_parent_msn g' = sh_cur_parent_msn g
      \<and> length (members (sh_cur_parent_msn g') g') = Suc (length (members (sh_cur_parent_msn g) g))"
    using up by (auto simp: word_less_nat_alt)
  show "\<exists>q. last (sh_parts g') = (seq, q) \<and> pt_bytes q = b" unfolding cp(1) using cp(2,3,8) by simp
qed

lemma wait_ready_now: "edge_ready want g \<Longrightarrow> wait_ready want g wakes = Some g"
  by (cases wakes) auto

text \<open>Wake-ups that leave the thread waiting: the wait did not time out and the edge is not there yet.\<close>

definition idle_wakes :: "u64 \<times> u64 \<Rightarrow> (shared \<times> bool) list \<Rightarrow> bool" where
  "idle_wakes want ws \<longleftrightarrow> list_all (\<lambda>(g, timed_out). \<not> timed_out \<and> \<not> edge_ready want g) ws"

lemma wait_ready_idle: "\<not> edge_ready want g \<Longrightarrow> idle_wakes want ws \<Longrightarrow> wait_ready want g ws = None"
  by (induction ws arbitrary: g) (auto simp: idle_wakes_def)

lemma wait_ready_returns:
  "\<not> edge_ready want g \<Longrightarrow> idle_wakes want ws \<Longrightarrow> timed_out \<or> edge_ready want g' \<Longrightarrow>
   wait_ready want g (ws @ (g', timed_out) # wakes) = Some g'"
  by (induction ws arbitrary: g) (auto simp: idle_wakes_def wait_ready_now)

lemma split_on_first: "c \<notin> set a \<Longrightarrow> split_on c (a @ c # b) = a # split_on c b"
  by (induction a) auto

lemma dec_no: "\<not> is_digit c \<Longrightarrow> c \<notin> set (dec n)"
  using dec_digits [of n] by (auto simp: list_all_iff)

definition reload_url :: "u64 \<Rightarrow> u64 \<Rightarrow> string" where
  "reload_url m p = ''/live.m3u8?_HLS_msn='' @ dec (unat m) @ ''&_HLS_part='' @ dec (unat p)"

lemma reload_split: "split_on CHR ''?'' (reload_url m p) = [''/live.m3u8'', ''_HLS_msn='' @ dec (unat m) @ ''&_HLS_part='' @ dec (unat p)]"
  by (simp add: reload_url_def split_on_plain dec_no is_digit_def)

lemma reload_target: "blocking_target (reload_url m p) = Some (m, p)"
proof -
  have "split_on CHR ''&'' (''_HLS_msn='' @ dec (unat m) @ ''&_HLS_part='' @ dec (unat p)) = [''_HLS_msn='' @ dec (unat m), ''_HLS_part='' @ dec (unat p)]"
    using split_on_first [of "CHR ''&''" "''_HLS_msn='' @ dec (unat m)" "''_HLS_part='' @ dec (unat p)"]
    by (simp add: split_on_plain dec_no is_digit_def)
  moreover have "query_pair (''_HLS_msn='' @ dec (unat m)) (None, 0) = (Some m, 0)"
    by (simp add: query_pair_def split_once_def parse_dec)
  moreover have "query_pair (''_HLS_part='' @ dec (unat p)) (Some m, 0) = (Some m, p)"
    by (simp add: query_pair_def split_once_def parse_dec)
  ultimately show ?thesis by (simp add: blocking_target_def reload_split)
qed

text \<open>
  C23: A low-latency sink whose parts are pushed in ascending order of their sequence numbers
  is asked for the part after the live edge. The request waits; however many wake-ups find
  neither the part nor the deadline passed, it goes on waiting; the next part pushed, whatever
  it holds, ends the wait, and the answer is the playlist that lists the new part; and a wait
  that times out ends it too, with the playlist as it is then. So the deadline bounds one wait
  and not the request. A part that arrives late is outside this property.
\<close>

theorem blocking_reload_returns:
  assumes "sorted_wrt (<) (seqs_of (ms @ [(w, seq, b)]))" "length ms < 2 ^ 64 - 2" "ms \<noteq> []"
    and "g = pushes ms (started t True pm)" "g' = pushes (ms @ [(w, seq, b)]) (started t True pm)"
    and "live_edge (sh_parts g) = Some (m, p)" and "idle_wakes (m, p + 1) idle"
  shows "\<not> edge_ready (m, p + 1) g
    \<and> hls_handle False (reload_url m (p + 1)) idle g h = None
    \<and> hls_handle False (reload_url m (p + 1)) (idle @ (g', False) # wakes) g h = Some (Some (Playlist (ll_playlist g')), h)
    \<and> (\<exists>q. last (sh_parts g') = (seq, q) \<and> pt_bytes q = b)
    \<and> (\<forall>late. sh_ll late \<longrightarrow>
         hls_handle False (reload_url m (p + 1)) (idle @ (late, True) # wakes) g h = Some (Some (Playlist (ll_playlist late)), h))"
proof -
  have s: "sorted_wrt (<) (seqs_of ms)" "\<forall>a \<in> set (seqs_of ms). a < seq" using assms(1) by (simp_all add: sorted_wrt_append)
  have l: "length ms < 2 ^ 64 - 1" "Suc (length ms) < 2 ^ 64" using assms(2) by simp_all
  note g = pushes_started [OF s(1) l(1), of t True pm, folded assms(4)]
  note any = g(4) [OF assms(3)]
  have "set (held g) \<subseteq> set (map snd ms)" using g(5) set_mono_suffix by blast
  then have "\<forall>x \<in> set (sh_parts g). fst x \<in> set (seqs_of ms)" by (force simp: held_def)
  then have keys: "\<forall>x \<in> set (sh_parts g). fst x < seq" using s(2) by blast
  have g': "g' = push_segment w seq b g" by (simp add: assms(4,5) pushes_def)
  note push = members_push [OF g(1) l(2) keys any g']
  let ?n = "length (members (sh_cur_parent_msn g) g)"
  have edge: "m = sh_cur_parent_msn g" "p = of_nat ?n - 1" using assms(6) unfolding live_edge_win [OF g(1) any] by auto
  have "?n \<le> length (sh_parts g)" unfolding members_def by (rule length_filter_le)
  also have "length (sh_parts g) \<le> length ms" using suffix_length_le [OF g(5)] by (simp add: held_def)
  finally have n: "?n < 2 ^ 64" using l by simp
  have "members (sh_cur_parent_msn g) g \<noteq> []"
    using g(1) any unfolding win_ok_def members_def by (auto simp: filter_empty_conv intro!: bexI [OF _ last_in_set])
  then have pos: "(of_nat ?n :: u64) \<noteq> 0" using n by (simp add: of_nat_eq_0_iff unat_of_nat word_unat_eq_iff take_bit_nat_eq_self)
  have not: "\<not> edge_ready (m, p + 1) g"
    using measure_unat [OF pos] assms(6) by (simp add: edge_ready_def edge(2) word_le_nat_alt)
  have ready: "edge_ready (m, p + 1) g'"
    using push(4) live_edge_win [OF push(1,2)] by (auto simp: edge_ready_def edge)
  have url: "hls_handle False (reload_url m (p + 1)) ws g h
      = map_option (\<lambda>g. (Some (Playlist (if sh_ll g then ll_playlist g else standard_playlist (sh_target_ms g) (sh_parts g))), h))
          (wait_ready (m, p + 1) g ws)" for ws
    by (simp add: hls_handle_def reload_split reload_target g(2))
  have "hls_handle False (reload_url m (p + 1)) (idle @ (x, late) # wakes) g h = Some (Some (Playlist (ll_playlist x)), h)"
    if "late \<or> edge_ready (m, p + 1) x" "sh_ll x" for x late
    unfolding url wait_ready_returns [OF not assms(7) that(1)] using that(2) by simp
  then show ?thesis
    using not ready push(3,5) g(2) wait_ready_idle [OF not assms(7)] by (auto simp: url)
qed

lemma demo_edge: "live_edge (sh_parts (pushes [(0, 0, demo_fragment)] (started 1000 True 200))) = Some (0, 0)"
  by (simp add: pushes_def started_def hls_new_def push_segment_def demo_facts evict_parents.simps MAX_LIVE_PARTS_def live_edge_def)

theorem blocking_reload_returns_witness:
  "let g = pushes [(0, 0, demo_fragment)] (started 1000 True 200); g' = pushes [(0, 0, demo_fragment), (5, 1, [7])] (started 1000 True 200)
   in hls_handle False (reload_url 0 1) [(g, False), (g, False)] g 3 = None
    \<and> hls_handle False (reload_url 0 1) [(g, False), (g, False), (g', False)] g 3 = Some (Some (Playlist (ll_playlist g')), 3)
    \<and> hls_handle False (reload_url 0 1) [(g, False), (g, False), (g, True)] g 3 = Some (Some (Playlist (ll_playlist g)), 3)"
proof -
  let ?g = "pushes [(0, 0, demo_fragment)] (started 1000 True 200)"
  have "sh_ll ?g" using pushes_started(2) [of "[(0, 0, demo_fragment)]" 1000 True 200] by simp
  moreover have "idle_wakes (0, 0 + 1) [(?g, False), (?g, False)]" using demo_edge by (simp add: idle_wakes_def edge_ready_def)
  ultimately show ?thesis
    using blocking_reload_returns [of "[(0, 0, demo_fragment)]" 5 1 "[7]" _ 1000 200 _ 0 0 "[(?g, False), (?g, False)]" 3 "[]", OF _ _ _ refl refl demo_edge]
    by (simp add: Let_def)
qed

end
