(* ===== verification/Rtp.thy ===== *)
theory Rtp
  imports Fragment_Builder Sps
begin

section \<open>RTP packets of the ingest\<close>

text \<open>
  \<open>rtp.rs\<close> of \<open>whip-ingest\<close>: the H.264 depacketizer (single NAL units, STAP-A and FU-A, with loss
  recovery at keyframes), the Opus depacketizer and the packetizer of the media fast tier.
  Every state change of the source is here; a packet that is dropped leaves the state alone.
\<close>

subsection \<open>Packets\<close>

definition ANNEX_B :: bytes where "ANNEX_B = [0, 0, 0, 1]"
definition MAX_RTP_LEN :: nat where "MAX_RTP_LEN = 64 * 1024"
definition MAX_AU_BYTES :: nat where "MAX_AU_BYTES = 4 * 1024 * 1024"
definition RTP_HEADER :: nat where "RTP_HEADER = 12"
definition DEFAULT_MTU :: nat where "DEFAULT_MTU = 1200"

definition be_at :: "nat \<Rightarrow> nat \<Rightarrow> bytes \<Rightarrow> nat" where
  "be_at n off pkt = nat_of_be (take n (drop off pkt))"

definition payload_start :: "bytes \<Rightarrow> nat option" where
  "payload_start pkt =
     (let off = 12 + unat (pkt ! 0 AND 0x0F) * 4
      in if pkt ! 0 AND 0x10 \<noteq> 0
         then (if length pkt < off + 4 then None else Some (off + (4 + be_at 2 (off + 2) pkt * 4)))
         else Some off)"

definition payload_end :: "nat \<Rightarrow> bytes \<Rightarrow> nat option" where
  "payload_end off pkt =
     (if pkt ! 0 AND 0x20 \<noteq> 0
      then (let p = unat (last pkt) in if p = 0 \<or> length pkt - off < p then None else Some (length pkt - p))
      else Some (length pkt))"

definition rtp_payload :: "bytes \<Rightarrow> bytes option" where
  "rtp_payload pkt =
     (if length pkt < 12 \<or> MAX_RTP_LEN < length pkt \<or> drop_bit 6 (pkt ! 0) \<noteq> 2 then None
      else if 192 \<le> pkt ! 1 \<and> pkt ! 1 \<le> 223 then None
      else
        (case payload_start pkt of
           None \<Rightarrow> None
         | Some off \<Rightarrow>
             (case payload_end off pkt of
                None \<Rightarrow> None
              | Some end' \<Rightarrow> if end' \<le> off then None else Some (drop off (take end' pkt)))))"

definition rtp_seq :: "bytes \<Rightarrow> u16" where "rtp_seq pkt = of_nat (be_at 2 2 pkt)"
definition rtp_ts :: "bytes \<Rightarrow> u32" where "rtp_ts pkt = of_nat (be_at 4 4 pkt)"

subsection \<open>H.264 depacketizer\<close>

record access_unit =
  ac_data :: bytes
  ac_pts_us :: int
  ac_keyframe :: bool

record depacketizer =
  dp_au :: bytes
  dp_au_has_idr :: bool
  dp_fu :: bytes
  dp_last_seq :: "u16 option"
  dp_last_ts :: "u32 option"
  dp_ts_unwrapped :: u64
  dp_base_ts :: "u64 option"
  dp_wait_keyframe :: bool
  dp_sps :: "bytes option"
  dp_pps :: "bytes option"
  dp_sps_pps_updated :: bool

definition depacketizer_new :: depacketizer where
  "depacketizer_new = \<lparr>dp_au = [], dp_au_has_idr = False, dp_fu = [], dp_last_seq = None, dp_last_ts = None,
     dp_ts_unwrapped = 0, dp_base_ts = None, dp_wait_keyframe = True, dp_sps = None, dp_pps = None,
     dp_sps_pps_updated = False\<rparr>"

definition take_config :: "depacketizer \<Rightarrow> (bytes \<times> bytes) option \<times> depacketizer" where
  "take_config d =
     (if \<not> dp_sps_pps_updated d then (None, d)
      else
        (case (dp_sps d, dp_pps d) of
           (Some s, Some p) \<Rightarrow> (Some (s, p), d\<lparr>dp_sps_pps_updated := False\<rparr>)
         | _ \<Rightarrow> (None, d)))"

definition poison :: "depacketizer \<Rightarrow> depacketizer" where
  "poison d = d\<lparr>dp_au := [], dp_fu := [], dp_au_has_idr := False, dp_wait_keyframe := True\<rparr>"

definition note_nal :: "bytes \<Rightarrow> depacketizer \<Rightarrow> depacketizer" where
  "note_nal nal d =
     (let t = hd nal AND 0x1F
      in if t = 5 then d\<lparr>dp_au_has_idr := True\<rparr>
         else if t = 7 then (if dp_sps d \<noteq> Some nal then d\<lparr>dp_sps := Some nal, dp_sps_pps_updated := True\<rparr> else d)
         else if t = 8 then (if dp_pps d \<noteq> Some nal then d\<lparr>dp_pps := Some nal, dp_sps_pps_updated := True\<rparr> else d)
         else d)"

definition take_nal :: "bytes \<Rightarrow> depacketizer \<Rightarrow> depacketizer" where
  "take_nal nal d =
     (if nal = [] \<or> MAX_AU_BYTES < length (dp_au d) + length nal + 4 then poison d
      else (let d' = note_nal nal d in d'\<lparr>dp_au := dp_au d' @ ANNEX_B @ nal\<rparr>))"

function stap_a :: "bytes \<Rightarrow> depacketizer \<Rightarrow> depacketizer" where
  "stap_a p d =
     (if length p < 2 then d
      else
        (let len = be_at 2 0 p; p' = drop 2 p
         in if len = 0 \<or> length p' < len then poison d
            else stap_a (drop len p') (take_nal (take len p') d)))"
  by auto
termination
  by (relation "measure (\<lambda>(p, _). length p)") auto

declare stap_a.simps [simp del]

definition fu_a :: "bytes \<Rightarrow> depacketizer \<Rightarrow> depacketizer" where
  "fu_a payload d =
     (if length payload < 2 then poison d
      else
        (let indicator = payload ! 0; fu = payload ! 1;
             d1 = (if fu AND 0x80 \<noteq> 0 then d\<lparr>dp_fu := [(indicator AND 0xE0) OR (fu AND 0x1F)]\<rparr>
                   else if dp_fu d = [] then poison d
                   else d)
         in if dp_fu d1 = [] then d1
            else if MAX_AU_BYTES < length (dp_fu d1) + length payload then poison d1
            else
              (let nal = dp_fu d1 @ drop 2 payload
               in if fu AND 0x40 \<noteq> 0 then take_nal nal (d1\<lparr>dp_fu := []\<rparr>) else d1\<lparr>dp_fu := nal\<rparr>)))"

definition note_seq :: "u16 \<Rightarrow> depacketizer \<Rightarrow> depacketizer" where
  "note_seq seq d =
     (let d' = (case dp_last_seq d of Some last' \<Rightarrow> if seq \<noteq> last' + 1 then poison d else d | None \<Rightarrow> d)
      in d'\<lparr>dp_last_seq := Some seq\<rparr>)"

text \<open>The absolute value of the smallest \<open>i32\<close> wraps to itself.\<close>

definition i32_abs :: "u32 \<Rightarrow> int" where
  "i32_abs x = (if sint x < 0 then sint (- x) else sint x)"

definition MAX_TS_JUMP :: int where "MAX_TS_JUMP = 10 * 90000"

definition saturating_add_signed :: "u64 \<Rightarrow> int \<Rightarrow> u64" where
  "saturating_add_signed a s = word_of_int (max 0 (min (uint a + s) (2 ^ 64 - 1)))"

definition note_ts :: "u32 \<Rightarrow> depacketizer \<Rightarrow> depacketizer" where
  "note_ts ts d =
     (let d' = (case dp_last_ts d of
                  Some last' \<Rightarrow>
                    if i32_abs (ts - last') \<le> MAX_TS_JUMP
                    then d\<lparr>dp_ts_unwrapped := saturating_add_signed (dp_ts_unwrapped d) (sint (ts - last'))\<rparr>
                    else d
                | None \<Rightarrow> d)
      in d'\<lparr>dp_last_ts := Some ts,
            dp_base_ts := (case dp_base_ts d' of None \<Rightarrow> Some (dp_ts_unwrapped d') | b \<Rightarrow> b)\<rparr>)"

definition take_payload :: "bytes \<Rightarrow> depacketizer \<Rightarrow> depacketizer" where
  "take_payload payload d =
     (let t = payload ! 0 AND 0x1F
      in if 1 \<le> t \<and> t \<le> 23 then take_nal payload d
         else if t = 24 then stap_a (drop 1 payload) d
         else if t = 28 then fu_a payload d
         else poison d)"

definition pts_us :: "u64 \<Rightarrow> u64 \<Rightarrow> int" where
  "pts_us ts base = rust_div (i64_wrap (i64_wrap (sint ts - sint base) * 1000)) 90"

definition close_au :: "depacketizer \<Rightarrow> access_unit option \<times> depacketizer" where
  "close_au d =
     (let data = dp_au d; keyframe = dp_au_has_idr d;
          d1 = d\<lparr>dp_au := [], dp_au_has_idr := False\<rparr>
      in if data = [] then (None, d1)
         else if dp_wait_keyframe d1 \<and> \<not> keyframe then (None, d1)
         else
           (Some \<lparr>ac_data = data,
                  ac_pts_us = pts_us (dp_ts_unwrapped d1) (case dp_base_ts d1 of Some b \<Rightarrow> b | None \<Rightarrow> 0),
                  ac_keyframe = keyframe\<rparr>,
            d1\<lparr>dp_wait_keyframe := False\<rparr>))"

definition push_rtp :: "bytes \<Rightarrow> depacketizer \<Rightarrow> access_unit option \<times> depacketizer" where
  "push_rtp pkt d =
     (case rtp_payload pkt of
        None \<Rightarrow> (None, d)
      | Some payload \<Rightarrow>
          (let d' = take_payload payload (note_ts (rtp_ts pkt) (note_seq (rtp_seq pkt) d))
           in if pkt ! 1 AND 0x80 = 0 then (None, d') else close_au d'))"

subsection \<open>Opus depacketizer\<close>

record opus_frame =
  of_data :: bytes
  of_ts48 :: u64

record opus_depacketizer =
  od_last_ts :: "u32 option"
  od_ts_unwrapped :: u64
  od_base_ts :: "u64 option"

definition opus_new :: opus_depacketizer where
  "opus_new = \<lparr>od_last_ts = None, od_ts_unwrapped = 0, od_base_ts = None\<rparr>"

definition opus_note_ts :: "u32 \<Rightarrow> opus_depacketizer \<Rightarrow> opus_depacketizer" where
  "opus_note_ts ts d =
     (let d' = (case od_last_ts d of
                  Some last' \<Rightarrow>
                    (let delta = ts - last'
                     in if delta < push_bit 31 1 \<and> delta \<le> 10 * 48000
                        then d\<lparr>od_ts_unwrapped := od_ts_unwrapped d + ucast delta\<rparr> else d)
                | None \<Rightarrow> d)
      in d'\<lparr>od_last_ts := Some ts,
            od_base_ts := (case od_base_ts d' of None \<Rightarrow> Some (od_ts_unwrapped d') | b \<Rightarrow> b)\<rparr>)"

definition opus_push :: "bytes \<Rightarrow> opus_depacketizer \<Rightarrow> opus_frame option \<times> opus_depacketizer" where
  "opus_push pkt d =
     (case rtp_payload pkt of
        None \<Rightarrow> (None, d)
      | Some payload \<Rightarrow>
          (let d' = opus_note_ts (rtp_ts pkt) d
           in (Some \<lparr>of_data = payload, of_ts48 = od_ts_unwrapped d' - (case od_base_ts d' of Some b \<Rightarrow> b | None \<Rightarrow> 0)\<rparr>, d')))"

subsection \<open>H.264 packetizer\<close>

record packetizer =
  pk_ssrc :: u32
  pk_payload_type :: u8
  pk_seq :: u16

definition packetizer_new :: "u32 \<Rightarrow> u8 \<Rightarrow> packetizer" where
  "packetizer_new ssrc payload_type = \<lparr>pk_ssrc = ssrc, pk_payload_type = payload_type, pk_seq = 0\<rparr>"

definition rtp_packet :: "bool \<Rightarrow> u32 \<Rightarrow> bytes \<Rightarrow> packetizer \<Rightarrow> bytes \<times> packetizer" where
  "rtp_packet marker ts payload k =
     ([0x80, (pk_payload_type k AND 0x7F) OR (if marker then 0x80 else 0)] @ be16 (pk_seq k) @ be32 ts @ be32 (pk_ssrc k) @ payload,
      k\<lparr>pk_seq := pk_seq k + 1\<rparr>)"

function payload_starts :: "bytes \<Rightarrow> nat \<Rightarrow> nat list" where
  "payload_starts b i =
     (if i + 3 \<le> length b then
        (if b ! i = 0 \<and> b ! (i + 1) = 0 \<and> b ! (i + 2) = 1 then (i + 3) # payload_starts b (i + 3) else payload_starts b (i + 1))
      else [])"
  by auto
termination
  by (relation "measure (\<lambda>(b, i). length b - i)") auto

declare payload_starts.simps [simp del]

fun nals_from :: "bytes \<Rightarrow> nat list \<Rightarrow> bytes list" where
  "nals_from b [] = []"
| "nals_from b (s # starts) =
     (let end' = (case starts of
                    n # _ \<Rightarrow> (let next' = n - 3 in if 0 < next' \<and> b ! (next' - 1) = 0 then next' - 1 else next')
                  | [] \<Rightarrow> length b)
      in (if s < end' then [drop s (take end' b)] else []) @ nals_from b starts)"

definition rtp_annexb_nals :: "bytes \<Rightarrow> bytes list" where
  "rtp_annexb_nals b = nals_from b (payload_starts b 0)"

definition fu_header :: "bool \<Rightarrow> bool \<Rightarrow> u8 \<Rightarrow> u8" where
  "fu_header start end' hdr = push_bit 7 (of_bool start) OR push_bit 6 (of_bool end') OR (hdr AND 0x1F)"

function fu_loop :: "u32 \<Rightarrow> nat \<Rightarrow> u8 \<Rightarrow> bytes \<Rightarrow> nat \<Rightarrow> packetizer \<Rightarrow> bytes list \<times> packetizer" where
  "fu_loop ts max_payload hdr body i k =
     (if i < length body then
        (let end' = min (i + max (max_payload - 2) 1) (length body);
             payload = [(hdr AND 0xE0) OR 28, fu_header (i = 0) (end' = length body) hdr] @ drop i (take end' body);
             (p, k1) = rtp_packet False ts payload k;
             (ps, k2) = fu_loop ts max_payload hdr body end' k1
         in (p # ps, k2))
      else ([], k))"
  by auto
termination
  by (relation "measure (\<lambda>(_, _, _, body, i, _). length body - i)") auto

declare fu_loop.simps [simp del]

definition packetize_nal :: "u32 \<Rightarrow> nat \<Rightarrow> bytes \<Rightarrow> packetizer \<Rightarrow> bytes list \<times> packetizer" where
  "packetize_nal ts max_payload nal k =
     (if nal = [] then ([], k)
      else if length nal \<le> max_payload then (let (p, k1) = rtp_packet False ts nal k in ([p], k1))
      else fu_loop ts max_payload (hd nal) (tl nal) 0 k)"

fun packetize_nals :: "u32 \<Rightarrow> nat \<Rightarrow> bytes list \<Rightarrow> packetizer \<Rightarrow> bytes list \<times> packetizer" where
  "packetize_nals ts max_payload [] k = ([], k)"
| "packetize_nals ts max_payload (nal # nals) k =
     (let (ps, k1) = packetize_nal ts max_payload nal k;
          (qs, k2) = packetize_nals ts max_payload nals k1
      in (ps @ qs, k2))"

definition set_marker :: "bytes \<Rightarrow> bytes" where
  "set_marker p = p[1 := p ! 1 OR 0x80]"

definition packetize :: "bytes \<Rightarrow> u32 \<Rightarrow> nat \<Rightarrow> packetizer \<Rightarrow> bytes list \<times> packetizer" where
  "packetize data ts mtu k =
     (let nals = rtp_annexb_nals data
      in if nals = [] then ([], k)
         else
           (let (ps, k1) = packetize_nals ts (max (mtu - RTP_HEADER) 2) nals k
            in (if ps = [] then [] else butlast ps @ [set_marker (last ps)], k1)))"

end
