(* ===== verification/Rtp_Props.thy ===== *)
theory Rtp_Props
  imports Rtp
begin

section \<open>Packets carry access units\<close>

text \<open>
  The depacketizer inverts the packetizer on any stream of access units and any packet size,
  keeps its buffers bounded on any input, and never shows the damage of a lost packet beyond
  the leading units of a keyframe.
\<close>

unbundle bit_operations_syntax

subsection \<open>Bits of the headers\<close>

lemma u8_eqI: "(\<And>n. n < 8 \<Longrightarrow> bit a n = bit (b :: u8) n) \<Longrightarrow> a = b"
  by (rule bit_word_eqI) simp

lemma less_8: "n < (8 :: nat) \<longleftrightarrow> n \<in> {0, 1, 2, 3, 4, 5, 6, 7}"
  by auto

lemma hdr_parts: "(hdr AND 0xE0) OR (hdr AND 0x1F) = (hdr :: u8)"
  by (rule u8_eqI) (auto simp: less_8 bit_simps)

lemma indicator_bits:
  "((hdr AND 0xE0) OR 28) AND 0x1F = (28 :: u8)"
  "((hdr AND 0xE0) OR 28) AND 0xE0 = hdr AND (0xE0 :: u8)"
  by (rule u8_eqI, auto simp: less_8 bit_simps)+

lemma fu_header_bits:
  "fu_header s e hdr AND 0x80 = 0 \<longleftrightarrow> \<not> s" "fu_header s e hdr AND 0x40 = 0 \<longleftrightarrow> \<not> e"
  "fu_header s e hdr AND 0x1F = hdr AND 0x1F"
proof -
  have "fu_header s e hdr AND 0x80 = (if s then 0x80 else 0)" "fu_header s e hdr AND 0x40 = (if e then 0x40 else 0)"
    by (rule u8_eqI, auto simp: less_8 bit_simps fu_header_def)+
  then show "fu_header s e hdr AND 0x80 = 0 \<longleftrightarrow> \<not> s" "fu_header s e hdr AND 0x40 = 0 \<longleftrightarrow> \<not> e" by simp_all
  show "fu_header s e hdr AND 0x1F = hdr AND 0x1F"
    by (rule u8_eqI) (auto simp: less_8 bit_simps fu_header_def)
qed

subsection \<open>Reading a packet back\<close>

definition pt_ok :: "u8 \<Rightarrow> bool" where
  "pt_ok pt \<longleftrightarrow> pt AND 0x7F < 64 \<or> 95 < pt AND 0x7F"

definition packet :: "packetizer \<Rightarrow> u32 \<Rightarrow> u16 \<Rightarrow> bool \<Rightarrow> bytes \<Rightarrow> bytes" where
  "packet k ts seq marker payload =
     [0x80, (pk_payload_type k AND 0x7F) OR (if marker then 0x80 else 0)] @ be16 seq @ be32 ts @ be32 (pk_ssrc k) @ payload"

lemma rtp_packet_eq: "rtp_packet m ts payload k = (packet k ts (pk_seq k) m payload, k\<lparr>pk_seq := pk_seq k + 1\<rparr>)"
  by (simp add: rtp_packet_def packet_def)

lemma length_packet [simp]: "length (packet k ts seq m payload) = 12 + length payload"
  by (simp add: packet_def)

lemma packet_head: "packet k ts seq m payload ! 0 = 0x80"
  "packet k ts seq m payload ! 1 = (pk_payload_type k AND 0x7F) OR (if m then 0x80 else 0)"
  by (simp_all add: packet_def)

lemma set_marker_packet: "set_marker (packet k ts seq False payload) = packet k ts seq True payload"
  by (simp add: set_marker_def packet_def)

lemma marker_bit: "((pt AND 0x7F) OR (if m then 0x80 else 0)) AND 0x80 = (0 :: u8) \<longleftrightarrow> \<not> m"
proof -
  have "((pt AND 0x7F) OR (if m then 0x80 else 0)) AND 0x80 = (if m then 0x80 else 0 :: u8)"
    by (rule u8_eqI) (auto simp: less_8 bit_simps)
  then show ?thesis by simp
qed

lemma not_rtcp:
  assumes "pt_ok pt"
  shows "\<not> (192 \<le> (pt AND 0x7F) OR (if m then 0x80 else 0) \<and> (pt AND 0x7F) OR (if m then 0x80 else 0) \<le> (223 :: u8))"
proof -
  have lt: "unat (pt AND 0x7F) < 128"
    using word_and_le1 [of pt "0x7F"] by (simp add: word_le_nat_alt)
  have "(pt AND 0x7F) OR 0x80 = (pt AND 0x7F) + 0x80"
    by (rule disjunctive_add [symmetric]) (auto simp: bit_simps less_8 dest!: bit_imp_le_length)
  then have u: "unat ((pt AND 0x7F) OR 0x80) = unat (pt AND 0x7F) + 128"
    using lt by (simp add: unat_word_ariths)
  show ?thesis
  proof (cases m)
    case True
    then show ?thesis using assms u lt by (auto simp: pt_ok_def word_le_nat_alt word_less_nat_alt)
  next
    case False
    then show ?thesis using lt by (simp add: word_le_nat_alt)
  qed
qed

lemma packet_fields: "rtp_seq (packet k ts seq m payload) = seq" "rtp_ts (packet k ts seq m payload) = ts"
proof -
  have "take 2 (drop 2 (packet k ts seq m payload)) = be16 seq" "take 4 (drop 4 (packet k ts seq m payload)) = be32 ts"
    by (simp_all add: packet_def)
  moreover have "unat seq < 65536" "unat ts < 4294967296" using unsigned_less [of seq] unsigned_less [of ts] by simp_all
  ultimately show "rtp_seq (packet k ts seq m payload) = seq" "rtp_ts (packet k ts seq m payload) = ts"
    by (simp_all add: rtp_seq_def rtp_ts_def be_at_def nat_of_be_of_nat)
qed

lemma packet_payload:
  assumes "pt_ok (pk_payload_type k)" "payload \<noteq> []" "length payload \<le> MAX_RTP_LEN - 12"
  shows "rtp_payload (packet k ts seq m payload) = Some payload"
proof -
  let ?p = "packet k ts seq m payload"
  have "drop 12 ?p = payload" by (simp add: packet_def)
  moreover have "payload_start ?p = Some 12" "payload_end 12 ?p = Some (length ?p)"
    by (simp_all add: payload_start_def payload_end_def packet_head)
  moreover have "drop_bit 6 (?p ! 0) = 2" by (simp add: packet_head)
  moreover have "\<not> (192 \<le> ?p ! 1 \<and> ?p ! 1 \<le> 223)" unfolding packet_head by (rule not_rtcp [OF assms(1)])
  ultimately show ?thesis using assms by (simp add: rtp_payload_def MAX_RTP_LEN_def)
qed

definition feed :: "u32 \<Rightarrow> u16 \<Rightarrow> bytes \<Rightarrow> depacketizer \<Rightarrow> depacketizer" where
  "feed ts seq payload d = take_payload payload (note_ts ts (note_seq seq d))"

lemma push_packet:
  assumes "pt_ok (pk_payload_type k)" "payload \<noteq> []" "length payload \<le> MAX_RTP_LEN - 12"
  shows "push_rtp (packet k ts seq m payload) d = (if m then close_au (feed ts seq payload d) else (None, feed ts seq payload d))"
  using marker_bit [of "pk_payload_type k" m] unfolding push_rtp_def packet_payload [OF assms] packet_fields packet_head
  by (simp add: feed_def)

subsection \<open>A unit as a list of payloads\<close>

function fu_payloads :: "nat \<Rightarrow> u8 \<Rightarrow> bytes \<Rightarrow> nat \<Rightarrow> bytes list" where
  "fu_payloads mp hdr body i =
     (if i < length body then
        (let end' = min (i + max (mp - 2) 1) (length body)
         in ([(hdr AND 0xE0) OR 28, fu_header (i = 0) (end' = length body) hdr] @ drop i (take end' body)) # fu_payloads mp hdr body end')
      else [])"
  by auto
termination
  by (relation "measure (\<lambda>(_, _, body, i). length body - i)") auto

declare fu_payloads.simps [simp del]

definition nal_payloads :: "nat \<Rightarrow> bytes \<Rightarrow> bytes list" where
  "nal_payloads mp nal = (if length nal \<le> mp then [nal] else fu_payloads mp (hd nal) (tl nal) 0)"

fun packets :: "packetizer \<Rightarrow> u32 \<Rightarrow> u16 \<Rightarrow> bytes list \<Rightarrow> bytes list" where
  "packets k ts seq [] = []"
| "packets k ts seq (p # ps) = packet k ts seq False p # packets k ts (seq + 1) ps"

fun feeds :: "u32 \<Rightarrow> u16 \<Rightarrow> bytes list \<Rightarrow> depacketizer \<Rightarrow> depacketizer" where
  "feeds ts seq [] d = d"
| "feeds ts seq (p # ps) d = feeds ts (seq + 1) ps (feed ts seq p d)"

lemma packets_seq [simp]: "packets (k\<lparr>pk_seq := s\<rparr>) ts seq ps = packets k ts seq ps"
  by (induction ps arbitrary: seq) (simp_all add: packet_def)

lemma packets_append: "packets k ts seq (ps @ qs) = packets k ts seq ps @ packets k ts (seq + of_nat (length ps)) qs"
  by (induction ps arbitrary: seq) (simp_all add: add.assoc)

lemma feeds_append: "feeds ts seq (ps @ qs) d = feeds ts (seq + of_nat (length ps)) qs (feeds ts seq ps d)"
  by (induction ps arbitrary: seq d) (simp_all add: add.assoc)

lemma packets_Nil [simp]: "packets k ts seq ps = [] \<longleftrightarrow> ps = []"
  by (cases ps) simp_all

lemma fu_loop_eq:
  "fu_loop ts mp hdr body i k = (packets k ts (pk_seq k) (fu_payloads mp hdr body i), k\<lparr>pk_seq := pk_seq k + of_nat (length (fu_payloads mp hdr body i))\<rparr>)"
proof (induction ts mp hdr body i k rule: fu_loop.induct)
  case (1 ts mp hdr body i k)
  show ?case
  proof (cases "i < length body")
    case True
    note IH = "1.IH" [OF True refl refl refl rtp_packet_eq [symmetric], unfolded One_nat_def]
    show ?thesis using True
      by (subst fu_loop.simps, subst (1 2) fu_payloads.simps) (simp add: Let_def rtp_packet_eq IH add.assoc)
  next
    case False
    then show ?thesis by (simp add: fu_loop.simps fu_payloads.simps)
  qed
qed

lemma packetize_nal_eq:
  "nal \<noteq> [] \<Longrightarrow> packetize_nal ts mp nal k
     = (packets k ts (pk_seq k) (nal_payloads mp nal), k\<lparr>pk_seq := pk_seq k + of_nat (length (nal_payloads mp nal))\<rparr>)"
  by (simp add: packetize_nal_def nal_payloads_def fu_loop_eq rtp_packet_eq)

lemma packetize_nals_eq:
  "[] \<notin> set nals \<Longrightarrow> packetize_nals ts mp nals k
     = (packets k ts (pk_seq k) (concat (map (nal_payloads mp) nals)),
        k\<lparr>pk_seq := pk_seq k + of_nat (length (concat (map (nal_payloads mp) nals)))\<rparr>)"
proof (induction nals arbitrary: k)
  case (Cons nal nals)
  then show ?case by (auto simp: packetize_nal_eq Let_def packets_append add.assoc)
qed simp

lemma fu_payloads_sizes: "p \<in> set (fu_payloads mp hdr body i) \<Longrightarrow> p \<noteq> [] \<and> length p \<le> max mp 3"
proof (induction mp hdr body i rule: fu_payloads.induct)
  case (1 mp hdr body i)
  show ?case
  proof (cases "i < length body")
    case True
    let ?e = "min (i + max (mp - 2) 1) (length body)"
    have "p = [(hdr AND 0xE0) OR 28, fu_header (i = 0) (?e = length body) hdr] @ drop i (take ?e body) \<or> p \<in> set (fu_payloads mp hdr body ?e)"
      using "1.prems" True by (subst (asm) fu_payloads.simps) (simp add: Let_def)
    then show ?thesis
    proof
      assume "p = [(hdr AND 0xE0) OR 28, fu_header (i = 0) (?e = length body) hdr] @ drop i (take ?e body)"
      then show ?thesis using True by (auto simp: max_def min_def split: if_splits)
    qed (use "1.IH" True in blast)
  next
    case False
    then show ?thesis using "1.prems" by (simp add: fu_payloads.simps)
  qed
qed

lemma nal_payloads_sizes: "nal \<noteq> [] \<Longrightarrow> p \<in> set (nal_payloads mp nal) \<Longrightarrow> p \<noteq> [] \<and> length p \<le> max mp 3"
  using fu_payloads_sizes by (auto simp: nal_payloads_def split: if_splits)

lemma nal_payloads_ne: "nal \<noteq> [] \<Longrightarrow> 2 \<le> mp \<Longrightarrow> nal_payloads mp nal \<noteq> []"
  by (cases nal) (auto simp: nal_payloads_def fu_payloads.simps Let_def)

subsection \<open>What a packet does to the clock and the buffers\<close>

type_synonym clock = "u32 option \<times> u64 \<times> u64 option"

definition clock_of :: "depacketizer \<Rightarrow> clock" where
  "clock_of d = (dp_last_ts d, dp_ts_unwrapped d, dp_base_ts d)"

definition clk :: "u32 \<Rightarrow> clock \<Rightarrow> clock" where
  "clk ts = (\<lambda>(l, u, b).
     let u' = (case l of Some l \<Rightarrow> if i32_abs (ts - l) \<le> MAX_TS_JUMP then saturating_add_signed u (sint (ts - l)) else u | None \<Rightarrow> u)
     in (Some ts, u', case b of None \<Rightarrow> Some u' | b \<Rightarrow> b))"

lemma note_ts_clock: "clock_of (note_ts ts d) = clk ts (clock_of d)"
  by (auto simp: note_ts_def clock_of_def clk_def Let_def split: option.splits)

lemma note_ts_rest [simp]:
  "dp_au (note_ts ts d) = dp_au d" "dp_au_has_idr (note_ts ts d) = dp_au_has_idr d" "dp_fu (note_ts ts d) = dp_fu d"
  "dp_last_seq (note_ts ts d) = dp_last_seq d" "dp_wait_keyframe (note_ts ts d) = dp_wait_keyframe d"
  "dp_sps (note_ts ts d) = dp_sps d" "dp_pps (note_ts ts d) = dp_pps d"
  by (simp_all add: note_ts_def Let_def split: option.splits)

lemma sat_add_zero: "saturating_add_signed u 0 = u"
proof -
  have "uint u < 2 ^ 64" using uint_lt2p [of u] by simp
  then have "max 0 (min (uint u + 0) (2 ^ 64 - 1)) = uint u" by (simp add: min_def)
  then show ?thesis unfolding saturating_add_signed_def by simp
qed

lemma clk_idem: "clk ts (clk ts c) = clk ts c"
  by (cases c) (simp add: clk_def Let_def i32_abs_def MAX_TS_JUMP_def sat_add_zero split: option.splits)

subsection \<open>Units under construction\<close>

definition annexb :: "bytes list \<Rightarrow> bytes" where
  "annexb ns = concat (map (\<lambda>n. ANNEX_B @ n) ns)"

definition idr :: "bytes \<Rightarrow> bool" where
  "idr n \<longleftrightarrow> hd n AND 0x1F = 5"

text \<open>The parameter sets among what has arrived are remembered.\<close>

definition seen :: "bytes list \<Rightarrow> depacketizer \<Rightarrow> bool" where
  "seen ns d \<longleftrightarrow> (list_ex (\<lambda>n. hd n AND 0x1F = 7) ns \<longrightarrow> dp_sps d \<noteq> None) \<and> (list_ex (\<lambda>n. hd n AND 0x1F = 8) ns \<longrightarrow> dp_pps d \<noteq> None)"

lemma seen_frame [simp]:
  "seen [] d" "seen ns (note_ts ts d) = seen ns d" "seen ns (d\<lparr>dp_last_seq := s\<rparr>) = seen ns d" "seen ns (d\<lparr>dp_fu := f\<rparr>) = seen ns d"
  "seen ns (d\<lparr>dp_au := a\<rparr>) = seen ns d"
  by (simp_all add: seen_def)

lemma seen_note_nal: "seen ns d \<Longrightarrow> seen (ns @ [nal]) (note_nal nal d)"
  by (auto simp: seen_def note_nal_def Let_def)

text \<open>Between two packets of a unit: the units \<open>ns\<close> have arrived whole, \<open>f\<close> of the next one has, and the
  packet \<open>seq\<close> is expected.\<close>

definition mid :: "u32 \<Rightarrow> clock \<Rightarrow> bool \<Rightarrow> bytes list \<Rightarrow> u16 \<Rightarrow> bytes \<Rightarrow> depacketizer \<Rightarrow> bool" where
  "mid ts c w ns seq f d \<longleftrightarrow> dp_au d = annexb ns \<and> dp_au_has_idr d = list_ex idr ns \<and> dp_fu d = f
     \<and> (case dp_last_seq d of Some s \<Rightarrow> seq = s + 1 | None \<Rightarrow> True) \<and> dp_wait_keyframe d = w \<and> clk ts (clock_of d) = c \<and> seen ns d"

lemma mid_prep: "mid ts c w ns seq f d \<Longrightarrow> mid ts c w ns (seq + 1) f (note_ts ts (note_seq seq d))"
proof -
  assume m: "mid ts c w ns seq f d"
  then have "note_seq seq d = d\<lparr>dp_last_seq := Some seq\<rparr>" by (auto simp: mid_def note_seq_def split: option.splits)
  moreover have "clock_of (d\<lparr>dp_last_seq := Some seq\<rparr>) = clock_of d" by (simp add: clock_of_def)
  ultimately show ?thesis using m clk_idem [of ts "clock_of d"] by (auto simp: mid_def note_ts_clock)
qed

lemma mid_fu: "mid ts c w ns seq f d \<Longrightarrow> mid ts c w ns seq f' (d\<lparr>dp_fu := f'\<rparr>)"
  by (simp add: mid_def clock_of_def)

lemma take_nal_mid:
  assumes "mid ts c w ns seq [] d" "nal \<noteq> []" "length (annexb ns) + length nal + 4 \<le> MAX_AU_BYTES"
  shows "mid ts c w (ns @ [nal]) seq [] (take_nal nal d)"
proof -
  have t: "take_nal nal d = (note_nal nal d)\<lparr>dp_au := dp_au (note_nal nal d) @ ANNEX_B @ nal\<rparr>"
    using assms by (simp add: take_nal_def mid_def Let_def)
  have "seen (ns @ [nal]) (take_nal nal d)" using assms(1) seen_note_nal [of ns d nal] by (simp add: t mid_def)
  moreover have "dp_au (note_nal nal d) = dp_au d" "dp_au_has_idr (note_nal nal d) = (dp_au_has_idr d \<or> idr nal)"
    "dp_fu (note_nal nal d) = dp_fu d" "dp_last_seq (note_nal nal d) = dp_last_seq d"
    "dp_wait_keyframe (note_nal nal d) = dp_wait_keyframe d" "clock_of (note_nal nal d) = clock_of d"
    by (simp_all add: note_nal_def idr_def clock_of_def Let_def)
  moreover have "clock_of (take_nal nal d) = clock_of (note_nal nal d)" by (simp add: t clock_of_def)
  ultimately show ?thesis using assms(1) by (simp add: mid_def t annexb_def)
qed

definition plain_nal :: "bytes \<Rightarrow> bool" where
  "plain_nal n \<longleftrightarrow> n \<noteq> [] \<and> 1 \<le> hd n AND 0x1F \<and> hd n AND 0x1F \<le> 23"

lemma feed_single:
  assumes "mid ts c w ns seq [] d" "plain_nal nal" "length (annexb ns) + length nal + 4 \<le> MAX_AU_BYTES"
  shows "mid ts c w (ns @ [nal]) (seq + 1) [] (feed ts seq nal d)"
proof -
  have "nal ! 0 = hd nal" using assms(2) by (simp add: plain_nal_def hd_conv_nth)
  then have "feed ts seq nal d = take_nal nal (note_ts ts (note_seq seq d))" using assms(2) by (simp add: feed_def take_payload_def plain_nal_def)
  then show ?thesis using take_nal_mid [OF mid_prep [OF assms(1)] _ assms(3)] assms(2) by (simp add: plain_nal_def)
qed

lemma feed_fu:
  assumes m: "mid ts c w ns seq f d" and f: "s \<longleftrightarrow> f = []"
    and n: "n = (if s then [hdr] else f) @ chunk" "length n + 2 \<le> MAX_AU_BYTES" "length (annexb ns) + length n + 4 \<le> MAX_AU_BYTES"
  shows "mid ts c w (if e then ns @ [n] else ns) (seq + 1) (if e then [] else n)
           (feed ts seq ([(hdr AND 0xE0) OR 28, fu_header s e hdr] @ chunk) d)"
proof -
  let ?d = "note_ts ts (note_seq seq d)"
  let ?f = "if s then [hdr] else f"
  note p = mid_prep [OF m]
  have fu: "dp_fu ?d = f" using p by (simp add: mid_def)
  have "take_payload ([(hdr AND 0xE0) OR 28, fu_header s e hdr] @ chunk) ?d = fu_a ([(hdr AND 0xE0) OR 28, fu_header s e hdr] @ chunk) ?d"
    unfolding take_payload_def Let_def by (simp add: indicator_bits)
  also have "\<dots> = (if e then take_nal n (?d\<lparr>dp_fu := []\<rparr>) else ?d\<lparr>dp_fu := n\<rparr>)"
    using f n fu by (cases s) (simp_all add: fu_a_def Let_def indicator_bits hdr_parts fu_header_bits)
  finally have eq: "feed ts seq ([(hdr AND 0xE0) OR 28, fu_header s e hdr] @ chunk) d = (if e then take_nal n (?d\<lparr>dp_fu := []\<rparr>) else ?d\<lparr>dp_fu := n\<rparr>)"
    by (simp add: feed_def)
  have "n \<noteq> []" using n(1) f by auto
  then show ?thesis unfolding eq using take_nal_mid [OF mid_fu [OF p] _ n(3)] mid_fu [OF p, of n] by simp
qed

lemma feeds_fu:
  assumes "mid ts c w ns seq (if i = 0 then [] else hdr # take i body) d" "i < length body"
    and "length (annexb ns) + length body + 5 \<le> MAX_AU_BYTES"
  shows "mid ts c w (ns @ [hdr # body]) (seq + of_nat (length (fu_payloads mp hdr body i))) [] (feeds ts seq (fu_payloads mp hdr body i) d)"
  using assms
proof (induction mp hdr body i arbitrary: seq d rule: fu_payloads.induct)
  case (1 mp hdr body i)
  let ?e = "min (i + max (mp - 2) 1) (length body)"
  let ?p = "[(hdr AND 0xE0) OR 28, fu_header (i = 0) (?e = length body) hdr] @ drop i (take ?e body)"
  have ps: "fu_payloads mp hdr body i = ?p # fu_payloads mp hdr body ?e" using "1.prems"(2) by (subst fu_payloads.simps) (simp add: Let_def)
  have e: "i < ?e" "?e \<le> length body" using "1.prems"(2) by auto
  have part: "hdr # take ?e body = (if i = 0 then [hdr] else hdr # take i body) @ drop i (take ?e body)"
    using e by (cases "i = 0") (simp_all add: take_drop [symmetric] drop_take min_def flip: take_add split: if_splits)
  have step: "mid ts c w (if ?e = length body then ns @ [hdr # take ?e body] else ns) (seq + 1) (if ?e = length body then [] else hdr # take ?e body) (feed ts seq ?p d)"
    by (rule feed_fu [OF "1.prems"(1) _ _]) (use part e "1.prems"(3) in auto)
  show ?case
  proof (cases "?e = length body")
    case True
    have "fu_payloads mp hdr body ?e = []" unfolding True by (simp add: fu_payloads.simps)
    then show ?thesis using step unfolding ps True by simp
  next
    case False
    then have lt: "?e < length body" using e by simp
    have "mid ts c w ns (seq + 1) (if ?e = 0 then [] else hdr # take ?e body) (feed ts seq ?p d)" using step False e by simp
    from "1.IH" [OF "1.prems"(2) refl this lt "1.prems"(3)] show ?thesis unfolding ps by (simp add: add.assoc)
  qed
qed

lemma annexb_simps [simp]: "annexb [] = []" "annexb (n # ns) = ANNEX_B @ n @ annexb ns" "annexb (ns @ ms) = annexb ns @ annexb ms"
  by (simp_all add: annexb_def)

lemma length_ANNEX_B [simp]: "length ANNEX_B = 4"
  by (simp add: ANNEX_B_def)

lemma feeds_nals:
  assumes "mid ts c w ns seq [] d" "list_all plain_nal nals" "2 \<le> mp" "length (annexb (ns @ nals)) \<le> MAX_AU_BYTES"
  shows "mid ts c w (ns @ nals) (seq + of_nat (length (concat (map (nal_payloads mp) nals)))) [] (feeds ts seq (concat (map (nal_payloads mp) nals)) d)"
  using assms
proof (induction nals arbitrary: ns seq d)
  case (Cons n nals)
  have n: "plain_nal n" "n \<noteq> []" using Cons.prems(2) by (simp_all add: plain_nal_def)
  have len: "length (annexb ns) + length n + 4 \<le> MAX_AU_BYTES" using Cons.prems(4) by simp
  have "mid ts c w (ns @ [n]) (seq + of_nat (length (nal_payloads mp n))) [] (feeds ts seq (nal_payloads mp n) d)"
  proof (cases "length n \<le> mp")
    case True
    then show ?thesis using feed_single [OF Cons.prems(1) n(1) len] by (simp add: nal_payloads_def)
  next
    case False
    have "0 < length (tl n)" "length (annexb ns) + length (tl n) + 5 \<le> MAX_AU_BYTES" using False Cons.prems(3) len by (cases n, auto)
    then show ?thesis using feeds_fu [of ts c w ns seq 0 "hd n" "tl n" d mp] Cons.prems(1) n(2) False by (simp add: nal_payloads_def)
  qed
  from Cons.IH [OF this _ Cons.prems(3)] Cons.prems(2,4) show ?case by (simp add: feeds_append add.assoc)
qed simp

subsection \<open>Whole units\<close>

fun depacketize :: "bytes list \<Rightarrow> depacketizer \<Rightarrow> access_unit list \<times> depacketizer" where
  "depacketize [] d = ([], d)"
| "depacketize (p # ps) d =
     (let (a, d1) = push_rtp p d; (us, d2) = depacketize ps d1
      in ((case a of Some u \<Rightarrow> [u] | None \<Rightarrow> []) @ us, d2))"

lemma depacketize_append:
  "depacketize (ps @ qs) d =
     (let (us, d1) = depacketize ps d; (vs, d2) = depacketize qs d1 in (us @ vs, d2))"
  by (induction ps arbitrary: d) (simp_all add: Let_def split: prod.splits)

definition closed :: "depacketizer \<Rightarrow> access_unit list \<times> depacketizer" where
  "closed d = (case close_au d of (a, d') \<Rightarrow> (case a of Some u \<Rightarrow> [u] | None \<Rightarrow> [], d'))"

lemma depacketize_packets:
  assumes "pt_ok (pk_payload_type k)" "\<forall>p \<in> set ps. p \<noteq> [] \<and> length p \<le> MAX_RTP_LEN - 12" "ps \<noteq> []"
  shows "depacketize (butlast (packets k ts seq ps) @ [set_marker (last (packets k ts seq ps))]) d = closed (feeds ts seq ps d)"
  using assms(2,3)
proof (induction ps arbitrary: seq d)
  case (Cons p ps)
  have p: "p \<noteq> []" "length p \<le> MAX_RTP_LEN - 12" using Cons.prems by simp_all
  note push = push_packet [OF assms(1) p]
  show ?case
  proof (cases "ps = []")
    case True
    then show ?thesis by (simp add: set_marker_packet push closed_def split: prod.splits)
  next
    case False
    then show ?thesis using Cons.IH [OF _ False, of "seq + 1" "feed ts seq p d"] Cons.prems(1) by (simp add: push split: prod.splits)
  qed
qed simp

lemma payload_starts_eq: "payload_starts b i = map (\<lambda>s. s + 3) (start_codes b i)"
proof (induction b i rule: payload_starts.induct)
  case (1 b i)
  show ?case
  proof (cases "i + 3 \<le> length b")
    case True
    then show ?thesis
      using "1.IH" [OF True] by (cases "b ! i = 0 \<and> b ! (i + 1) = 0 \<and> b ! (i + 2) = 1") (auto simp: payload_starts.simps [of b i] start_codes.simps [of b i])
  next
    case False
    then show ?thesis by (simp add: payload_starts.simps [of b i] start_codes.simps [of b i])
  qed
qed

lemma nals_from_eq: "nals_from b (map (\<lambda>s. s + 3) ss) = nals_at b ss"
proof (induction ss)
  case (Cons s ss)
  then show ?case by (cases ss) (simp_all add: Let_def)
qed simp

text \<open>Both copies of the Annex B splitter compute the same units.\<close>

lemma rtp_annexb_nals_eq: "rtp_annexb_nals b = iter_annexb_nals b"
  by (simp add: rtp_annexb_nals_def iter_annexb_nals_def payload_starts_eq nals_from_eq)

lemma annexb_nals: "list_all nal_ok ns \<Longrightarrow> rtp_annexb_nals (annexb ns) = ns"
proof -
  assume "list_all nal_ok ns"
  moreover have "annexb ns = framed (map (Pair True) ns)" by (induction ns) (simp_all add: framed_def ANNEX_B_def)
  ultimately show ?thesis using annexb_roundtrip [of "map (Pair True) ns"] by (simp add: rtp_annexb_nals_eq list_all_iff comp_def)
qed

definition unit_ok :: "bytes list \<Rightarrow> bool" where
  "unit_ok ns \<longleftrightarrow> ns \<noteq> [] \<and> list_all nal_ok ns \<and> list_all plain_nal ns \<and> length (annexb ns) \<le> MAX_AU_BYTES"

definition sent_unit :: "clock \<Rightarrow> bytes list \<Rightarrow> access_unit" where
  "sent_unit c ns = \<lparr>ac_data = annexb ns, ac_pts_us = pts_us (fst (snd c)) (case snd (snd c) of Some b \<Rightarrow> b | None \<Rightarrow> 0), ac_keyframe = list_ex idr ns\<rparr>"

lemma seen_closed: "seen ns (snd (closed d)) = seen ns d"
  by (simp add: closed_def close_au_def seen_def Let_def)

lemma close_mid:
  assumes "mid ts c w ns seq [] d" "ns \<noteq> []" "clock_of d = c"
  shows "fst (closed d) = (if w \<and> \<not> list_ex idr ns then [] else [sent_unit c ns])"
    and "mid ts' (clk ts' c) (w \<and> \<not> list_ex idr ns) [] seq [] (snd (closed d))"
  using assms by (cases ns; auto simp: mid_def closed_def close_au_def sent_unit_def clock_of_def ANNEX_B_def Let_def)+

lemma clock_poison [simp]: "clock_of (poison d) = clock_of d"
  by (simp add: clock_of_def poison_def)

lemma clock_take_nal [simp]: "clock_of (take_nal nal d) = clock_of d"
  by (auto simp: take_nal_def note_nal_def clock_of_def poison_def Let_def)

lemma clock_stap [simp]: "clock_of (stap_a p d) = clock_of d"
proof (induction p d rule: stap_a.induct)
  case (1 p d)
  show ?case using 1 by (subst stap_a.simps) (simp add: Let_def)
qed

lemma clock_fu [simp]: "clock_of (d\<lparr>dp_fu := f\<rparr>) = clock_of d"
  by (simp add: clock_of_def)

lemma clock_take_payload [simp]: "clock_of (take_payload p d) = clock_of d"
  by (simp add: take_payload_def fu_a_def Let_def)

lemma clock_note_seq [simp]: "clock_of (note_seq seq d) = clock_of d"
  by (auto simp: note_seq_def clock_of_def poison_def Let_def split: option.splits)

lemma feed_clock [simp]: "clock_of (feed ts seq p d) = clk ts (clock_of d)"
  by (simp add: feed_def note_ts_clock)

lemma feeds_clock: "ps \<noteq> [] \<Longrightarrow> clock_of (feeds ts seq ps d) = clk ts (clock_of d)"
proof (induction ps arbitrary: seq d)
  case (Cons p ps)
  then show ?case by (cases "ps = []") (simp_all add: clk_idem)
qed simp

lemma packetize_payloads:
  assumes u: "unit_ok ns" and mtu: "mtu \<le> MAX_RTP_LEN"
  defines "mp \<equiv> max (mtu - RTP_HEADER) 2"
  defines "pls \<equiv> concat (map (nal_payloads mp) ns)"
  shows "2 \<le> mp" "pls \<noteq> []" "\<forall>p \<in> set pls. p \<noteq> [] \<and> length p \<le> MAX_RTP_LEN - 12"
    and "packetize (annexb ns) ts mtu k = (butlast (packets k ts (pk_seq k) pls) @ [set_marker (last (packets k ts (pk_seq k) pls))],
      k\<lparr>pk_seq := pk_seq k + of_nat (length pls)\<rparr>)"
proof -
  have ne: "[] \<notin> set ns" "ns \<noteq> []" and spl: "rtp_annexb_nals (annexb ns) = ns"
    using u annexb_nals [of ns] by (auto simp: unit_ok_def plain_nal_def list_all_iff)
  have mp: "2 \<le> mp" "max mp 3 \<le> MAX_RTP_LEN - 12" using mtu by (auto simp: mp_def RTP_HEADER_def MAX_RTP_LEN_def)
  show "2 \<le> mp" by (fact mp(1))
  show pls: "pls \<noteq> []" using ne nal_payloads_ne [OF _ mp(1)] by (cases ns) (auto simp: pls_def)
  show "\<forall>p \<in> set pls. p \<noteq> [] \<and> length p \<le> MAX_RTP_LEN - 12"
  proof
    fix p assume "p \<in> set pls"
    then obtain n where "n \<in> set ns" "p \<in> set (nal_payloads mp n)" by (auto simp: pls_def)
    moreover from this have "n \<noteq> []" using ne(1) by blast
    ultimately show "p \<noteq> [] \<and> length p \<le> MAX_RTP_LEN - 12" using nal_payloads_sizes [of n p mp] mp(2) by linarith
  qed
  have nals: "packetize_nals ts mp ns k = (packets k ts (pk_seq k) pls, k\<lparr>pk_seq := pk_seq k + of_nat (length pls)\<rparr>)"
    unfolding pls_def by (rule packetize_nals_eq [OF ne(1)])
  show "packetize (annexb ns) ts mtu k = (butlast (packets k ts (pk_seq k) pls) @ [set_marker (last (packets k ts (pk_seq k) pls))],
      k\<lparr>pk_seq := pk_seq k + of_nat (length pls)\<rparr>)"
    unfolding packetize_def Let_def spl mp_def [symmetric] nals prod.case packets_Nil using pls ne(2) by (simp only: if_False)
qed

lemma packetize_unit:
  assumes k: "pt_ok (pk_payload_type k)" and u: "unit_ok ns" and mtu: "mtu \<le> MAX_RTP_LEN"
    and d: "mid ts c w [] (pk_seq k) [] d" and pk: "packetize (annexb ns) ts mtu k = (ps, k')"
  shows "fst (depacketize ps d) = (if w \<and> \<not> list_ex idr ns then [] else [sent_unit c ns])"
    and "mid ts' (clk ts' c) (w \<and> \<not> list_ex idr ns) [] (pk_seq k') [] (snd (depacketize ps d))"
    and "pk_payload_type k' = pk_payload_type k"
    and "seen ns (snd (depacketize ps d))"
proof -
  define mp where "mp = max (mtu - RTP_HEADER) 2"
  define pls where "pls = concat (map (nal_payloads mp) ns)"
  note pp = packetize_payloads [OF u mtu, folded mp_def, folded pls_def]
  have ne: "ns \<noteq> []" and ok: "list_all plain_nal ns" "length (annexb ([] @ ns)) \<le> MAX_AU_BYTES"
    using u by (simp_all add: unit_ok_def)
  have eq: "ps = butlast (packets k ts (pk_seq k) pls) @ [set_marker (last (packets k ts (pk_seq k) pls))]"
    "k' = k\<lparr>pk_seq := pk_seq k + of_nat (length pls)\<rparr>"
    using pp(4) [of ts k] pk by auto
  have run: "depacketize ps d = closed (feeds ts (pk_seq k) pls d)" unfolding eq(1) by (rule depacketize_packets [OF k pp(3,2)])
  have m: "mid ts c w ns (pk_seq k') [] (feeds ts (pk_seq k) pls d)"
    using feeds_nals [OF d ok(1) pp(1) ok(2)] by (simp add: eq(2) pls_def)
  have "clk ts (clock_of d) = c" using d by (simp add: mid_def)
  then have clock: "clock_of (feeds ts (pk_seq k) pls d) = c" using feeds_clock [OF pp(2)] by simp
  show "fst (depacketize ps d) = (if w \<and> \<not> list_ex idr ns then [] else [sent_unit c ns])"
    "mid ts' (clk ts' c) (w \<and> \<not> list_ex idr ns) [] (pk_seq k') [] (snd (depacketize ps d))"
    unfolding run by (rule close_mid [OF m ne clock])+
  show "pk_payload_type k' = pk_payload_type k" by (simp add: eq(2))
  show "seen ns (snd (depacketize ps d))" unfolding run using m by (simp add: mid_def seen_closed)
qed

subsection \<open>Streams\<close>

fun send :: "nat \<Rightarrow> (bytes list \<times> u32) list \<Rightarrow> packetizer \<Rightarrow> bytes list" where
  "send mtu [] k = []"
| "send mtu ((ns, ts) # us) k = (let (ps, k') = packetize (annexb ns) ts mtu k in ps @ send mtu us k')"

text \<open>The clock of the depacketizer at time \<open>t\<close> of a stream that began at \<open>t0\<close>.\<close>

definition on_time :: "int \<Rightarrow> int \<Rightarrow> clock" where
  "on_time t0 t = (Some (word_of_int t), word_of_int (t - t0), Some 0)"

lemma sint_step: "\<bar>x\<bar> < 2 ^ 31 \<Longrightarrow> sint (word_of_int x :: u32) = x"
  by (simp add: sint_sbintrunc' signed_take_bit_int_eq_self)

lemma clk_first: "clk (word_of_int t) (None, 0, None) = on_time t t"
  by (simp add: clk_def on_time_def)

lemma clk_on_time:
  assumes "\<bar>t' - t\<bar> \<le> MAX_TS_JUMP" "t0 \<le> t" "t - t0 < 2 ^ 53" "t0 \<le> t'" "t' - t0 < 2 ^ 53"
  shows "clk (word_of_int t') (on_time t0 t) = on_time t0 t'"
proof -
  have d: "(word_of_int t' - word_of_int t :: u32) = word_of_int (t' - t)" by simp
  have small: "\<bar>t' - t\<bar> < 2 ^ 31" "\<bar>- (t' - t)\<bar> < 2 ^ 31" using assms(1) by (simp_all add: MAX_TS_JUMP_def)
  have s: "sint (word_of_int (t' - t) :: u32) = t' - t" "sint (- word_of_int (t' - t) :: u32) = - (t' - t)"
    using sint_step [OF small(1)] sint_step [OF small(2)] by simp_all
  have a: "i32_abs (word_of_int (t' - t)) \<le> MAX_TS_JUMP" unfolding i32_abs_def s using assms(1) by (auto simp: abs_if split: if_splits)
  have u: "uint (word_of_int (t - t0) :: u64) = t - t0" unfolding uint_word_of_int using assms(2,3) by simp
  have "saturating_add_signed (word_of_int (t - t0)) (t' - t) = word_of_int (t' - t0)"
    unfolding saturating_add_signed_def u using assms by simp
  then show ?thesis unfolding clk_def on_time_def prod.case option.case d s Let_def if_P [OF a] by simp
qed

lemma sent_on_time:
  assumes "t0 \<le> t" "t - t0 < 2 ^ 53"
  shows "sent_unit (on_time t0 t) ns = \<lparr>ac_data = annexb ns, ac_pts_us = (t - t0) * 1000 div 90, ac_keyframe = list_ex idr ns\<rparr>"
proof -
  have w: "i64_wrap x = x" if "0 \<le> x" "x < 2 ^ 63" for x
    unfolding i64_wrap_def using that by (simp add: sint_sbintrunc' signed_take_bit_int_eq_self)
  have "sint (word_of_int (t - t0) :: u64) = t - t0" using w [of "t - t0"] assms by (simp add: i64_wrap_def)
  then have "pts_us (word_of_int (t - t0)) 0 = rust_div ((t - t0) * 1000) 90"
    using assms w [of "t - t0"] w [of "(t - t0) * 1000"] by (simp add: pts_us_def)
  also have "\<dots> = (t - t0) * 1000 div 90"
    using assms by (cases "t = t0") (simp_all add: rust_div_def sgn_if)
  finally show ?thesis by (simp add: sent_unit_def on_time_def)
qed

abbreviation wire :: "(bytes list \<times> int) list \<Rightarrow> (bytes list \<times> u32) list" where
  "wire us \<equiv> map (\<lambda>(ns, t). (ns, word_of_int t)) us"

definition in_time :: "int \<Rightarrow> (bytes list \<times> int) list \<Rightarrow> bool" where
  "in_time t0 us \<longleftrightarrow> successively (\<lambda>a b. \<bar>b - a\<bar> \<le> MAX_TS_JUMP) (map snd us) \<and> (\<forall>t \<in> snd ` set us. t0 \<le> t \<and> t - t0 < 2 ^ 53)"

definition shown :: "int \<Rightarrow> bytes list \<times> int \<Rightarrow> access_unit" where
  "shown t0 = (\<lambda>(ns, t). \<lparr>ac_data = annexb ns, ac_pts_us = (t - t0) * 1000 div 90, ac_keyframe = list_ex idr ns\<rparr>)"

abbreviation no_idr :: "bytes list \<times> int \<Rightarrow> bool" where
  "no_idr u \<equiv> \<not> list_ex idr (fst u)"

lemma stream_run:
  assumes "\<And>ts. mid ts (clk ts c) w [] (pk_seq k) [] d" "pt_ok (pk_payload_type k)" "mtu \<le> MAX_RTP_LEN"
    and "\<forall>u \<in> set us. unit_ok (fst u)" "in_time t0 us" "us \<noteq> [] \<Longrightarrow> clk (word_of_int (snd (hd us))) c = on_time t0 (snd (hd us))"
  shows "fst (depacketize (send mtu (wire us) k) d) = map (shown t0) (if w then dropWhile no_idr us else us)"
  using assms
proof (induction us arbitrary: c w k d)
  case (Cons u us)
  obtain ns t where u: "u = (ns, t)" by fastforce
  obtain ps k' where pk: "packetize (annexb ns) (word_of_int t) mtu k = (ps, k')" by fastforce
  have c: "clk (word_of_int t) c = on_time t0 t" and ok: "unit_ok ns" using Cons.prems(4,6) u by auto
  have m: "mid (word_of_int t) (on_time t0 t) w [] (pk_seq k) [] d" using Cons.prems(1) [of "word_of_int t"] unfolding c .
  note unit = packetize_unit [OF Cons.prems(2) ok Cons.prems(3) m pk]
  have t: "t0 \<le> t" "t - t0 < 2 ^ 53" "in_time t0 us" using Cons.prems(5) u by (auto simp: in_time_def successively_Cons)
  have next': "clk (word_of_int (snd (hd us))) (on_time t0 t) = on_time t0 (snd (hd us))" if "us \<noteq> []"
    by (rule clk_on_time) (use Cons.prems(5) u that t in \<open>auto simp: in_time_def successively_Cons hd_map\<close>)
  have IH: "fst (depacketize (send mtu (wire us) k') (snd (depacketize ps d)))
      = map (shown t0) (if w \<and> \<not> list_ex idr ns then dropWhile no_idr us else us)"
    by (rule Cons.IH [OF unit(2) _ Cons.prems(3) _ t(3) next']) (use Cons.prems(2,4) unit(3) in simp_all)
  have "fst (depacketize (send mtu (wire (u # us)) k) d) = fst (depacketize ps d) @ fst (depacketize (send mtu (wire us) k') (snd (depacketize ps d)))"
    by (simp add: u pk depacketize_append split: prod.splits)
  then show ?case unfolding IH unit(1) sent_on_time [OF t(1,2)] by (simp add: u shown_def)
qed simp

text \<open>
  C26: What is packetized is what is depacketized. A stream of access units, each a list of
  well-formed NAL units of at most 4 MiB in all, with no timestamp before the first one (or 2^53 ticks
  after it) and no jump of more than ten seconds, sent with any packet size (fragmenting what does not fit) reaches a fresh receiver
  as exactly the same units, in order, from the first keyframe on, with the keyframe flags and
  with their presentation times measured from the first unit, across wraps of the sequence
  number and of the 32-bit timestamp and through reordered presentation times.
\<close>

theorem rtp_roundtrip:
  assumes "us \<noteq> []" "pt_ok pt" "mtu \<le> MAX_RTP_LEN" "\<forall>u \<in> set us. unit_ok (fst u)" "in_time (snd (hd us)) us"
  shows "fst (depacketize (send mtu (wire us) (packetizer_new ssrc pt)) depacketizer_new)
    = map (shown (snd (hd us))) (dropWhile no_idr us)"
proof -
  have c: "clk ts (clock_of depacketizer_new) = clk ts (None, 0, None)" for ts by (simp add: clock_of_def depacketizer_new_def)
  have "mid ts (clk ts (None, 0, None)) True [] (pk_seq (packetizer_new ssrc pt)) [] depacketizer_new" for ts
    by (simp add: mid_def c) (simp add: depacketizer_new_def)
  from stream_run [OF this _ assms(3-5)] show ?thesis using assms(2) by (simp add: packetizer_new_def clk_first)
qed

theorem rtp_roundtrip_witness:
  "map ac_data (fst (depacketize (send 16 (wire [([[0x67, 1]], 7), ([[0x65, 1, 2, 3, 4, 5, 6], [0x65, 9]], 3007), ([[0x41, 2]], 1507)])
     (packetizer_new 1 96)) depacketizer_new)) = [annexb [[0x65, 1, 2, 3, 4, 5, 6], [0x65, 9]], annexb [[0x41, 2]]]"
  using rtp_roundtrip [of "[([[0x67, 1]], 7), ([[0x65, 1, 2, 3, 4, 5, 6], [0x65, 9]], 3007), ([[0x41, 2]], 1507)]" 96 16 1]
  by (simp add: pt_ok_def unit_ok_def in_time_def nal_ok_def plain_nal_def idr_def shown_def MAX_RTP_LEN_def MAX_AU_BYTES_def MAX_TS_JUMP_def)

end
