(* ===== verification/Rtp_Loss.thy ===== *)
theory Rtp_Loss
  imports Rtp_Props
begin

section \<open>Lost packets\<close>

text \<open>
  Packets of a packetized stream are lost in any pattern. What the depacketizer still shows is
  described exactly: whole NAL units of one access unit at a time, and nothing that refers to a
  unit that was not shown.
\<close>

unbundle bit_operations_syntax

subsection \<open>Positions within a unit\<close>

definition lost :: "depacketizer \<Rightarrow> bool" where
  "lost d \<longleftrightarrow> dp_au d = [] \<and> dp_fu d = [] \<and> \<not> dp_au_has_idr d \<and> dp_wait_keyframe d"

lemma lost_poison [simp]: "lost (poison d)" "dp_fu (poison d) = []"
  by (simp_all add: lost_def poison_def)

text \<open>Before NAL unit \<open>b\<close>, or after \<open>i\<close> bytes of its body.\<close>

definition at_pos :: "nat \<Rightarrow> bytes list \<Rightarrow> nat \<Rightarrow> nat \<Rightarrow> bool" where
  "at_pos mp ns b i \<longleftrightarrow> i = 0 \<and> b \<le> length ns \<or> b < length ns \<and> mp < length (ns ! b) \<and> 0 < i \<and> i < length (tl (ns ! b))"

definition rest :: "nat \<Rightarrow> bytes list \<Rightarrow> nat \<Rightarrow> nat \<Rightarrow> bytes list" where
  "rest mp ns b i =
     (if i = 0 then concat (map (nal_payloads mp) (drop b ns))
      else fu_payloads mp (hd (ns ! b)) (tl (ns ! b)) i @ concat (map (nal_payloads mp) (drop (Suc b) ns)))"

definition content :: "bool \<Rightarrow> bytes list \<Rightarrow> nat \<Rightarrow> nat \<Rightarrow> depacketizer \<Rightarrow> bool" where
  "content prev ns a b d \<longleftrightarrow> a \<le> b \<and> dp_au d = annexb (drop a (take b ns)) \<and> dp_au_has_idr d = list_ex idr (drop a (take b ns))
     \<and> (a = 0 \<and> prev \<or> dp_wait_keyframe d)"

definition holds :: "bool \<Rightarrow> bytes list \<Rightarrow> nat \<Rightarrow> nat \<Rightarrow> depacketizer \<Rightarrow> bool" where
  "holds prev ns b i d \<longleftrightarrow> lost d
     \<or> dp_fu d = (if i = 0 then [] else hd (ns ! b) # take i (tl (ns ! b))) \<and> (\<exists>a. content prev ns a b d)"

lemma lost_content: "lost d \<Longrightarrow> content prev ns b b d"
  by (simp add: lost_def content_def)

lemma content_fu [simp]: "content prev ns a b (d\<lparr>dp_fu := f\<rparr>) = content prev ns a b d"
  by (simp add: content_def)

lemma take_nal_content:
  assumes "content prev ns a b d" "b < length ns" "dp_fu d = []"
  shows "holds prev ns (Suc b) 0 (take_nal (ns ! b) d)"
proof (cases "ns ! b = [] \<or> MAX_AU_BYTES < length (dp_au d) + length (ns ! b) + 4")
  case True
  then show ?thesis by (simp add: holds_def take_nal_def)
next
  case False
  have "drop a (take (Suc b) ns) = drop a (take b ns) @ [ns ! b]"
    using assms(1,2) by (simp add: content_def take_Suc_conv_app_nth)
  then have "content prev ns a (Suc b) (take_nal (ns ! b) d)"
    using assms(1) False by (auto simp: content_def take_nal_def note_nal_def Let_def idr_def)
  moreover have "dp_fu (take_nal (ns ! b) d) = []"
    using assms(3) False by (simp add: take_nal_def note_nal_def Let_def)
  ultimately show ?thesis by (auto simp: holds_def)
qed

text \<open>One fragment either finds its beginning missing or extends it.\<close>

lemma fu_token:
  fixes hdr :: u8
  defines "p \<equiv> \<lambda>s e chunk. [(hdr AND 0xE0) OR 28, fu_header s e hdr] @ chunk"
  obtains "lost (take_payload (p s e chunk) d)"
  | f where "f = (if s then [hdr] else dp_fu d)" "f \<noteq> []"
      "take_payload (p s e chunk) d = (if e then take_nal (f @ chunk) (d\<lparr>dp_fu := []\<rparr>) else d\<lparr>dp_fu := f @ chunk\<rparr>)"
proof -
  have eq: "take_payload (p s e chunk) d = fu_a (p s e chunk) d"
    unfolding p_def take_payload_def Let_def by (simp add: indicator_bits)
  let ?f = "if s then [hdr] else dp_fu d"
  show ?thesis
  proof (cases "?f = [] \<or> MAX_AU_BYTES < length ?f + length (p s e chunk)")
    case True
    then have "lost (fu_a (p s e chunk) d)"
      by (cases s) (auto simp: p_def fu_a_def Let_def indicator_bits hdr_parts fu_header_bits)
    then show ?thesis using that(1) eq by simp
  next
    case False
    have "fu_a (p s e chunk) d = (if e then take_nal (?f @ chunk) (d\<lparr>dp_fu := []\<rparr>) else d\<lparr>dp_fu := ?f @ chunk\<rparr>)"
      using False by (cases s) (simp_all add: p_def fu_a_def Let_def indicator_bits hdr_parts fu_header_bits)
    then show ?thesis using that(2) False eq by simp
  qed
qed

lemma lost_take_payload_fu:
  "lost d \<Longrightarrow> lost (take_payload ([(hdr AND 0xE0) OR 28, fu_header False e hdr] @ chunk) d)"
  by (rule fu_token [of hdr False e chunk d]) (auto simp: lost_def)

lemma fu_step:
  fixes ns :: "bytes list"
  assumes n: "n = ns ! b" "n \<noteq> []" and b: "b < length ns" and i: "i < length (tl n)" and e: "i < e" "e \<le> length (tl n)"
    and h: "holds prev ns b i d"
  defines "d' \<equiv> take_payload ([(hd n AND 0xE0) OR 28, fu_header (i = 0) (e = length (tl n)) (hd n)] @ drop i (take e (tl n))) d"
  shows "if e = length (tl n) then holds prev ns (Suc b) 0 d' else holds prev ns b e d'"
proof (cases "lost d'")
  case True
  then show ?thesis by (simp add: holds_def)
next
  case False
  obtain f where f: "f = (if i = 0 then [hd n] else dp_fu d)" "f \<noteq> []"
    "d' = (if e = length (tl n) then take_nal (f @ drop i (take e (tl n))) (d\<lparr>dp_fu := []\<rparr>) else d\<lparr>dp_fu := f @ drop i (take e (tl n))\<rparr>)"
    by (rule fu_token [of "hd n" "i = 0" "e = length (tl n)" "drop i (take e (tl n))" d]) (use False in \<open>auto simp: d'_def\<close>)
  have nl: "\<not> lost d" if "i \<noteq> 0" using f(1,2) that by (auto simp: lost_def)
  have "f = hd n # take i (tl n)"
  proof (cases "i = 0")
    case False
    then show ?thesis using f(1) h nl n(1) by (simp add: holds_def)
  qed (simp add: f(1))
  moreover have "take i (tl n) @ drop i (take e (tl n)) = take e (tl n)"
    using append_take_drop_id [of i "take e (tl n)"] e(1) by (simp add: min_def)
  ultimately have nal: "f @ drop i (take e (tl n)) = hd n # take e (tl n)" by simp
  obtain a where a: "content prev ns a b d" using h lost_content unfolding holds_def by blast
  show ?thesis
  proof (cases "e = length (tl n)")
    case True
    then have "d' = take_nal (ns ! b) (d\<lparr>dp_fu := []\<rparr>)" using f(3) n nal by simp
    then show ?thesis using take_nal_content [of prev ns a b "d\<lparr>dp_fu := []\<rparr>"] a b True by simp
  next
    case F: False
    then have "d' = d\<lparr>dp_fu := hd n # take e (tl n)\<rparr>" using f(3) nal by simp
    then show ?thesis using a F e(1) n(1) by (auto simp: holds_def)
  qed
qed

lemma rest_Suc: "b < length ns \<Longrightarrow> rest mp ns b 0 = nal_payloads mp (ns ! b) @ rest mp ns (Suc b) 0"
  by (simp add: rest_def Cons_nth_drop_Suc [symmetric])

lemma rest_mid: "0 < i \<Longrightarrow> rest mp ns b i = fu_payloads mp (hd (ns ! b)) (tl (ns ! b)) i @ rest mp ns (Suc b) 0"
  by (simp add: rest_def)

lemma pos_step:
  assumes "at_pos mp ns b i" "rest mp ns b i = p # R" "list_all plain_nal ns" "2 \<le> mp"
  shows "\<exists>b' i'. at_pos mp ns b' i' \<and> R = rest mp ns b' i' \<and> (\<forall>d. holds prev ns b i d \<longrightarrow> holds prev ns b' i' (take_payload p d))"
proof -
  have b: "b < length ns"
    using assms(1,2) by (cases "b < length ns") (auto simp: at_pos_def rest_def)
  let ?n = "ns ! b"
  have n: "plain_nal ?n" "?n \<noteq> []" using assms(3) b by (simp_all add: list_all_length plain_nal_def)
  show ?thesis
  proof (cases "length ?n \<le> mp")
    case True
    then have i: "i = 0" using assms(1) by (auto simp: at_pos_def)
    then have p: "p = ?n" "R = rest mp ns (Suc b) 0" using assms(2) True by (simp_all add: rest_Suc [OF b] nal_payloads_def)
    have "take_payload p d = take_nal ?n d" for d
    proof -
      have "?n ! 0 = hd ?n" using n(2) by (simp add: hd_conv_nth)
      then show ?thesis using n(1) by (simp add: p(1) take_payload_def plain_nal_def)
    qed
    then have "holds prev ns (Suc b) 0 (take_payload p d)" if "holds prev ns b i d" for d
      using that take_nal_content [OF _ b] lost_content [of d prev ns b] by (auto simp: holds_def i lost_def)
    then show ?thesis using p(2) b by (intro exI [of _ "Suc b"] exI [of _ 0]) (simp add: at_pos_def)
  next
    case False
    let ?e = "min (i + max (mp - 2) 1) (length (tl ?n))"
    have il: "i < length (tl ?n)" using assms(1,4) False by (cases ?n) (auto simp: at_pos_def)
    have e: "i < ?e" "?e \<le> length (tl ?n)" using il by auto
    have "rest mp ns b i = fu_payloads mp (hd ?n) (tl ?n) i @ rest mp ns (Suc b) 0"
      using False rest_Suc [OF b] by (cases "i = 0") (simp_all add: rest_def nal_payloads_def)
    also have "\<dots> = ([(hd ?n AND 0xE0) OR 28, fu_header (i = 0) (?e = length (tl ?n)) (hd ?n)] @ drop i (take ?e (tl ?n)))
        # fu_payloads mp (hd ?n) (tl ?n) ?e @ rest mp ns (Suc b) 0"
      using il by (subst fu_payloads.simps) (simp add: Let_def)
    finally have p: "p = [(hd ?n AND 0xE0) OR 28, fu_header (i = 0) (?e = length (tl ?n)) (hd ?n)] @ drop i (take ?e (tl ?n))"
      and R: "R = fu_payloads mp (hd ?n) (tl ?n) ?e @ rest mp ns (Suc b) 0" using assms(2) by simp_all
    note step = fu_step [OF refl n(2) b il e, of prev, folded p]
    show ?thesis
    proof (cases "?e = length (tl ?n)")
      case True
      have "R = rest mp ns (Suc b) 0" unfolding R True by (simp add: fu_payloads.simps)
      moreover have "at_pos mp ns (Suc b) 0" using b by (simp add: at_pos_def)
      ultimately show ?thesis using step True by (intro exI [of _ "Suc b"] exI [of _ 0]) auto
    next
      case F: False
      then have pe: "0 < ?e" "?e < length (tl ?n)" using e by linarith+
      then have "at_pos mp ns b ?e" using b False pe unfolding at_pos_def by (simp only: not_le) blast
      moreover have "R = rest mp ns b ?e" unfolding R by (rule rest_mid [OF pe(1), symmetric])
      moreover have "holds prev ns b i d \<longrightarrow> holds prev ns b ?e (take_payload p d)" for d
        using step [of d] unfolding if_not_P [OF F] by blast
      ultimately show ?thesis by blast
    qed
  qed
qed

subsection \<open>Receiving with losses\<close>

text \<open>After \<open>g\<close> packets in a row were lost the next expected one is \<open>e\<close>: the receiver still holds what it
  held, and will notice.\<close>

definition follows :: "bool \<Rightarrow> bytes list \<Rightarrow> nat \<Rightarrow> nat \<Rightarrow> nat \<Rightarrow> u16 \<Rightarrow> depacketizer \<Rightarrow> bool" where
  "follows prev ns b i g e d \<longleftrightarrow>
     (case dp_last_seq d of None \<Rightarrow> lost d | Some s \<Rightarrow> e = s + 1 + of_nat g \<and> (g = 0 \<longrightarrow> holds prev ns b i d))"

lemma lost_holds: "lost d \<Longrightarrow> holds prev ns b i d"
  by (simp add: holds_def)

lemma holds_seq [simp]: "holds prev ns b i (d\<lparr>dp_last_seq := s\<rparr>) = holds prev ns b i d"
  by (simp add: holds_def lost_def content_def)

lemma holds_ts [simp]: "holds prev ns b i (note_ts ts d) = holds prev ns b i d"
  by (simp add: holds_def lost_def content_def)

lemma of_nat_u16_zero: "0 < g \<Longrightarrow> g < 65536 \<Longrightarrow> (of_nat g :: u16) \<noteq> 0"
  by (auto simp: word_of_nat_eq_0_iff dest: dvd_imp_le)

lemma follows_prep:
  assumes "follows prev ns b i g e d" "g < 65536"
  shows "holds prev ns b i (note_ts ts (note_seq e d))" "dp_last_seq (note_ts ts (note_seq e d)) = Some e"
proof -
  show "dp_last_seq (note_ts ts (note_seq e d)) = Some e" by (simp add: note_seq_def Let_def)
  show "holds prev ns b i (note_ts ts (note_seq e d))"
  proof (cases "dp_last_seq d")
    case None
    then show ?thesis using assms(1) by (simp add: follows_def note_seq_def lost_holds)
  next
    case (Some s)
    then show ?thesis
      using assms of_nat_u16_zero [of g] by (cases "g = 0") (auto simp: follows_def note_seq_def lost_holds)
  qed
qed

lemma last_seq_take_payload [simp]: "dp_last_seq (take_payload p d) = dp_last_seq d"
proof -
  have n: "dp_last_seq (take_nal n d) = dp_last_seq d" "dp_last_seq (poison d) = dp_last_seq d" for n d
    by (simp_all add: take_nal_def note_nal_def poison_def Let_def)
  have "dp_last_seq (stap_a q d) = dp_last_seq d" for q d
  proof (induction q d rule: stap_a.induct)
    case (1 q d)
    then show ?case by (subst stap_a.simps) (simp add: Let_def n)
  qed
  then show ?thesis by (simp add: take_payload_def fu_a_def Let_def n)
qed

lemma follows_lost: "follows prev ns b i g e d \<Longrightarrow> follows prev' ns' b' i' (Suc g) (e + 1) d"
  by (auto simp: follows_def split: option.splits)

lemma follows_feed:
  assumes "follows prev ns b i g e d" "g < 65536" "\<forall>d. holds prev ns b i d \<longrightarrow> holds prev ns b' i' (take_payload p d)"
  shows "follows prev ns b' i' 0 (e + 1) (feed ts e p d)" "holds prev ns b' i' (feed ts e p d)"
  using follows_prep [OF assms(1,2), of ts] assms(3) by (simp_all add: follows_def feed_def)

text \<open>What the receiver may show of a list of units, the first of which follows one that was shown
  if \<open>prev\<close>.\<close>

inductive explained :: "bool \<Rightarrow> bytes list list \<Rightarrow> access_unit list \<Rightarrow> bool" where
  nothing: "explained prev [] []"
| skipped: "explained False us out \<Longrightarrow> explained prev (ns # us) out"
| complete: "explained True us out \<Longrightarrow> ac_data u = annexb ns \<Longrightarrow> ac_keyframe u = list_ex idr ns \<Longrightarrow> prev \<or> ac_keyframe u \<Longrightarrow>
    explained prev (ns # us) (u # out)"
| beheaded: "explained True us out \<Longrightarrow> 0 < a \<Longrightarrow> a < length ns \<Longrightarrow> ac_data u = annexb (drop a ns) \<Longrightarrow>
    ac_keyframe u \<Longrightarrow> list_ex idr (drop a ns) \<Longrightarrow> explained prev (ns # us) (u # out)"

fun survivors :: "bool list \<Rightarrow> bytes list \<Rightarrow> bytes list" where
  "survivors (f # fs) (p # ps) = (if f then p # survivors fs ps else survivors fs ps)"
| "survivors _ _ = []"

text \<open>Fewer than 65536 packets are lost in a row, the range of the sequence number.\<close>

fun runs_ok :: "nat \<Rightarrow> bool list \<Rightarrow> bool" where
  "runs_ok g [] \<longleftrightarrow> True"
| "runs_ok g (f # fs) \<longleftrightarrow> (if f then g < 65536 \<and> runs_ok 0 fs else runs_ok (Suc g) fs)"

fun run_after :: "nat \<Rightarrow> bool list \<Rightarrow> nat" where
  "run_after g [] = g"
| "run_after g (f # fs) = run_after (if f then 0 else Suc g) fs"

fun marked :: "packetizer \<Rightarrow> u32 \<Rightarrow> u16 \<Rightarrow> bytes list \<Rightarrow> bytes list" where
  "marked k ts e [] = []"
| "marked k ts e (p # ps) = packet k ts e (ps = []) p # marked k ts (e + 1) ps"

lemma marked_eq: "ps \<noteq> [] \<Longrightarrow> butlast (packets k ts e ps) @ [set_marker (last (packets k ts e ps))] = marked k ts e ps"
proof (induction ps arbitrary: e)
  case (Cons p ps)
  then show ?case by (cases "ps = []") (simp_all add: set_marker_packet)
qed simp

lemma length_marked [simp]: "length (marked k ts e ps) = length ps"
  by (induction ps arbitrary: e) simp_all

lemma runs_append: "runs_ok g (fs @ gs) \<longleftrightarrow> runs_ok g fs \<and> runs_ok (run_after g fs) gs"
  by (induction fs arbitrary: g) auto

lemma survivors_append: "length fs = length ps \<Longrightarrow> survivors (fs @ gs) (ps @ qs) = survivors fs ps @ survivors gs qs"
  by (induction fs ps rule: list_induct2) simp_all

lemma fu_payloads_ne: "i < length body \<Longrightarrow> fu_payloads mp hdr body i \<noteq> []"
  by (subst fu_payloads.simps) (simp add: Let_def)

lemma rest_Nil:
  assumes "at_pos mp ns b i" "rest mp ns b i = []" "list_all plain_nal ns" "2 \<le> mp"
  shows "i = 0 \<and> b = length ns"
proof (rule ccontr)
  assume "\<not> (i = 0 \<and> b = length ns)"
  then have b: "b < length ns" using assms(1) by (auto simp: at_pos_def)
  then have "ns ! b \<noteq> []" using assms(3) by (simp add: list_all_length plain_nal_def)
  then have "rest mp ns b 0 \<noteq> []" using nal_payloads_ne [OF _ assms(4)] b by (simp add: rest_Suc)
  moreover have "rest mp ns b i \<noteq> []" if "0 < i"
    using assms(1) that fu_payloads_ne [of i "tl (ns ! b)" mp "hd (ns ! b)"] unfolding rest_mid [OF that] at_pos_def by force
  ultimately show False using assms(2) by (cases "i = 0") blast+
qed

definition settled :: "bool \<Rightarrow> depacketizer \<Rightarrow> bool" where
  "settled prev d \<longleftrightarrow> dp_au d = [] \<and> dp_fu d = [] \<and> \<not> dp_au_has_idr d \<and> (prev \<or> dp_wait_keyframe d)"

definition shows_of :: "bool \<Rightarrow> bytes list \<Rightarrow> access_unit \<Rightarrow> bool" where
  "shows_of prev ns u \<longleftrightarrow>
     ac_data u = annexb ns \<and> ac_keyframe u = list_ex idr ns \<and> (prev \<or> ac_keyframe u)
     \<or> (\<exists>a. 0 < a \<and> a < length ns \<and> ac_data u = annexb (drop a ns) \<and> ac_keyframe u \<and> list_ex idr (drop a ns))"

lemma annexb_Nil: "annexb ns = [] \<longleftrightarrow> ns = []"
  by (cases ns) (simp_all add: ANNEX_B_def)

lemma close_holds:
  assumes h: "holds prev ns (length ns) 0 d" and ne: "ns \<noteq> []" and c: "close_au d = (a, d')"
  shows "dp_last_seq d' = dp_last_seq d"
    and "a = None \<and> settled False d' \<or> (\<exists>u. a = Some u \<and> shows_of prev ns u \<and> settled True d')"
proof -
  show "dp_last_seq d' = dp_last_seq d" using c by (auto simp: close_au_def Let_def split: if_splits)
  obtain j where j: "content prev ns j (length ns) d" and fu: "dp_fu d = []"
    using h lost_content [of d prev ns "length ns"] unfolding holds_def lost_def by auto
  have data: "dp_au d = annexb (drop j ns)" "dp_au_has_idr d = list_ex idr (drop j ns)" "j = 0 \<and> prev \<or> dp_wait_keyframe d" "j \<le> length ns"
    using j by (simp_all add: content_def)
  show "a = None \<and> settled False d' \<or> (\<exists>u. a = Some u \<and> shows_of prev ns u \<and> settled True d')"
  proof (cases "drop j ns = [] \<or> dp_wait_keyframe d \<and> \<not> list_ex idr (drop j ns)")
    case True
    then have "dp_wait_keyframe d" using data(3) ne by auto
    then have "a = None" "settled False d'"
      using True c data fu by (auto simp: close_au_def settled_def annexb_Nil Let_def split: if_splits)
    then show ?thesis by blast
  next
    case False
    then have "\<exists>u. a = Some u \<and> ac_data u = annexb (drop j ns) \<and> ac_keyframe u = list_ex idr (drop j ns)" "settled True d'"
      using c data fu by (auto simp: close_au_def settled_def annexb_Nil Let_def split: if_splits)
    then obtain u where u: "a = Some u" "ac_data u = annexb (drop j ns)" "ac_keyframe u = list_ex idr (drop j ns)" by blast
    have "shows_of prev ns u"
    proof (cases "j = 0")
      case True
      then show ?thesis using u False data(3) by (auto simp: shows_of_def)
    next
      case F: False
      then have "list_ex idr (drop j ns)" "j < length ns" using False data(3,4) by auto
      then show ?thesis using u F unfolding shows_of_def by blast
    qed
    then show ?thesis using u(1) \<open>settled True d'\<close> by blast
  qed
qed

lemma settled_follows: "settled prev d \<Longrightarrow> dp_last_seq d = Some e \<Longrightarrow> follows prev ns 0 0 0 (e + 1) d"
  by (auto simp: follows_def holds_def settled_def content_def lost_def intro: exI [of _ 0])

lemma unit_lossy:
  assumes k: "pt_ok (pk_payload_type k)" and ns: "list_all plain_nal ns" "ns \<noteq> []" "2 \<le> mp"
    and "\<forall>p \<in> set pls. p \<noteq> [] \<and> length p \<le> MAX_RTP_LEN - 12" "at_pos mp ns b i" "rest mp ns b i = pls" "pls \<noteq> []"
    and "follows prev ns b i g e d" "length fs = length pls" "runs_ok g fs"
  shows "\<exists>out d' prev'. depacketize (survivors fs (marked k ts e pls)) d = (out, d')
    \<and> (\<forall>ns'. follows prev' ns' 0 0 (run_after g fs) (e + of_nat (length pls)) d')
    \<and> (out = [] \<and> \<not> prev' \<or> (\<exists>u. out = [u] \<and> prev' \<and> shows_of prev ns u))"
  using assms(5-)
proof (induction pls arbitrary: b i g e d fs)
  case (Cons p ps)
  obtain f fs' where fs: "fs = f # fs'" using Cons.prems(6) by (cases fs) auto
  have p: "p \<noteq> []" "length p \<le> MAX_RTP_LEN - 12" and ps: "\<forall>p \<in> set ps. p \<noteq> [] \<and> length p \<le> MAX_RTP_LEN - 12" using Cons.prems(1) by simp_all
  obtain b' i' where pos: "at_pos mp ns b' i'" "rest mp ns b' i' = ps"
    and step: "\<forall>d. holds prev ns b i d \<longrightarrow> holds prev ns b' i' (take_payload p d)"
    using pos_step [OF Cons.prems(2,3) ns(1,3), of prev] by metis
  note push = push_packet [OF k p]
  have len: "length fs' = length ps" using Cons.prems(6) fs by simp
  show ?case
  proof (cases "ps = []")
    case last: True
    then have fs': "fs' = []" using len by simp
    show ?thesis
    proof (cases f)
      case True
      have g: "g < 65536" using Cons.prems(7) fs True by simp
      have end': "i' = 0" "b' = length ns" using rest_Nil [OF pos(1) _ ns(1,3)] pos(2) last by auto
      note fed = follows_feed [OF Cons.prems(5) g step, of ts]
      obtain a d' where c: "close_au (feed ts e p d) = (a, d')" by fastforce
      have seq: "dp_last_seq (feed ts e p d) = Some e" by (simp add: feed_def note_seq_def Let_def)
      note cl = close_holds [OF fed(2) [unfolded end'] ns(2) c]
      have run: "depacketize (survivors fs (marked k ts e (p # ps))) d = (case a of Some u \<Rightarrow> [u] | None \<Rightarrow> [], d')"
        by (simp add: fs fs' True last push c)
      from cl(2) show ?thesis
      proof (elim disjE conjE exE)
        assume "a = None" "settled False d'"
        then show ?thesis using run settled_follows [of False d' e] cl(1) seq by (intro exI conjI) (auto simp: fs fs' True last)
      next
        fix u assume "a = Some u" "shows_of prev ns u" "settled True d'"
        then show ?thesis using run settled_follows [of True d' e] cl(1) seq by (intro exI conjI) (auto simp: fs fs' True last)
      qed
    next
      case False
      then have "depacketize (survivors fs (marked k ts e (p # ps))) d = ([], d)" by (simp add: fs fs')
      moreover have "follows False ns' 0 0 (run_after g fs) (e + of_nat (length (p # ps))) d" for ns'
        using follows_lost [OF Cons.prems(5), of False ns' 0 0] by (simp add: fs fs' False last)
      ultimately show ?thesis by blast
    qed
  next
    case more: False
    show ?thesis
    proof (cases f)
      case True
      have g: "g < 65536" "runs_ok 0 fs'" using Cons.prems(7) fs True by simp_all
      note fed = follows_feed(1) [OF Cons.prems(5) g(1) step, of ts]
      from Cons.IH [OF ps pos more fed len g(2)] show ?thesis
        by (simp add: fs True more push add.assoc split: prod.splits)
    next
      case False
      have g: "runs_ok (Suc g) fs'" using Cons.prems(7) fs False by simp
      from Cons.IH [OF ps pos more follows_lost [OF Cons.prems(5)] len g] show ?thesis
        by (simp add: fs False add.assoc)
    qed
  qed
qed simp

lemma packetize_marked:
  assumes "unit_ok ns" "mtu \<le> MAX_RTP_LEN"
  shows "packetize (annexb ns) ts mtu k = (marked k ts (pk_seq k) (rest (max (mtu - RTP_HEADER) 2) ns 0 0),
    k\<lparr>pk_seq := pk_seq k + of_nat (length (rest (max (mtu - RTP_HEADER) 2) ns 0 0))\<rparr>)"
  using packetize_payloads(4) [OF assms, of ts k] marked_eq [OF packetize_payloads(2) [OF assms], of k ts "pk_seq k"]
  by (simp add: rest_def)

lemma stream_lossy:
  assumes "\<And>ns. follows prev ns 0 0 g (pk_seq k) d" "pt_ok (pk_payload_type k)" "mtu \<le> MAX_RTP_LEN"
    and "\<forall>u \<in> set us. unit_ok (fst u)" "length fs = length (send mtu us k)" "runs_ok g fs"
  shows "explained prev (map fst us) (fst (depacketize (survivors fs (send mtu us k)) d))"
  using assms
proof (induction us arbitrary: prev g k d fs)
  case Nil
  then show ?case by (simp add: explained.nothing)
next
  case (Cons u us)
  obtain ns ts where u: "u = (ns, ts)" by fastforce
  let ?mp = "max (mtu - RTP_HEADER) 2"
  define pls where "pls = rest ?mp ns 0 0"
  define k' where "k' = k\<lparr>pk_seq := pk_seq k + of_nat (length pls)\<rparr>"
  have ok: "unit_ok ns" using Cons.prems(4) u by simp
  have pk: "packetize (annexb ns) ts mtu k = (marked k ts (pk_seq k) pls, k')"
    unfolding pls_def k'_def by (rule packetize_marked [OF ok Cons.prems(3)])
  have pp: "2 \<le> ?mp" "pls \<noteq> []" "\<forall>p \<in> set pls. p \<noteq> [] \<and> length p \<le> MAX_RTP_LEN - 12"
    using packetize_payloads(1-3) [OF ok Cons.prems(3)] by (simp_all add: pls_def rest_def)
  have ns: "list_all plain_nal ns" "ns \<noteq> []" using ok by (simp_all add: unit_ok_def)
  define fs1 fs2 where "fs1 = take (length pls) fs" and "fs2 = drop (length pls) fs"
  have fs: "fs = fs1 @ fs2" "length fs1 = length pls" "length fs2 = length (send mtu us k')"
    using Cons.prems(5) by (simp_all add: fs1_def fs2_def u pk)
  have runs: "runs_ok g fs1" "runs_ok (run_after g fs1) fs2" using Cons.prems(6) unfolding fs(1) runs_append by simp_all
  have pos: "at_pos ?mp ns 0 0" by (simp add: at_pos_def)
  obtain out d' prev' where unit: "depacketize (survivors fs1 (marked k ts (pk_seq k) pls)) d = (out, d')"
    "\<And>ns'. follows prev' ns' 0 0 (run_after g fs1) (pk_seq k + of_nat (length pls)) d'"
    "out = [] \<and> \<not> prev' \<or> (\<exists>u. out = [u] \<and> prev' \<and> shows_of prev ns u)"
    using unit_lossy [OF Cons.prems(2) ns pp(1,3) pos pls_def [symmetric] pp(2) Cons.prems(1) fs(2) runs(1), of ts] by blast
  have IH: "explained prev' (map fst us) (fst (depacketize (survivors fs2 (send mtu us k')) d'))"
    by (rule Cons.IH [OF _ _ Cons.prems(3) _ fs(3) runs(2)]) (use unit(2) Cons.prems(2,4) in \<open>simp_all add: k'_def\<close>)
  have "fst (depacketize (survivors fs (send mtu (u # us) k)) d) = out @ fst (depacketize (survivors fs2 (send mtu us k')) d')"
    using fs(2) by (simp add: fs(1) u pk survivors_append depacketize_append unit(1) split: prod.splits)
  then show ?case using unit(3) IH by (auto simp: u shows_of_def intro: explained.intros)
qed

text \<open>
  C27: Under any loss of packets, short of 65536 in a row, what the receiver shows is explained by
  the stream that was sent: in order, at most one unit for each unit sent, made of whole NAL
  units; a unit that is not a keyframe is shown complete and only directly after its
  predecessor was shown; and the only damage that is ever shown is a keyframe without its
  leading NAL units. Nothing is invented, joined across units or cut inside a NAL unit.
\<close>

theorem loss_explained:
  assumes "pt_ok pt" "mtu \<le> MAX_RTP_LEN" "\<forall>u \<in> set us. unit_ok (fst u)"
    and "length received = length (send mtu us (packetizer_new ssrc pt))" "runs_ok 0 received"
  shows "explained False (map fst us)
    (fst (depacketize (survivors received (send mtu us (packetizer_new ssrc pt))) depacketizer_new))"
proof -
  have "follows False ns 0 0 0 (pk_seq (packetizer_new ssrc pt)) depacketizer_new" for ns
    by (simp add: follows_def lost_def depacketizer_new_def)
  from stream_lossy [OF this _ assms(2-5)] show ?thesis using assms(1) by (simp add: packetizer_new_def)
qed

definition demo_units :: "(bytes list \<times> u32) list" where
  "demo_units = [([[0x67, 1], [0x65, 2]], 0), ([[0x41, 3]], 3000)]"

lemma demo_units_ok: "\<forall>u \<in> set demo_units. unit_ok (fst u)"
  by (simp add: demo_units_def unit_ok_def nal_ok_def plain_nal_def MAX_AU_BYTES_def)

lemma demo_length: "length (send 1200 demo_units (packetizer_new 1 96)) = 3"
  using demo_units_ok by (simp add: demo_units_def packetize_marked MAX_RTP_LEN_def rest_def nal_payloads_def RTP_HEADER_def del: annexb_simps)

theorem loss_explained_witness:
  "explained False (map fst demo_units)
    (fst (depacketize (survivors [False, True, True] (send 1200 demo_units (packetizer_new 1 96))) depacketizer_new))"
  by (rule loss_explained) (simp_all add: demo_units_ok demo_length pt_ok_def MAX_RTP_LEN_def)

end
