(* ===== verification/Broadcast.thy ===== *)
theory Broadcast
  imports Node_Props Hls_Playlist Rtp_Loss Supervisor
begin

section \<open>The application between the encoder, the mesh and the player\<close>

text \<open>
  The glue that carries media through the components: the track handlers of the WHIP endpoint
  (\<open>whip-ingest/src/server.rs\<close>), the feeder task of the publisher, the sealing of what goes
  to the mesh, and the sink that opens it again in front of the viewer's player
  (\<open>unstation-app/src/lib.rs\<close>). Random nonces, the clock and the arrival order of events are
  inputs; what the feeder tells the other tasks is a list of outputs.
\<close>

subsection \<open>The stream key\<close>

definition hex_value :: "nat \<Rightarrow> nat option" where
  "hex_value c =
     (if 48 \<le> c \<and> c \<le> 57 then Some (c - 48)
      else if 65 \<le> c \<and> c \<le> 70 then Some (c - 55)
      else if 97 \<le> c \<and> c \<le> 102 then Some (c - 87)
      else None)"

text \<open>\<open>u8::from_str_radix\<close> on two bytes accepts a plus sign in front of one digit.\<close>

definition u8_from_hex :: "nat \<Rightarrow> nat \<Rightarrow> u8 option" where
  "u8_from_hex a b =
     (case hex_value b of
        None \<Rightarrow> None
      | Some y \<Rightarrow>
          if a = 43 then Some (of_nat y)
          else (case hex_value a of Some x \<Rightarrow> Some (of_nat (16 * x + y)) | None \<Rightarrow> None))"

fun hex_pairs :: "nat list \<Rightarrow> bytes option" where
  "hex_pairs (a # b # s) =
     (case u8_from_hex a b of Some x \<Rightarrow> map_option ((#) x) (hex_pairs s) | None \<Rightarrow> None)"
| "hex_pairs [] = Some []"
| "hex_pairs [a] = None"

text \<open>
  The length of the source is in bytes. A key with a character outside ASCII fails to parse at
  whatever length, so the length in characters decides the same way.
\<close>

definition decode_stream_key :: "ustr option \<Rightarrow> bytes option" where
  "decode_stream_key k =
     (case k of
        None \<Rightarrow> None
      | Some k \<Rightarrow>
          (let s = trim_by char_is_whitespace k;
               raw = (if take 2 s = ustr ''0x'' then drop 2 s else s)
           in if length raw \<noteq> 64 then None else hex_pairs raw))"

subsection \<open>Sealing for the mesh\<close>

definition mesh_segment :: "libs \<Rightarrow> bytes \<Rightarrow> bytes option \<Rightarrow> segment \<Rightarrow> segment_id \<times> bytes" where
  "mesh_segment L nonce key seg =
     (case key of
        Some k \<Rightarrow> (let ct = seal_segment L nonce k (sg_bytes seg) in (segment_id_of L ct, ct))
      | None \<Rightarrow> (sg_id seg, sg_bytes seg))"

definition mesh_init :: "libs \<Rightarrow> bytes \<Rightarrow> bytes option \<Rightarrow> bytes \<Rightarrow> bytes" where
  "mesh_init L nonce key init = (case key of Some k \<Rightarrow> seal_segment L nonce k init | None \<Rightarrow> init)"

text \<open>The sink of a watch session: the HLS window itself, or the decrypting one in front of it.\<close>

definition sink_init :: "libs \<Rightarrow> bytes option \<Rightarrow> bytes \<Rightarrow> shared \<Rightarrow> shared" where
  "sink_init L key b g =
     (case key of
        None \<Rightarrow> push_init b g
      | Some k \<Rightarrow> (case open_segment L k b of Some plain \<Rightarrow> push_init plain g | None \<Rightarrow> g))"

definition sink_segment :: "libs \<Rightarrow> bytes option \<Rightarrow> u64 \<Rightarrow> u64 \<Rightarrow> bytes \<Rightarrow> shared \<Rightarrow> shared" where
  "sink_segment L key wall_ms seq b g =
     (case key of
        None \<Rightarrow> push_segment wall_ms seq b g
      | Some k \<Rightarrow> (case open_segment L k b of Some plain \<Rightarrow> push_segment wall_ms seq plain g | None \<Rightarrow> g))"

text \<open>What the node's effects do to the window, at the wall clock of each.\<close>

fun sink_run :: "libs \<Rightarrow> bytes option \<Rightarrow> (u64 \<times> effect) list \<Rightarrow> shared \<Rightarrow> shared" where
  "sink_run L key [] g = g"
| "sink_run L key ((wall, e) # es) g =
     sink_run L key es
       (case e of PushInit b \<Rightarrow> sink_init L key b g | PushSegment s b \<Rightarrow> sink_segment L key wall s b g | _ \<Rightarrow> g)"

subsection \<open>The tracks of the WHIP session\<close>

datatype ingest_event = AudioNegotiated u8 | Video access_unit "(bytes \<times> bytes) option" | Audio opus_frame

definition track_message :: "bytes \<Rightarrow> depacketizer \<Rightarrow> ingest_event list \<times> depacketizer" where
  "track_message msg d =
     (case push_rtp msg d of
        (None, d1) \<Rightarrow> ([], d1)
      | (Some au, d1) \<Rightarrow> (let (config, d2) = take_config d1 in ([Video au config], d2)))"

definition audio_message :: "bytes \<Rightarrow> opus_depacketizer \<Rightarrow> ingest_event list \<times> opus_depacketizer" where
  "audio_message msg d = (case opus_push msg d of (None, d1) \<Rightarrow> ([], d1) | (Some frame, d1) \<Rightarrow> ([Audio frame], d1))"

fun track_run :: "bytes list \<Rightarrow> depacketizer \<Rightarrow> ingest_event list" where
  "track_run [] d = []"
| "track_run (p # ps) d = (let (evs, d1) = track_message p d in evs @ track_run ps d1)"

subsection \<open>The feeder\<close>

definition LL_PART_MS :: u32 where "LL_PART_MS = 250"
definition OPUS_DEFAULT_FRAME_TICKS :: u32 where "OPUS_DEFAULT_FRAME_TICKS = 960"

definition pts_us_to_rtp90k :: "int \<Rightarrow> u32" where
  "pts_us_to_rtp90k pts = ucast ((word_of_int (max pts 0) * 90 :: u64) div 1000)"

datatype feed_out =
  SetConfig bytes bytes
| FastBroadcast bytes u32 bool
| InitSlot bytes
| PreviewInit bytes
| PreviewSegment u64 bytes
| Ingested nat
| Durable u64 bytes
| ToNode engine_event
| Edge u64 segment_id
| LiveState bool

record feeder =
  fd_fb :: "fragment_builder option"
  fd_audio_channels :: "u8 option"
  fd_last_ts48 :: "u64 option"
  fd_live :: bool
  fd_last_fresh :: instant
  fd_out :: "feed_out list"

definition feeder_new :: "instant \<Rightarrow> feeder" where
  "feeder_new now = \<lparr>fd_fb = None, fd_audio_channels = None, fd_last_ts48 = None, fd_live = False,
     fd_last_fresh = now, fd_out = []\<rparr>"

definition say :: "feed_out list \<Rightarrow> feeder \<Rightarrow> feeder" where
  "say os f = f\<lparr>fd_out := fd_out f @ os\<rparr>"

text \<open>The receive timed out.\<close>

definition feed_idle :: "instant \<Rightarrow> feeder \<Rightarrow> feeder" where
  "feed_idle now f =
     (if fd_live f \<and> 2000 * 1000000 < now - fd_last_fresh f then say [LiveState False] (f\<lparr>fd_live := False\<rparr>) else f)"

definition feed_negotiated :: "u8 \<Rightarrow> feeder \<Rightarrow> feeder" where
  "feed_negotiated channels f = (if fd_fb f = None then f\<lparr>fd_audio_channels := Some channels\<rparr> else f)"

definition opus_ticks :: "u64 option \<Rightarrow> u64 \<Rightarrow> u32" where
  "opus_ticks last' ts48 =
     (case last' of
        Some prev \<Rightarrow> ucast (max 1 (min (sat_sub ts48 prev) (ucast AUDIO_TIMESCALE)))
      | None \<Rightarrow> OPUS_DEFAULT_FRAME_TICKS)"

definition feed_audio :: "opus_frame \<Rightarrow> feeder \<Rightarrow> feeder" where
  "feed_audio frame f =
     (case fd_fb f of
        None \<Rightarrow> f
      | Some b \<Rightarrow>
          (let dur = opus_ticks (fd_last_ts48 f) (of_ts48 frame)
           in f\<lparr>fd_last_ts48 := Some (of_ts48 frame), fd_fb := Some (push_opus (of_data frame) dur b)\<rparr>))"

text \<open>The muxer is built when the codec configuration arrives.\<close>

definition start_muxer :: "libs \<Rightarrow> bytes option \<Rightarrow> bytes \<Rightarrow> bytes \<times> bytes \<Rightarrow> feeder \<Rightarrow> feeder" where
  "start_muxer L key nonce = (\<lambda>(sps, pps) f.
     (let (width, height) = (case dimensions sps of Some d \<Rightarrow> d | None \<Rightarrow> (1280, 720));
          b0 = fb_new_ll \<lparr>hp_sps = sps, hp_pps = pps, hp_width = width, hp_height = height\<rparr> LL_PART_MS;
          b = (case fd_audio_channels f of Some ch \<Rightarrow> with_opus_audio ch b0 | None \<Rightarrow> b0);
          init = init_segment b;
          mesh = mesh_init L nonce key init
      in (say [InitSlot mesh, ToNode (InitSegment mesh), PreviewInit init] f)\<lparr>fd_fb := Some b\<rparr>))"

definition publish_segment :: "libs \<Rightarrow> bytes option \<Rightarrow> bytes \<Rightarrow> segment \<Rightarrow> feed_out list" where
  "publish_segment L key nonce seg =
     (let (mesh_id, mesh_bytes) = mesh_segment L nonce key seg
      in [Ingested (length (sg_bytes seg)), PreviewSegment (sg_seq seg) (sg_bytes seg), Durable (sg_seq seg) mesh_bytes,
          ToNode (Produced (sg_seq seg) mesh_id mesh_bytes), Edge (sg_seq seg) mesh_id])"

definition mux_video :: "libs \<Rightarrow> bytes option \<Rightarrow> bytes \<Rightarrow> instant \<Rightarrow> access_unit \<Rightarrow> fragment_builder \<Rightarrow> feeder \<Rightarrow> feeder" where
  "mux_video L key nonce now au b f =
     (let f1 = say [FastBroadcast (ac_data au) (pts_us_to_rtp90k (ac_pts_us au)) (ac_keyframe au)] f;
          (b1, seg) = push_au_pts L (ac_data au) (ac_pts_us au) (ac_keyframe au) b;
          f2 = f1\<lparr>fd_fb := Some b1\<rparr>
      in case seg of
           None \<Rightarrow> f2
         | Some seg \<Rightarrow>
             (let f3 = (say (publish_segment L key nonce seg) f2)\<lparr>fd_last_fresh := now\<rparr>
              in if fd_live f3 then f3 else say [LiveState True] (f3\<lparr>fd_live := True\<rparr>)))"

text \<open>The configuration is passed on to the fast tier before anything else.\<close>

definition with_config :: "(bytes \<times> bytes) option \<Rightarrow> feeder \<Rightarrow> feeder" where
  "with_config config f = (case config of Some (sps, pps) \<Rightarrow> say [SetConfig sps pps] f | None \<Rightarrow> f)"

definition feed_video :: "libs \<Rightarrow> bytes option \<Rightarrow> bytes \<times> bytes \<Rightarrow> instant \<Rightarrow> access_unit \<Rightarrow> (bytes \<times> bytes) option \<Rightarrow> feeder \<Rightarrow> feeder" where
  "feed_video L key nonces now au config f =
     (let f1 = with_config config f;
          f2 = (case (fd_fb f1, config) of (None, Some c) \<Rightarrow> start_muxer L key (fst nonces) c f1 | _ \<Rightarrow> f1)
      in case fd_fb f2 of
           None \<Rightarrow> f2
         | Some b \<Rightarrow> mux_video L key (snd nonces) now au b f2)"

text \<open>One turn of the loop: a timeout or an event, at an instant, with the nonces it may draw.\<close>

record turn =
  tn_now :: instant
  tn_nonces :: "bytes \<times> bytes"
  tn_event :: "ingest_event option"

definition feed_turn :: "libs \<Rightarrow> bytes option \<Rightarrow> turn \<Rightarrow> feeder \<Rightarrow> feeder" where
  "feed_turn L key t f =
     (case tn_event t of
        None \<Rightarrow> feed_idle (tn_now t) f
      | Some (AudioNegotiated channels) \<Rightarrow> feed_negotiated channels f
      | Some (Audio frame) \<Rightarrow> feed_audio frame f
      | Some (Video au config) \<Rightarrow> feed_video L key (tn_nonces t) (tn_now t) au config f)"

definition feed_run :: "libs \<Rightarrow> bytes option \<Rightarrow> turn list \<Rightarrow> feeder \<Rightarrow> feeder" where
  "feed_run L key = fold (feed_turn L key)"


subsection \<open>What the feeder puts out\<close>

text \<open>The outputs of one kind, in order.\<close>

fun previews :: "feed_out list \<Rightarrow> (u64 \<times> bytes) list" where
  "previews [] = []"
| "previews (PreviewSegment s b # os) = (s, b) # previews os"
| "previews (_ # os) = previews os"

fun produced :: "feed_out list \<Rightarrow> (u64 \<times> segment_id \<times> bytes) list" where
  "produced [] = []"
| "produced (ToNode (Produced s i b) # os) = (s, i, b) # produced os"
| "produced (_ # os) = produced os"

fun edges_told :: "feed_out list \<Rightarrow> (u64 \<times> segment_id) list" where
  "edges_told [] = []"
| "edges_told (Edge s i # os) = (s, i) # edges_told os"
| "edges_told (_ # os) = edges_told os"

fun durables :: "feed_out list \<Rightarrow> (u64 \<times> bytes) list" where
  "durables [] = []"
| "durables (Durable s b # os) = (s, b) # durables os"
| "durables (_ # os) = durables os"

lemma previews_append [simp]: "previews (xs @ ys) = previews xs @ previews ys"
  by (induction xs rule: previews.induct) simp_all

lemma produced_append [simp]: "produced (xs @ ys) = produced xs @ produced ys"
  by (induction xs rule: produced.induct) simp_all

lemma edges_told_append [simp]: "edges_told (xs @ ys) = edges_told xs @ edges_told ys"
  by (induction xs rule: edges_told.induct) simp_all

lemma durables_append [simp]: "durables (xs @ ys) = durables xs @ durables ys"
  by (induction xs rule: durables.induct) simp_all

text \<open>
  One segment of the muxer in its four outputs: the plaintext for the preview, and the same
  mesh form of it for the node, the durable floor and the announced edge.
\<close>

definition mesh_form :: "libs \<Rightarrow> bytes option \<Rightarrow> segment \<Rightarrow> u64 \<times> segment_id \<times> bytes \<Rightarrow> bool" where
  "mesh_form L key sg = (\<lambda>(s, m). s = sg_seq sg \<and> (\<exists>nonce. length nonce = 24 \<and> m = mesh_segment L nonce key sg))"

definition told :: "libs \<Rightarrow> bytes option \<Rightarrow> segment list \<Rightarrow> feed_out list \<Rightarrow> bool" where
  "told L key segs os \<longleftrightarrow> previews os = map (\<lambda>sg. (sg_seq sg, sg_bytes sg)) segs
     \<and> list_all2 (mesh_form L key) segs (produced os)
     \<and> edges_told os = map (\<lambda>(s, i, _). (s, i)) (produced os) \<and> durables os = map (\<lambda>(s, _, b). (s, b)) (produced os)"

lemma told_append: "told L key xs os \<Longrightarrow> told L key ys ps \<Longrightarrow> told L key (xs @ ys) (os @ ps)"
  by (simp add: told_def list_all2_appendI)

lemma told_publish: "length nonce = 24 \<Longrightarrow> told L key [sg] (publish_segment L key nonce sg)"
  by (auto simp: told_def publish_segment_def mesh_form_def split: prod.splits)

lemma told_quiet: "previews os = [] \<Longrightarrow> produced os = [] \<Longrightarrow> edges_told os = [] \<Longrightarrow> durables os = [] \<Longrightarrow> told L key [] os"
  by (simp add: told_def)

definition nonces_ok :: "turn \<Rightarrow> bool" where
  "nonces_ok t \<longleftrightarrow> length (fst (tn_nonces t)) = 24 \<and> length (snd (tn_nonces t)) = 24"

definition turn_units :: "turn \<Rightarrow> unit' list" where
  "turn_units t =
     (case tn_event t of
        Some (Video au _) \<Rightarrow> units_in (PushAuPts (ac_data au) (ac_pts_us au) (ac_keyframe au))
      | _ \<Rightarrow> [])"

definition configured :: "turn \<Rightarrow> bool" where
  "configured t = (case tn_event t of Some (Video _ config) \<Rightarrow> config \<noteq> None | _ \<Rightarrow> False)"

text \<open>A stretch of turns once the muxer exists: operations of the builder, and what they put out.\<close>

definition muxed :: "libs \<Rightarrow> bytes option \<Rightarrow> unit' list \<Rightarrow> fragment_builder \<Rightarrow> feeder \<Rightarrow> feeder \<Rightarrow> bool" where
  "muxed L key us b f f' \<longleftrightarrow> (\<exists>ops b' segs new. fb_run L ops b = (b', segs) \<and> fd_fb f' = Some b' \<and> fd_out f' = fd_out f @ new
     \<and> told L key segs new \<and> concat (map units_in ops) = us)"

lemma fb_run_append:
  "fb_run L (xs @ ys) b = (let (b1, s1) = fb_run L xs b; (b2, s2) = fb_run L ys b1 in (b2, s1 @ s2))"
  by (induction xs arbitrary: b) (simp_all add: Let_def split: prod.splits)

lemma muxed_trans:
  assumes "muxed L key us b f f1" "\<And>b1. fd_fb f1 = Some b1 \<Longrightarrow> muxed L key vs b1 f1 f2"
  shows "muxed L key (us @ vs) b f f2"
proof -
  obtain ops b1 segs new where 1: "fb_run L ops b = (b1, segs)" "fd_fb f1 = Some b1" "fd_out f1 = fd_out f @ new"
    "told L key segs new" "concat (map units_in ops) = us"
    using assms(1) unfolding muxed_def by blast
  obtain ops' b2 segs' new' where 2: "fb_run L ops' b1 = (b2, segs')" "fd_fb f2 = Some b2" "fd_out f2 = fd_out f1 @ new'"
    "told L key segs' new'" "concat (map units_in ops') = vs"
    using assms(2) [OF 1(2)] unfolding muxed_def by blast
  have "fb_run L (ops @ ops') b = (b2, segs @ segs')" using 1(1) 2(1) by (simp add: fb_run_append)
  moreover have "fd_out f2 = fd_out f @ new @ new'" using 1(3) 2(3) by simp
  moreover have "concat (map units_in (ops @ ops')) = us @ vs" using 1(5) 2(5) by simp
  ultimately show ?thesis unfolding muxed_def using 2(2) told_append [OF 1(4) 2(4)] by blast
qed

lemma muxed_keep: "fd_fb f' = Some b \<Longrightarrow> fd_out f' = fd_out f @ new \<Longrightarrow> told L key [] new \<Longrightarrow> muxed L key [] b f f'"
  unfolding muxed_def by (intro exI [of _ "[]"] exI [of _ b] exI [of _ new]) simp

lemma muxed_video:
  assumes "length nonce = 24"
  shows "muxed L key (units_in (PushAuPts (ac_data au) (ac_pts_us au) (ac_keyframe au))) b f (mux_video L key nonce now au b f)"
proof -
  obtain b1 seg where p: "push_au_pts L (ac_data au) (ac_pts_us au) (ac_keyframe au) b = (b1, seg)" by fastforce
  let ?segs = "case seg of Some x \<Rightarrow> [x] | None \<Rightarrow> []"
  let ?f' = "mux_video L key nonce now au b f"
  have r: "fb_run L [PushAuPts (ac_data au) (ac_pts_us au) (ac_keyframe au)] b = (b1, ?segs)" using p by simp
  have fb: "fd_fb ?f' = Some b1" by (simp add: mux_video_def p say_def Let_def split: option.splits)
  let ?bc = "FastBroadcast (ac_data au) (pts_us_to_rtp90k (ac_pts_us au)) (ac_keyframe au)"
  let ?new = "[?bc] @ (case seg of Some sg \<Rightarrow> publish_segment L key nonce sg @ (if fd_live f then [] else [LiveState True]) | None \<Rightarrow> [])"
  have out: "fd_out ?f' = fd_out f @ ?new" by (simp add: mux_video_def p say_def Let_def split: option.splits)
  have "told L key ?segs ?new"
  proof (cases seg)
    case None
    then show ?thesis by (simp add: told_quiet)
  next
    case (Some sg)
    have "told L key ([] @ [sg] @ []) ([?bc] @ publish_segment L key nonce sg @ (if fd_live f then [] else [LiveState True]))"
      by (intro told_append told_publish [OF assms] told_quiet) simp_all
    then show ?thesis using Some by simp
  qed
  then show ?thesis unfolding muxed_def using r fb out by (intro exI conjI) (assumption | simp)+
qed

lemma say_simps [simp]: "fd_fb (say os f) = fd_fb f" "fd_out (say os f) = fd_out f @ os" "fd_audio_channels (say os f) = fd_audio_channels f"
  by (simp_all add: say_def)

lemma with_config_fb [simp]: "fd_fb (with_config config f) = fd_fb f" "with_config None f = f"
  by (simp_all add: with_config_def split: option.splits)

lemma with_config_quiet: "\<exists>new. fd_out (with_config config f) = fd_out f @ new \<and> told L key [] new"
  by (cases config) (auto simp: with_config_def told_def split: prod.splits)

lemma muxed_config: "fd_fb f = Some b \<Longrightarrow> muxed L key [] b f (with_config config f)"
  using with_config_quiet [of config f L key] muxed_keep [of "with_config config f"] by auto

lemma feed_turn_muxed:
  assumes b: "fd_fb f = Some b" and n: "nonces_ok t"
  shows "muxed L key (turn_units t) b f (feed_turn L key t f)"
proof (cases "tn_event t")
  case None
  have "fd_fb (feed_idle (tn_now t) f) = Some b" using b by (simp add: feed_idle_def)
  moreover have "\<exists>new. fd_out (feed_idle (tn_now t) f) = fd_out f @ new \<and> told L key [] new"
    by (cases "fd_live f \<and> 2000 * 1000000 < tn_now t - fd_last_fresh f") (auto simp: feed_idle_def told_def)
  ultimately show ?thesis using None muxed_keep by (auto simp: feed_turn_def turn_units_def)
next
  case (Some e)
  show ?thesis
  proof (cases e)
    case (AudioNegotiated channels)
    have "muxed L key [] b f f" by (rule muxed_keep [of _ _ _ "[]"]) (simp_all add: b told_def)
    then show ?thesis using Some AudioNegotiated b by (simp add: feed_turn_def feed_negotiated_def turn_units_def)
  next
    case (Audio frame)
    let ?op = "PushOpus (of_data frame) (opus_ticks (fd_last_ts48 f) (of_ts48 frame))"
    have "fb_run L [?op] b = (push_opus (of_data frame) (opus_ticks (fd_last_ts48 f) (of_ts48 frame)) b, [])" by simp
    then show ?thesis using Some Audio b unfolding muxed_def
      by (intro exI conjI) (assumption | simp add: feed_turn_def feed_audio_def turn_units_def told_def Let_def)+
  next
    case (Video au config)
    let ?f1 = "with_config config f"
    have "feed_turn L key t f = mux_video L key (snd (tn_nonces t)) (tn_now t) au b ?f1"
      using Some Video b by (simp add: feed_turn_def feed_video_def Let_def)
    moreover have "muxed L key ([] @ turn_units t) b f (mux_video L key (snd (tn_nonces t)) (tn_now t) au b ?f1)"
      using muxed_trans [OF muxed_config [OF b, where config = config]] muxed_video [of "snd (tn_nonces t)"] n Some Video b
      by (simp add: turn_units_def nonces_ok_def)
    ultimately show ?thesis by simp
  qed
qed

lemma feed_run_muxed: "fd_fb f = Some b \<Longrightarrow> \<forall>t \<in> set ts. nonces_ok t \<Longrightarrow> muxed L key (concat (map turn_units ts)) b f (feed_run L key ts f)"
proof (induction ts arbitrary: b f)
  case Nil
  then show ?case by (simp add: feed_run_def muxed_keep [of _ _ _ "[]"] told_def)
next
  case (Cons t ts)
  have "muxed L key (turn_units t) b f (feed_turn L key t f)" using feed_turn_muxed Cons.prems by simp
  moreover have "muxed L key (concat (map turn_units ts)) b1 (feed_turn L key t f) (feed_run L key ts (feed_turn L key t f))"
    if "fd_fb (feed_turn L key t f) = Some b1" for b1
    using Cons.IH [OF that] Cons.prems(2) by simp
  ultimately show ?case using muxed_trans [of L key "turn_units t" b f "feed_turn L key t f"] by (simp add: feed_run_def)
qed

text \<open>Before the configuration nothing is muxed; with it the muxer starts fresh.\<close>

lemma feed_unconfigured:
  assumes "fd_fb f = None" "\<not> configured t"
  shows "fd_fb (feed_turn L key t f) = None" "\<exists>new. fd_out (feed_turn L key t f) = fd_out f @ new \<and> told L key [] new"
  using assms
  by (auto simp: feed_turn_def feed_idle_def feed_negotiated_def feed_audio_def feed_video_def configured_def told_def
      split: option.splits ingest_event.splits)

lemma feed_configured:
  assumes f: "fd_fb f = None" and t: "configured t" "nonces_ok t"
  shows "\<exists>b. fresh b \<and> muxed L key (turn_units t) b f (feed_turn L key t f)"
proof -
  obtain au sps pps where e: "tn_event t = Some (Video au (Some (sps, pps)))"
    using t(1) by (auto simp: configured_def split: option.splits ingest_event.splits)
  let ?f1 = "start_muxer L key (fst (tn_nonces t)) (sps, pps) (with_config (Some (sps, pps)) f)"
  have "\<exists>b new. fresh b \<and> fd_fb ?f1 = Some b \<and> fd_out ?f1 = fd_out f @ new \<and> told L key [] new"
    by (simp add: start_muxer_def with_config_def told_def Let_def fresh_new split: option.splits prod.splits)
  then obtain b where b: "fresh b" "fd_fb ?f1 = Some b" "muxed L key [] b f ?f1" using muxed_keep by blast
  have "feed_turn L key t f = mux_video L key (snd (tn_nonces t)) (tn_now t) au b ?f1"
    using e f b(2) by (simp add: feed_turn_def feed_video_def Let_def)
  moreover have "muxed L key ([] @ turn_units t) b f (mux_video L key (snd (tn_nonces t)) (tn_now t) au b ?f1)"
    using muxed_trans [OF b(3)] muxed_video [of "snd (tn_nonces t)"] t(2) e b(2) by (simp add: turn_units_def nonces_ok_def)
  ultimately show ?thesis using b(1) by auto
qed

text \<open>The media a run of turns puts into the muxer: everything from the first configured unit on.\<close>

definition ingested :: "turn list \<Rightarrow> unit' list" where
  "ingested ts = concat (map turn_units (dropWhile (\<lambda>t. \<not> configured t) ts))"

lemma feed_trace:
  assumes "fd_fb f = None" "\<forall>t \<in> set ts. nonces_ok t"
  shows "\<exists>frags b audio new. fd_out (feed_run L key ts f) = fd_out f @ new \<and> trace_ok (ingested ts) audio frags b
    \<and> told L key (map (seg_of L) frags) new \<and> (list_ex configured ts \<longrightarrow> fd_fb (feed_run L key ts f) = Some b)"
  using assms
proof (induction ts arbitrary: f)
  case Nil
  have "trace_ok [] [] [] (fb_new p)" for p by (rule trace_fresh [OF fresh_new(1)])
  then show ?case by (auto simp: feed_run_def ingested_def told_def)
next
  case (Cons t ts)
  let ?f = "feed_turn L key t f"
  have run: "feed_run L key (t # ts) f = feed_run L key ts ?f" by (simp add: feed_run_def)
  show ?case
  proof (cases "configured t")
    case False
    obtain new where new: "fd_out ?f = fd_out f @ new" "told L key [] new" using feed_unconfigured(2) [OF Cons.prems(1) False] by blast
    obtain frags b audio new' where "fd_out (feed_run L key ts ?f) = fd_out ?f @ new'" "trace_ok (ingested ts) audio frags b"
      "told L key (map (seg_of L) frags) new'" "list_ex configured ts \<longrightarrow> fd_fb (feed_run L key ts ?f) = Some b"
      using Cons.IH [OF feed_unconfigured(1) [OF Cons.prems(1) False, of L key]] Cons.prems(2) by auto
    then show ?thesis using new told_append [OF new(2)] False by (fastforce simp: run ingested_def)
  next
    case True
    obtain b where b: "fresh b" "muxed L key (turn_units t) b f ?f" using feed_configured [OF Cons.prems(1) True, of L key] Cons.prems(2) by auto
    have "muxed L key (concat (map turn_units ts)) b1 ?f (feed_run L key ts ?f)" if "fd_fb ?f = Some b1" for b1
      using feed_run_muxed [OF that] Cons.prems(2) by simp
    then have "muxed L key (turn_units t @ concat (map turn_units ts)) b f (feed_run L key ts ?f)" by (rule muxed_trans [OF b(2)])
    then obtain ops b' segs new where m: "fb_run L ops b = (b', segs)" "fd_out (feed_run L key ts ?f) = fd_out f @ new"
      "told L key segs new" "concat (map units_in ops) = ingested (t # ts)" "fd_fb (feed_run L key ts ?f) = Some b'"
      using True unfolding muxed_def ingested_def by auto
    from fb_run_trace [OF trace_fresh [OF b(1)] m(1)] m(2-5) show ?thesis unfolding run by auto
  qed
qed

lemma contiguous_seq: "contiguous seq base fs \<Longrightarrow> k < length fs \<Longrightarrow> fr_seq (fs ! k) = seq + of_nat k"
proof (induction fs arbitrary: seq base k)
  case (Cons f fs)
  then show ?case using Cons.IH [of "seq + 1"] by (cases k) (auto simp: algebra_simps)
qed simp

subsection \<open>What the window holds\<close>

definition opened :: "libs \<Rightarrow> bytes option \<Rightarrow> bytes \<Rightarrow> bytes option" where
  "opened L key b = (case key of None \<Rightarrow> Some b | Some k \<Rightarrow> open_segment L k b)"

lemma evict_filters: "\<exists>P. evict_parents cap cur ps = filter P ps"
proof (induction cap cur ps rule: evict_parents.induct)
  case (1 cap cur ps)
  show ?case
  proof (cases "cap < length ps \<and> pt_parent_msn (snd (hd ps)) \<noteq> cur")
    case False
    then show ?thesis by (intro exI [of _ "\<lambda>_. True"], subst evict_parents.simps) (auto split: list.splits)
  next
    case True
    then obtain s o' r where ps: "ps = (s, o') # r" by (cases ps) auto
    let ?ps = "filter (\<lambda>(_, p). pt_parent_msn p \<noteq> pt_parent_msn o') ps"
    obtain P where "evict_parents cap cur ?ps = filter P ?ps" using "1.IH" [OF _ ps refl] True ps by fastforce
    then have "evict_parents cap cur ps = filter P ?ps" using True ps by (subst evict_parents.simps) simp
    then show ?thesis unfolding filter_filter by blast
  qed
qed

lemma evict_subset: "set (evict_parents cap cur ps) \<subseteq> set ps"
  using evict_filters [of cap cur ps] by auto

lemma bt_ok_evict: "bt_ok ps \<Longrightarrow> bt_ok (evict_parents cap cur ps)"
  using evict_filters [of cap cur ps] bt_ok_filter by metis

lemma push_segment_parts:
  "(s, p) \<in> set (sh_parts (push_segment w seq b g)) \<Longrightarrow> (s, p) \<in> set (sh_parts g) \<or> s = seq \<and> pt_bytes p = b"
  using evict_subset bt_put_subset by (fastforce simp: push_segment_def Let_def split_beta)

lemma sink_run_parts:
  "(s, p) \<in> set (sh_parts (sink_run L key es g)) \<Longrightarrow>
   (s, p) \<in> set (sh_parts g) \<or> (\<exists>b. PushSegment s b \<in> snd ` set es \<and> opened L key b = Some (pt_bytes p))"
proof (induction L key es g rule: sink_run.induct)
  case (2 L key wall e es g)
  let ?g = "case e of PushInit b \<Rightarrow> sink_init L key b g | PushSegment s b \<Rightarrow> sink_segment L key wall s b g | _ \<Rightarrow> g"
  have "(s, p) \<in> set (sh_parts g) \<or> (\<exists>b. e = PushSegment s b \<and> opened L key b = Some (pt_bytes p))" if "(s, p) \<in> set (sh_parts ?g)"
    using that by (auto simp: sink_init_def sink_segment_def push_init_def opened_def dest!: push_segment_parts split: effect.splits option.splits)
  then show ?case using "2.IH" "2.prems" by fastforce
qed simp

subsection \<open>What is announced is what is published\<close>

lemma mesh_form_opens:
  assumes "aead_ok L" "mesh_form L key (seg_of L f) (s, i, c)"
  shows "s = fr_seq f" "i = segment_id_of L c" "opened L key c = Some (sg_bytes (seg_of L f))"
proof -
  obtain nonce where n: "length nonce = 24" "(i, c) = mesh_segment L nonce key (seg_of L f)" "s = fr_seq f"
    using assms(2) by (auto simp: mesh_form_def seg_of_def Let_def)
  show "s = fr_seq f" by (fact n(3))
  show "i = segment_id_of L c" using n(2) by (auto simp: mesh_segment_def seg_of_def Let_def split: option.splits)
  have "opened L key (snd (mesh_segment L nonce key (seg_of L f))) = Some (sg_bytes (seg_of L f))"
    using segment_seal_open [OF assms(1) n(1)] by (simp add: mesh_segment_def opened_def Let_def split: option.splits)
  then show "opened L key c = Some (sg_bytes (seg_of L f))" unfolding n(2) [symmetric] by simp
qed

lemma told_edge:
  assumes "aead_ok L" "told L key (map (seg_of L) frags) os" "contiguous 0 0 frags" "(s, i) \<in> set (edges_told os)"
  shows "\<exists>k < length frags. \<exists>c. s = of_nat k \<and> (s, i, c) \<in> set (produced os) \<and> i = segment_id_of L c
    \<and> opened L key c = Some (sg_bytes (seg_of L (frags ! k)))"
proof -
  obtain c where "(s, i, c) \<in> set (produced os)" using assms(2,4) by (auto simp: told_def)
  then obtain k where k: "k < length (produced os)" "produced os ! k = (s, i, c)" by (meson in_set_conv_nth)
  have l: "list_all2 (mesh_form L key) (map (seg_of L) frags) (produced os)" using assms(2) by (simp add: told_def)
  then have k': "k < length frags" and m: "mesh_form L key (seg_of L (frags ! k)) (s, i, c)"
    using list_all2_lengthD [OF l] list_all2_nthD2 [OF l k(1)] k by simp_all
  have "s = of_nat k" using mesh_form_opens(1) [OF assms(1) m] contiguous_seq [OF assms(3) k'] by simp
  then show ?thesis using k' mesh_form_opens(2,3) [OF assms(1) m] \<open>(s, i, c) \<in> _\<close> by blast
qed

lemma told_opens:
  assumes "aead_ok L" "told L key (map (seg_of L) frags) os"
  shows "list_all2 (\<lambda>(s, i, c) (s', b). s = s' \<and> i = segment_id_of L c \<and> opened L key c = Some b) (produced os) (previews os)"
proof -
  have "list_all2 (\<lambda>m f. mesh_form L key (seg_of L f) m) (produced os) frags"
    using assms(2) unfolding told_def list_all2_map1 list_all2_conv_all_nth by auto
  then have "list_all2 (\<lambda>(s, i, c) f. s = fr_seq f \<and> i = segment_id_of L c \<and> opened L key c = Some (sg_bytes (seg_of L f))) (produced os) frags"
    by (rule list_all2_mono) (use mesh_form_opens [OF assms(1)] in auto)
  moreover have "previews os = map (\<lambda>f. (fr_seq f, sg_bytes (seg_of L f))) frags" using assms(2) by (simp add: told_def seg_of_def Let_def)
  ultimately show ?thesis unfolding list_all2_map2 by (auto simp: list_all2_map2 elim: list_all2_mono)
qed

lemma pushed_authentic: "node_reach L sid A K n \<Longrightarrow> PushSegment s b \<in> set (n_out n) \<Longrightarrow> auth L sid A K s (segment_id_of L b)"
  using node_reach_inv by (fastforce simp: node_inv_def trust_inv_def view_def)

text \<open>
  The window of a viewer holds only published fragments, each under its own number, whatever the
  mesh delivered and in whatever order.
\<close>

lemma window_published:
  assumes L: "aead_ok L" and t: "told L key (map (seg_of L) frags) (fd_out f)" "contiguous 0 0 frags"
    and n: "node_reach L sid A K n" "\<forall>s i. auth L sid A K s i \<longrightarrow> (s, i) \<in> set (edges_told (fd_out f))"
    and c: "\<forall>s b i c. PushSegment s b \<in> set (n_out n) \<longrightarrow> (s, i, c) \<in> set (produced (fd_out f))
       \<longrightarrow> segment_id_of L b = segment_id_of L c \<longrightarrow> b = c"
    and es: "snd ` set es \<subseteq> set (n_out n)"
    and p: "(s, p) \<in> set (sh_parts (sink_run L key es (started target ll part)))"
  shows "\<exists>k < length frags. s = of_nat k \<and> pt_bytes p = sg_bytes (seg_of L (frags ! k))"
proof -
  have "sh_parts (started target ll part) = []" by (simp add: started_def hls_new_def)
  then obtain b where b: "PushSegment s b \<in> set (n_out n)" "opened L key b = Some (pt_bytes p)"
    using sink_run_parts [OF p] es by auto
  have "(s, segment_id_of L b) \<in> set (edges_told (fd_out f))" using n(2) pushed_authentic [OF n(1) b(1)] by blast
  from told_edge [OF L t this] obtain k d where k: "k < length frags" "s = of_nat k" "(s, segment_id_of L b, d) \<in> set (produced (fd_out f))"
    "segment_id_of L b = segment_id_of L d" "opened L key d = Some (sg_bytes (seg_of L (frags ! k)))"
    by blast
  then have "b = d" using c b(1) by blast
  then show ?thesis using k b(2) by auto
qed

lemma bt_ok_sink: "bt_ok (sh_parts g) \<Longrightarrow> bt_ok (sh_parts (sink_run L key es g))"
proof (induction L key es g rule: sink_run.induct)
  case (2 L key wall e es g)
  have "bt_ok (sh_parts (push_segment w s b g))" for w s b
    using "2.prems" by (simp add: push_segment_def Let_def split_beta bt_ok_evict bt_ok_put)
  then show ?case using 2
    by (auto simp: sink_init_def sink_segment_def push_init_def split: effect.splits option.splits)
qed simp

text \<open>
  An answer made of published fragments only: one by its own number, or several in ascending
  order, glued together.
\<close>

definition ascending :: "nat list \<Rightarrow> bool" where
  "ascending ks \<longleftrightarrow> sorted_wrt (<) (map of_nat ks :: u64 list)"

lemma window_answers:
  assumes w: "\<And>s p. (s, p) \<in> set (sh_parts g) \<Longrightarrow> \<exists>k < n. s = of_nat k \<and> pt_bytes p = B k" and ok: "bt_ok (sh_parts g)"
  shows "media_part s g h = (Missing, h) \<or> (\<exists>k < n. s = of_nat k \<and> media_part s g h = (Media (B k), s))"
    and "fst (media_seg m g h) = Missing
      \<or> (\<exists>ks. ks \<noteq> [] \<and> set ks \<subseteq> {..<n} \<and> ascending ks \<and> fst (media_seg m g h) = Media (concat (map B ks)))"
proof -
  show part: "media_part s g h = (Missing, h) \<or> (\<exists>k < n. s = of_nat k \<and> media_part s g h = (Media (B k), s))" for s
  proof (cases "map_of (sh_parts g) s")
    case (Some p)
    then show ?thesis using w [OF map_of_SomeD [OF Some]] by (auto simp: media_part_def)
  qed (simp add: media_part_def)
  have pick: "\<exists>ks. map fst xs = map of_nat ks \<and> map (\<lambda>(_, p). pt_bytes p) xs = map B ks \<and> set ks \<subseteq> {..<n}"
    if "set xs \<subseteq> set (sh_parts g)" for xs
    using that
  proof (induction xs)
    case (Cons x xs)
    obtain ks where "map fst xs = map of_nat ks" "map (\<lambda>(_, p). pt_bytes p) xs = map B ks" "set ks \<subseteq> {..<n}" using Cons by auto
    moreover obtain k where "k < n" "fst x = of_nat k" "pt_bytes (snd x) = B k" using w [of "fst x" "snd x"] Cons.prems by auto
    ultimately show ?case by (intro exI [of _ "k # ks"]) (simp, cases x, simp)
  qed simp
  have sub: "set (members m g) \<subseteq> set (sh_parts g)" and mok: "bt_ok (members m g)" using bt_ok_filter [OF ok] by (auto simp: members_def)
  obtain ks where ks: "map fst (members m g) = map of_nat ks" "map (\<lambda>(_, p). pt_bytes p) (members m g) = map B ks" "set ks \<subseteq> {..<n}"
    using pick [OF sub] by blast
  have asc: "ascending ks" using mok unfolding ascending_def bt_ok_def ks(1) .
  have len: "ks = [] \<longleftrightarrow> members m g = []" using ks(1) by (metis map_is_Nil_conv)
  show "fst (media_seg m g h) = Missing
      \<or> (\<exists>ks. ks \<noteq> [] \<and> set ks \<subseteq> {..<n} \<and> ascending ks \<and> fst (media_seg m g h) = Media (concat (map B ks)))"
  proof (cases "sh_ll g")
    case True
    then show ?thesis using ks asc len by (auto simp: media_seg_def)
  next
    case False
    then have "media_seg m g h = media_part m g h" by (simp add: media_seg_def)
    moreover have "\<exists>ks. ks \<noteq> [] \<and> set ks \<subseteq> {..<n} \<and> ascending ks \<and> Media (B k) = Media (concat (map B ks))" if "k < n" for k
      using that by (intro exI [of _ "[k]"]) (simp add: ascending_def)
    ultimately show ?thesis using part [of m] by fastforce
  qed
qed

end
