(* ===== verification/Ingest.thy ===== *)
theory Ingest
  imports Broadcast
begin

section \<open>From packets to the muxer\<close>

text \<open>
  The track handler of the WHIP session between the depacketizer and the feeder: it delivers
  exactly the access units of the depacketizer, and the first one carries the codec
  configuration when the first keyframe does.
\<close>

subsection \<open>The handler delivers what the depacketizer does\<close>

text \<open>Taking the configuration changes one flag, which nothing else reads.\<close>

definition up :: "depacketizer \<Rightarrow> depacketizer" where
  "up d = d\<lparr>dp_sps_pps_updated := True\<rparr>"

lemma up_fields [simp]:
  "dp_au (up d) = dp_au d" "dp_au_has_idr (up d) = dp_au_has_idr d" "dp_fu (up d) = dp_fu d" "dp_last_seq (up d) = dp_last_seq d"
  "dp_last_ts (up d) = dp_last_ts d" "dp_ts_unwrapped (up d) = dp_ts_unwrapped d" "dp_base_ts (up d) = dp_base_ts d"
  "dp_wait_keyframe (up d) = dp_wait_keyframe d" "dp_sps (up d) = dp_sps d" "dp_pps (up d) = dp_pps d"
  by (simp_all add: up_def)

lemma up_poison: "poison (up d) = up (poison d)"
  by (simp add: poison_def up_def)

lemma up_set: "(up d)\<lparr>dp_fu := f\<rparr> = up (d\<lparr>dp_fu := f\<rparr>)" "(up d)\<lparr>dp_au := a\<rparr> = up (d\<lparr>dp_au := a\<rparr>)"
  by (simp_all add: up_def)

lemma up_note_nal: "note_nal nal (up d) = up (note_nal nal d)"
  unfolding note_nal_def Let_def up_fields if_distrib [of up] by (simp only: up_def) simp

lemma up_take_nal: "take_nal nal (up d) = up (take_nal nal d)"
  unfolding take_nal_def Let_def up_note_nal up_poison up_fields up_set if_distrib [of up] ..

lemma up_stap: "stap_a p (up d) = up (stap_a p d)"
proof (induction p d rule: stap_a.induct)
  case (1 p d)
  show ?case using 1 by (subst (1 2) stap_a.simps) (simp add: up_poison up_take_nal Let_def)
qed

lemma up_fu: "fu_a p (up d) = up (fu_a p d)"
  unfolding fu_a_def Let_def by (simp add: up_poison up_set up_take_nal)

lemma up_note_seq: "note_seq s (up d) = up (note_seq s d)"
  by (simp add: note_seq_def up_poison Let_def split: option.splits) (simp add: up_def)

lemma up_note_ts: "note_ts t (up d) = up (note_ts t d)"
  by (simp add: note_ts_def Let_def split: option.splits) (simp add: up_def)

lemma up_close: "close_au (up d) = apsnd up (close_au d)"
  by (simp add: close_au_def Let_def) (simp add: up_def)

lemma up_push: "push_rtp p (up d) = apsnd up (push_rtp p d)"
  by (simp add: push_rtp_def take_payload_def up_note_seq up_note_ts up_take_nal up_stap up_fu up_poison up_close Let_def split: option.splits)

lemma up_take_config: "up (snd (take_config d)) = up d"
  by (simp add: take_config_def up_def split: option.splits)

definition event_unit :: "ingest_event \<Rightarrow> access_unit list" where
  "event_unit e = (case e of Video au _ \<Rightarrow> [au] | _ \<Rightarrow> [])"

lemma track_units: "up d = up d' \<Longrightarrow> concat (map event_unit (track_run ps d)) = fst (depacketize ps d')"
proof (induction ps arbitrary: d d')
  case (Cons p ps)
  have eq: "apsnd up (push_rtp p d) = apsnd up (push_rtp p d')" using Cons.prems up_push by metis
  obtain a d1 where 1: "push_rtp p d = (a, d1)" by fastforce
  obtain d2 where 2: "push_rtp p d' = (a, d2)" "up d1 = up d2" using eq 1 by (cases "push_rtp p d'") auto
  show ?case
  proof (cases a)
    case None
    then show ?thesis using Cons.IH [OF 2(2)] 1 2 by (simp add: track_message_def split: prod.splits)
  next
    case (Some au)
    have "up (snd (take_config d1)) = up d2" using up_take_config 2(2) by simp
    from Cons.IH [OF this] show ?thesis using Some 1 2
      by (simp add: track_message_def event_unit_def Let_def split_beta)
  qed
qed simp

subsection \<open>The first unit carries the configuration\<close>

definition untaken :: "depacketizer \<Rightarrow> bool" where
  "untaken d \<longleftrightarrow> (dp_sps d \<noteq> None \<or> dp_pps d \<noteq> None \<longrightarrow> dp_sps_pps_updated d)"

lemma untaken_poison: "untaken (poison d) = untaken d"
  by (simp add: untaken_def poison_def)

lemma untaken_take_nal: "untaken d \<Longrightarrow> untaken (take_nal nal d)"
  by (auto simp: take_nal_def note_nal_def untaken_def poison_def Let_def)

lemma untaken_stap: "untaken d \<Longrightarrow> untaken (stap_a p d)"
proof (induction p d rule: stap_a.induct)
  case (1 p d)
  show ?case using 1 by (subst stap_a.simps) (simp add: untaken_poison untaken_take_nal Let_def)
qed

lemma untaken_fu: "untaken d \<Longrightarrow> untaken (fu_a p d)"
proof -
  assume d: "untaken d"
  have f: "untaken (d\<lparr>dp_fu := f\<rparr>) = untaken d" for f d by (simp add: untaken_def)
  show ?thesis unfolding fu_a_def Let_def using d by (simp add: f untaken_poison untaken_take_nal)
qed

lemma untaken_push: "untaken d \<Longrightarrow> untaken (snd (push_rtp p d))"
proof -
  assume d: "untaken d"
  have "untaken (note_seq s d)" for s using d by (auto simp: note_seq_def untaken_def poison_def Let_def split: option.splits)
  moreover have "untaken d \<Longrightarrow> untaken (note_ts t d)" for t d by (auto simp: note_ts_def untaken_def Let_def split: option.splits)
  moreover have "untaken d \<Longrightarrow> untaken (take_payload q d)" for q d
    by (simp add: take_payload_def untaken_poison untaken_take_nal untaken_stap untaken_fu Let_def)
  moreover have "untaken d \<Longrightarrow> untaken (snd (close_au d))" for d by (simp add: close_au_def untaken_def Let_def)
  ultimately show ?thesis using d by (simp add: push_rtp_def Let_def split: option.splits)
qed

lemma track_silent:
  "fst (depacketize ps d) = [] \<Longrightarrow> untaken d \<Longrightarrow>
   track_run (ps @ qs) d = track_run qs (snd (depacketize ps d)) \<and> untaken (snd (depacketize ps d))"
proof (induction ps arbitrary: d)
  case (Cons p ps)
  obtain a d1 where p: "push_rtp p d = (a, d1)" by fastforce
  have "a = None" "fst (depacketize ps d1) = []" using Cons.prems(1) p by (auto split: option.splits prod.splits)
  moreover have "untaken d1" using untaken_push [OF Cons.prems(2), of p] p by simp
  ultimately show ?case using Cons.IH [of d1] p by (simp add: track_message_def split: prod.splits)
qed simp

lemma butlast_silent:
  assumes "pt_ok (pk_payload_type k)" "\<forall>p \<in> set ps. p \<noteq> [] \<and> length p \<le> MAX_RTP_LEN - 12"
  shows "fst (depacketize (butlast (packets k ts seq ps)) d) = []"
  using assms(2)
proof (induction ps arbitrary: seq d)
  case (Cons p ps)
  note push = push_packet [OF assms(1), of p]
  show ?case
  proof (cases ps)
    case (Cons q qs)
    then show ?thesis using Cons.IH [of "seq + 1" "feed ts seq p d"] Cons.prems push by (simp split: prod.splits)
  qed simp
qed simp

text \<open>A unit that brings both parameter sets.\<close>

definition configures :: "bytes list \<Rightarrow> bool" where
  "configures ns \<longleftrightarrow> list_ex (\<lambda>n. hd n AND 0x1F = 7) ns \<and> list_ex (\<lambda>n. hd n AND 0x1F = 8) ns"

lemma unit_configured:
  assumes k: "pt_ok (pk_payload_type k)" and u: "unit_ok ns" and mtu: "mtu \<le> MAX_RTP_LEN"
    and d: "mid ts c True [] (pk_seq k) [] d" "untaken d" and pk: "packetize (annexb ns) ts mtu k = (ps, k')"
    and ns: "list_ex idr ns" "configures ns"
  shows "\<exists>au cfg rest. track_run (ps @ qs) d = Video au (Some cfg) # rest"
proof -
  note unit = packetize_unit [OF k u mtu d(1) pk]
  note pls = packetize_payloads [OF u mtu]
  obtain ps' q where ps: "ps = ps' @ [q]" "fst (depacketize ps' d) = []"
    using pls(4) [of ts k] pk butlast_silent [OF k pls(3)] by auto
  let ?d = "snd (depacketize ps' d)"
  note quiet = track_silent [OF ps(2) d(2), of "[q] @ qs"]
  obtain a d1 where q: "push_rtp q ?d = (a, d1)" by fastforce
  have run: "depacketize ps d = (case a of Some x \<Rightarrow> [x] | None \<Rightarrow> [], d1)"
    using ps q unfolding ps(1) depacketize_append by (simp add: split_beta)
  then obtain au where a: "a = Some au" using unit(1) ns(1) by (cases a) simp_all
  have "dp_sps d1 \<noteq> None" "dp_pps d1 \<noteq> None" using unit(4) ns(2) run by (simp_all add: seen_def configures_def)
  moreover have "untaken d1" using untaken_push [of ?d q] quiet q by simp
  ultimately obtain cfg where "fst (take_config d1) = Some cfg" by (auto simp: take_config_def untaken_def)
  then show ?thesis using quiet ps(1) q a by (simp add: track_message_def split_beta)
qed

lemma stream_configured:
  assumes "\<And>ts. mid ts (clk ts c) True [] (pk_seq k) [] d" "pt_ok (pk_payload_type k)" "mtu \<le> MAX_RTP_LEN"
    and "\<forall>u \<in> set us. unit_ok (fst u)" "untaken d"
    and "dropWhile no_idr us \<noteq> [] \<Longrightarrow> configures (fst (hd (dropWhile no_idr us)))"
  shows "track_run (send mtu (wire us) k) d = [] \<or> (\<exists>au cfg rest. track_run (send mtu (wire us) k) d = Video au (Some cfg) # rest)"
  using assms
proof (induction us arbitrary: c k d)
  case (Cons u us)
  obtain ns t where u: "u = (ns, t)" by fastforce
  obtain ps k' where pk: "packetize (annexb ns) (word_of_int t) mtu k = (ps, k')" by fastforce
  have ok: "unit_ok ns" using Cons.prems(4) u by simp
  have m: "mid (word_of_int t) (clk (word_of_int t) c) True [] (pk_seq k) [] d" by (rule Cons.prems(1))
  have s: "send mtu (wire (u # us)) k = ps @ send mtu (wire us) k'" by (simp add: u pk)
  show ?case
  proof (cases "list_ex idr ns")
    case True
    then have "configures ns" using Cons.prems(6) u by simp
    from unit_configured [OF Cons.prems(2) ok Cons.prems(3) m Cons.prems(5) pk True this] show ?thesis unfolding s by blast
  next
    case False
    note unit = packetize_unit [OF Cons.prems(2) ok Cons.prems(3) m pk]
    have e: "fst (depacketize ps d) = []" using unit(1) False by simp
    note quiet = track_silent [OF e Cons.prems(5), of "send mtu (wire us) k'"]
    have m': "mid ts' (clk ts' (clk (word_of_int t) c)) True [] (pk_seq k') [] (snd (depacketize ps d))" for ts'
      using unit(2) [of ts'] False by simp
    show ?thesis unfolding s conjunct1 [OF quiet]
      by (rule Cons.IH [OF m' _ Cons.prems(3)]) (use Cons.prems(2,4,6) unit(3) quiet False u in auto)
  qed
qed simp

subsection \<open>Turns and units\<close>

definition videos :: "turn list \<Rightarrow> ingest_event list" where
  "videos ts = concat (map (\<lambda>t. case tn_event t of Some (Video au config) \<Rightarrow> [Video au config] | _ \<Rightarrow> []) ts)"

lemma configured_video: "videos ts = Video au (Some cfg) # vs \<Longrightarrow> list_ex configured ts"
proof (induction ts)
  case (Cons t ts)
  have "videos (t # ts) = videos ts \<or> (\<exists>a c. tn_event t = Some (Video a c) \<and> videos (t # ts) = Video a c # videos ts)"
    by (auto simp: videos_def split: option.splits ingest_event.splits)
  moreover have "configured t" if "tn_event t = Some (Video au (Some cfg))" using that by (simp add: configured_def)
  ultimately show ?case using Cons by auto
qed (simp add: videos_def)

definition au_units :: "access_unit \<Rightarrow> unit' list" where
  "au_units au = units_in (PushAuPts (ac_data au) (ac_pts_us au) (ac_keyframe au))"

lemma turn_units_videos: "concat (map turn_units ts) = concat (map au_units (concat (map event_unit (videos ts))))"
  by (induction ts) (auto simp: videos_def turn_units_def au_units_def event_unit_def split: option.splits ingest_event.splits)

lemma ingested_all:
  "videos ts = [] \<or> (\<exists>au cfg rest. videos ts = Video au (Some cfg) # rest) \<Longrightarrow>
   ingested ts = concat (map au_units (concat (map event_unit (videos ts))))"
proof (induction ts)
  case (Cons t ts)
  show ?case
  proof (cases "configured t")
    case True
    then have "ingested (t # ts) = concat (map turn_units (t # ts))" by (simp add: ingested_def)
    then show ?thesis unfolding turn_units_videos .
  next
    case False
    then have "videos (t # ts) = videos ts" using Cons.prems
      by (auto simp: videos_def configured_def split: option.splits ingest_event.splits)
    then show ?thesis using Cons False by (simp add: ingested_def)
  qed
qed (simp add: ingested_def videos_def)

text \<open>The sample of a unit: its NAL units length-prefixed, less parameter sets and delimiters.\<close>

definition sample_of :: "bytes list \<Rightarrow> bytes" where
  "sample_of ns = concat (map (\<lambda>n. be_of_nat 4 (length n) @ n) (filter (\<lambda>n. nal_type n \<notin> {7, 8, 9}) ns))"

definition media_units :: "(bytes list \<times> int) list \<Rightarrow> unit' list" where
  "media_units us = filter (\<lambda>u. fst u \<noteq> []) (map (\<lambda>(ns, _). (sample_of ns, list_ex idr ns)) us)"

lemma shown_units: "unit_ok ns \<Longrightarrow> au_units (shown t0 (ns, t)) = media_units [(ns, t)]"
proof -
  assume "unit_ok ns"
  then have "list_all (\<lambda>u. nal_ok (snd u)) (map (Pair True) ns)" by (simp add: unit_ok_def list_all_iff)
  moreover have "annexb ns = framed (map (Pair True) ns)" by (induction ns) (simp_all add: framed_def ANNEX_B_def)
  ultimately have "annexb_to_avcc (annexb ns) = sample_of ns" using annexb_roundtrip [of "map (Pair True) ns"]
    by (simp add: sample_of_def comp_def)
  then show ?thesis by (simp add: au_units_def shown_def media_units_def Let_def)
qed

lemma shown_stream: "\<forall>u \<in> set us. unit_ok (fst u) \<Longrightarrow> concat (map au_units (map (shown t0) us)) = media_units us"
proof (induction us)
  case (Cons u us)
  have "media_units (u # us) = media_units [u] @ media_units us" by (simp add: media_units_def)
  then show ?case using Cons shown_units [of "fst u" t0 "snd u"] by simp
qed (simp add: media_units_def)

subsection \<open>Concrete runs\<close>

definition turn_of :: "ingest_event \<Rightarrow> turn" where
  "turn_of e = \<lparr>tn_now = 0, tn_nonces = (replicate 24 1, replicate 24 2), tn_event = Some e\<rparr>"

lemma turn_of_nonces: "nonces_ok (turn_of e)"
  by (simp add: nonces_ok_def turn_of_def)

lemma track_turns: "videos (map turn_of (track_run ps d)) = track_run ps d"
proof (induction ps arbitrary: d)
  case (Cons p ps)
  then show ?case by (simp add: videos_def track_message_def turn_of_def Let_def split: option.splits prod.splits)
qed (simp add: videos_def)

text \<open>Two keyframes: the second closes the fragment of the first.\<close>

definition demo_keyframe :: access_unit where
  "demo_keyframe = shown 0 ([[0x65, 1]], 0)"

definition demo_turns :: "turn list" where
  "demo_turns = map turn_of [Video demo_keyframe (Some ([0x67, 1], [0x68, 1])), Video demo_keyframe None]"

lemma demo_ingested: "ingested demo_turns = [(be_of_nat 4 (Suc (Suc 0)) @ [0x65, 1], True), (be_of_nat 4 (Suc (Suc 0)) @ [0x65, 1], True)]"
proof -
  have "unit_ok [[0x65, 1]]" by (simp add: unit_ok_def nal_ok_def plain_nal_def MAX_AU_BYTES_def)
  from shown_units [OF this, of 0 0] have "au_units demo_keyframe = [(be_of_nat 4 (Suc (Suc 0)) @ [0x65, 1], True)]"
    by (simp add: demo_keyframe_def media_units_def sample_of_def idr_def nal_type_def)
  then show ?thesis by (simp add: ingested_def demo_turns_def turn_of_def configured_def turn_units_def au_units_def)
qed

lemma demo_published: "\<exists>i. (0, i) \<in> set (edges_told (fd_out (feed_run L key demo_turns (feeder_new 0))))"
proof -
  have "\<forall>t \<in> set demo_turns. nonces_ok t" by (auto simp: demo_turns_def turn_of_nonces)
  then obtain frags b audio where f: "trace_ok (ingested demo_turns) audio frags b"
    "told L key (map (seg_of L) frags) (fd_out (feed_run L key demo_turns (feeder_new 0)))"
    using feed_trace [of "feeder_new 0" demo_turns L key] by (auto simp: feeder_new_def)
  have "frags \<noteq> []"
  proof
    assume "frags = []"
    then have "key_first (ingested demo_turns)" using f(1) by (auto simp: trace_ok_def)
    then show False by (simp add: demo_ingested key_first_def)
  qed
  then obtain g gs where g: "frags = g # gs" by (cases frags) auto
  then have "fr_seq g = 0" using f(1) by (simp add: trace_ok_def)
  moreover obtain m ms where "produced (fd_out (feed_run L key demo_turns (feeder_new 0))) = m # ms" "mesh_form L key (seg_of L g) m"
    using f(2) g by (auto simp: told_def list_all2_Cons1)
  ultimately show ?thesis using f(2) by (cases m) (auto simp: told_def mesh_form_def seg_of_def Let_def)
qed

end
