(* ===== verification/Fast_Tier.thy ===== *)
theory Fast_Tier
  imports Broadcast Chain
begin

section \<open>The media fast tier\<close>

text \<open>
  The publisher-direct WebRTC tier (\<open>unstation-app/src/fasttier.rs\<close>, \<open>whip-ingest/src/egress.rs\<close>): the
  table of viewers and the fan-out of access units to them, the negotiation by offers and tagged
  replies over the signaling topic, and the thread that serves one viewer. The WebRTC library
  answers an offer or fails, a channel is a number that is alive or not, and the messages read
  are inputs.
\<close>

subsection \<open>Viewers and frames\<close>

definition FAST_OFFER_ID :: bytes where "FAST_OFFER_ID = ascii ''fast''"

definition offer_tag :: "libs \<Rightarrow> bytes \<Rightarrow> bytes" where
  "offer_tag L sdp = ascii (concat (map hex_byte (take 8 (blake2b256 L sdp))))"

record fast_tier =
  ft_viewers :: "(peer_id, nat) hash_map"
  ft_cap :: nat
  ft_config :: "(bytes \<times> bytes) option"

definition fast_new :: "nat \<Rightarrow> fast_tier" where
  "fast_new cap = \<lparr>ft_viewers = [], ft_cap = cap, ft_config = None\<rparr>"

function has_sps_from :: "bytes \<Rightarrow> nat \<Rightarrow> bool" where
  "has_sps_from data i =
     (if i + 3 < length data then
        if data ! i = 0 \<and> data ! (i + 1) = 0 \<and> data ! (i + 2) = 1
        then data ! (i + 3) AND 0x1F = 7 \<or> has_sps_from data (i + 3)
        else has_sps_from data (i + 1)
      else False)"
  by auto
termination
  by (relation "measure (\<lambda>(data, i). length data - i)") auto

declare has_sps_from.simps [simp del]

definition annexb_has_sps :: "bytes \<Rightarrow> bool" where
  "annexb_has_sps data = has_sps_from data 0"

definition fast_set_config :: "bytes \<Rightarrow> bytes \<Rightarrow> fast_tier \<Rightarrow> fast_tier" where
  "fast_set_config sps pps ft = ft\<lparr>ft_config := Some (sps, pps)\<rparr>"

definition fast_frame :: "bytes \<Rightarrow> bool \<Rightarrow> fast_tier \<Rightarrow> bytes" where
  "fast_frame au keyframe ft =
     (if keyframe \<and> \<not> annexb_has_sps au then
        (case ft_config ft of
           Some (sps, pps) \<Rightarrow> [0, 0, 0, 1] @ sps @ [0, 0, 0, 1] @ pps @ au
         | None \<Rightarrow> au)
      else au)"

definition fast_broadcast :: "(nat \<Rightarrow> bool) \<Rightarrow> bytes \<Rightarrow> u32 \<Rightarrow> bool \<Rightarrow> fast_tier \<Rightarrow> (nat \<times> bytes \<times> u32) list \<times> fast_tier" where
  "fast_broadcast alive au ts keyframe ft =
     (if ft_viewers ft = [] then ([], ft)
      else
        (let frame = fast_frame au keyframe ft; kept = hm_retain (\<lambda>_ tx. alive tx) (ft_viewers ft)
         in (map (\<lambda>(_, tx). (tx, frame, ts)) kept, ft\<lparr>ft_viewers := kept\<rparr>)))"

definition drop_viewer :: "peer_id \<Rightarrow> fast_tier \<Rightarrow> fast_tier" where
  "drop_viewer viewer ft = ft\<lparr>ft_viewers := hm_remove viewer (ft_viewers ft)\<rparr>"

text \<open>
  The thread may fail to start, and the library may fail to answer in time; \<open>tx\<close> is the new
  channel.
\<close>

definition accept_offer :: "bool \<Rightarrow> nat \<Rightarrow> bytes option \<Rightarrow> peer_id \<Rightarrow> fast_tier \<Rightarrow> bytes option \<times> fast_tier" where
  "accept_offer spawned tx answer viewer ft =
     (if \<not> hm_has (ft_viewers ft) viewer \<and> ft_cap ft \<le> length (ft_viewers ft) then (None, ft)
      else if \<not> spawned then (None, ft)
      else
        (let ft1 = ft\<lparr>ft_viewers := hm_put viewer tx (ft_viewers ft)\<rparr>
         in case answer of Some sdp \<Rightarrow> (Some sdp, ft1) | None \<Rightarrow> (None, drop_viewer viewer ft1)))"

subsection \<open>The accept loop\<close>

record accept_loop =
  al_answered :: "(peer_id \<times> bytes) list"
  al_tier :: fast_tier
  al_sent :: "(peer_id \<times> signal_msg) list"

record outcome =
  oc_off :: bool
  oc_spawned :: bool
  oc_channel :: nat
  oc_answer :: "bytes option"

definition note_answered :: "peer_id \<times> bytes \<Rightarrow> (peer_id \<times> bytes) list \<Rightarrow> (peer_id \<times> bytes) list" where
  "note_answered key answered = (let answered' = key # answered in if 512 < length answered' then [] else answered')"

definition on_offer :: "libs \<Rightarrow> outcome \<Rightarrow> peer_id \<Rightarrow> bytes \<Rightarrow> accept_loop \<Rightarrow> accept_loop" where
  "on_offer L oc viewer sdp al =
     (if (viewer, sdp) \<in> set (al_answered al) then al
      else
        (let tag = offer_tag L sdp;
             (decision, tier) = (if oc_off oc then (None, al_tier al)
                                 else accept_offer (oc_spawned oc) (oc_channel oc) (oc_answer oc) viewer (al_tier al))
         in al\<lparr>al_answered := note_answered (viewer, sdp) (al_answered al), al_tier := tier,
               al_sent := al_sent al @ [(viewer, case decision of Some answer \<Rightarrow> Answer tag answer | None \<Rightarrow> Closed tag)]\<rparr>))"

definition on_fast_signal :: "libs \<Rightarrow> outcome \<Rightarrow> peer_id \<times> signal_msg \<Rightarrow> accept_loop \<Rightarrow> accept_loop" where
  "on_fast_signal L oc = (\<lambda>(viewer, msg) al.
     (case msg of
        Offer sdp \<Rightarrow> on_offer L oc viewer sdp al
      | Closed _ \<Rightarrow> al\<lparr>al_tier := drop_viewer viewer (al_tier al)\<rparr>
      | _ \<Rightarrow> al))"

subsection \<open>The viewer's side\<close>

datatype reply = Answered bytes | Declined

fun reader_scan :: "peer_id \<Rightarrow> bytes \<Rightarrow> (peer_id \<times> signal_msg) list \<Rightarrow> reply option" where
  "reader_scan publisher want_id [] = None"
| "reader_scan publisher want_id ((from', msg) # sigs) =
     (if from' \<noteq> publisher then reader_scan publisher want_id sigs
      else
        (case msg of
           Answer offer_id sdp \<Rightarrow> if offer_id = want_id then Some (Answered sdp) else reader_scan publisher want_id sigs
         | Closed offer_id \<Rightarrow> if offer_id = want_id then Some Declined else reader_scan publisher want_id sigs
         | _ \<Rightarrow> reader_scan publisher want_id sigs))"

subsection \<open>The thread of one viewer\<close>

definition EGRESS_SSRC :: u32 where "EGRESS_SSRC = 0xF00DCAFE"

definition write_au :: "bytes \<Rightarrow> u32 \<Rightarrow> packetizer \<Rightarrow> bytes list \<times> packetizer" where
  "write_au au ts k = packetize au ts DEFAULT_MTU k"

text \<open>What the receive returns, with the state of the connection at that moment.\<close>

datatype received = Frame bytes u32 bool | Timeout bool | Disconnected

record egress =
  eg_packetizer :: packetizer
  eg_connected_once :: bool
  eg_idle_ticks :: u32
  eg_sent :: "bytes list"

definition egress_new :: "u8 \<Rightarrow> egress" where
  "egress_new pt = \<lparr>eg_packetizer = packetizer_new EGRESS_SSRC pt, eg_connected_once = False, eg_idle_ticks = 0, eg_sent = []\<rparr>"

text \<open>\<open>None\<close> is the end of the thread.\<close>

definition egress_step :: "received \<Rightarrow> egress \<Rightarrow> egress option" where
  "egress_step r e =
     (case r of
        Frame au ts up \<Rightarrow>
          (let (pkts, k) = write_au au ts (eg_packetizer e)
           in Some (e\<lparr>eg_packetizer := k, eg_sent := eg_sent e @ pkts, eg_connected_once := (eg_connected_once e \<or> up)\<rparr>))
      | Timeout up \<Rightarrow>
          if up then Some (e\<lparr>eg_connected_once := True, eg_idle_ticks := 0\<rparr>)
          else if eg_connected_once e then None
          else (let ticks = eg_idle_ticks e + 1 in if 20 < ticks then None else Some (e\<lparr>eg_idle_ticks := ticks\<rparr>))
      | Disconnected \<Rightarrow> None)"

fun egress_run :: "received list \<Rightarrow> egress \<Rightarrow> egress option" where
  "egress_run [] e = Some e"
| "egress_run (r # rs) e = (case egress_step r e of Some e1 \<Rightarrow> egress_run rs e1 | None \<Rightarrow> None)"

subsection \<open>Runs\<close>

datatype fast_op = SetCfg bytes bytes | Bcast "nat \<Rightarrow> bool" bytes u32 bool | Sig outcome "peer_id \<times> signal_msg"

fun fast_step :: "libs \<Rightarrow> fast_op \<Rightarrow> accept_loop \<Rightarrow> accept_loop" where
  "fast_step L (SetCfg sps pps) al = al\<lparr>al_tier := fast_set_config sps pps (al_tier al)\<rparr>"
| "fast_step L (Bcast alive au ts keyframe) al = al\<lparr>al_tier := snd (fast_broadcast alive au ts keyframe (al_tier al))\<rparr>"
| "fast_step L (Sig oc sig) al = on_fast_signal L oc sig al"

definition fast_run :: "libs \<Rightarrow> fast_op list \<Rightarrow> nat \<Rightarrow> accept_loop" where
  "fast_run L ops cap = fold (fast_step L) ops \<lparr>al_answered = [], al_tier = fast_new cap, al_sent = []\<rparr>"

lemma fast_run_snoc: "fast_run L (ops @ [op]) cap = fast_step L op (fast_run L ops cap)"
  by (simp add: fast_run_def)

lemma on_fast_signal_frame:
  "al_tier (on_fast_signal L oc (v, m) al) \<in> {al_tier al, drop_viewer v (al_tier al)} \<union> {snd (accept_offer sp tx a v (al_tier al)) | sp tx a. True}"
  by (auto simp: on_fast_signal_def on_offer_def Let_def split_beta split: signal_msg.splits)

subsection \<open>Capacity and decodable frames\<close>

definition tier_ok :: "nat \<Rightarrow> fast_tier \<Rightarrow> bool" where
  "tier_ok cap ft \<longleftrightarrow> hm_ok (ft_viewers ft) \<and> length (ft_viewers ft) \<le> cap \<and> ft_cap ft = cap
     \<and> (case ft_config ft of Some (sps, _) \<Rightarrow> sps \<noteq> [] \<and> hd sps AND 0x1F = 7 | None \<Rightarrow> True)"

lemma tier_ok_drop: "tier_ok cap ft \<Longrightarrow> tier_ok cap (drop_viewer v ft)"
proof -
  assume t: "tier_ok cap ft"
  have "length (hm_remove v (ft_viewers ft)) \<le> length (ft_viewers ft)" by (simp add: AList.delete_eq)
  then show ?thesis using t by (simp add: tier_ok_def drop_viewer_def hm.ok_remove)
qed

lemma tier_ok_accept: "tier_ok cap ft \<Longrightarrow> tier_ok cap (snd (accept_offer sp tx a v ft))"
proof -
  assume t: "tier_ok cap ft"
  have "tier_ok cap (ft\<lparr>ft_viewers := hm_put v tx (ft_viewers ft)\<rparr>)"
    if "hm_has (ft_viewers ft) v \<or> length (ft_viewers ft) < ft_cap ft"
    using that t hm.len_put [of "ft_viewers ft" v tx] by (auto simp: tier_ok_def hm.ok_put hm_has_def)
  then show ?thesis using t by (auto simp: accept_offer_def Let_def tier_ok_drop split: option.splits)
qed

lemma tier_ok_broadcast: "tier_ok cap ft \<Longrightarrow> tier_ok cap (snd (fast_broadcast alive au ts k ft))"
proof -
  assume t: "tier_ok cap ft"
  have "length (hm_retain P (ft_viewers ft)) \<le> length (ft_viewers ft)" for P by (simp add: hm_retain_def)
  from le_trans [OF this] t show ?thesis by (simp add: tier_ok_def fast_broadcast_def Let_def)
qed

definition config_ok :: "fast_op \<Rightarrow> bool" where
  "config_ok op = (case op of SetCfg sps _ \<Rightarrow> sps \<noteq> [] \<and> hd sps AND 0x1F = 7 | _ \<Rightarrow> True)"

lemma tier_ok_run: "\<forall>op \<in> set ops. config_ok op \<Longrightarrow> tier_ok cap (al_tier (fast_run L ops cap))"
proof (induction ops rule: rev_induct)
  case Nil
  show ?case by (simp add: fast_run_def fast_new_def tier_ok_def)
next
  case (snoc op ops)
  then have t: "tier_ok cap (al_tier (fast_run L ops cap))" by simp
  show ?case
  proof (cases op)
    case (SetCfg sps pps)
    then show ?thesis using t snoc.prems by (simp add: fast_run_snoc tier_ok_def fast_set_config_def config_ok_def)
  next
    case (Bcast alive au ts k)
    then show ?thesis using t by (simp add: fast_run_snoc tier_ok_broadcast)
  next
    case (Sig oc sig)
    then show ?thesis using t on_fast_signal_frame [of L oc "fst sig" "snd sig" "fast_run L ops cap"]
      by (auto simp: fast_run_snoc tier_ok_drop tier_ok_accept)
  qed
qed

lemma prefixed_has_sps: "sps \<noteq> [] \<Longrightarrow> hd sps AND 0x1F = 7 \<Longrightarrow> annexb_has_sps ([0, 0, 0, 1] @ sps @ tail)"
  unfolding annexb_has_sps_def
  by (subst has_sps_from.simps, simp, subst has_sps_from.simps) (cases sps, simp_all)

text \<open>
  C30: The fast tier under any sequence of configurations, frames, offers, re-offers, closes and
  failed negotiations never serves more viewers than its cap, nor one viewer twice. A frame goes to
  the live channels of registered viewers only and ends in the access unit itself, and once
  a configuration is known (each brings a sequence parameter set, of NAL type 7) every keyframe
  carries a sequence parameter set; the picture parameter set beside it is not pinned.
\<close>

theorem fast_tier_fanout:
  assumes "\<forall>op \<in> set ops. config_ok op" "ft = al_tier (fast_run L ops cap)" "fast_broadcast alive au ts keyframe ft = (sent, ft')"
  shows "length (ft_viewers ft) \<le> cap \<and> distinct (map fst (ft_viewers ft))
    \<and> map fst sent = filter alive (map snd (ft_viewers ft))
    \<and> (\<forall>(tx, frame, t) \<in> set sent. t = ts \<and> suffix au frame \<and> (keyframe \<and> ft_config ft \<noteq> None \<longrightarrow> annexb_has_sps frame))"
proof -
  have t: "tier_ok cap ft" unfolding assms(2) by (rule tier_ok_run [OF assms(1)])
  have fr: "suffix au (fast_frame au keyframe ft) \<and> (keyframe \<and> ft_config ft \<noteq> None \<longrightarrow> annexb_has_sps (fast_frame au keyframe ft))"
  proof (cases "keyframe \<and> \<not> annexb_has_sps au \<and> ft_config ft \<noteq> None")
    case True
    then obtain sps pps where c: "ft_config ft = Some (sps, pps)" by auto
    then have "sps \<noteq> []" "hd sps AND 0x1F = 7" using t by (simp_all add: tier_ok_def)
    from prefixed_has_sps [OF this, of "[0, 0, 0, 1] @ pps @ au"] show ?thesis using True c
      by (simp add: fast_frame_def suffix_def)
  qed (auto simp: fast_frame_def split: option.splits)
  have "sent = map (\<lambda>(_, tx). (tx, fast_frame au keyframe ft, ts)) (hm_retain (\<lambda>_ tx. alive tx) (ft_viewers ft))"
    using assms(3) by (auto simp: fast_broadcast_def hm_retain_def Let_def split: if_splits)
  then have "map fst sent = filter alive (map snd (ft_viewers ft))"
    "\<forall>(tx, frame, t) \<in> set sent. t = ts \<and> frame = fast_frame au keyframe ft"
    by (auto simp: hm_retain_def filter_map comp_def split_beta case_prod_unfold)
  then show ?thesis using t fr by (fastforce simp: tier_ok_def hm_ok_def)
qed

theorem fast_tier_fanout_witness:
  "length (ft_viewers (al_tier (fast_run toy_libs [SetCfg [0x67] [0x68], Sig \<lparr>oc_off = False, oc_spawned = True, oc_channel = 3, oc_answer = Some [9]\<rparr>
     ([1], Offer [4])] 1))) \<le> 1"
  using fast_tier_fanout [of "[SetCfg [0x67] [0x68], Sig \<lparr>oc_off = False, oc_spawned = True, oc_channel = 3, oc_answer = Some [9]\<rparr> ([1], Offer [4])]",
      OF _ refl surjective_pairing, of toy_libs 1 "\<lambda>_. True" "[0, 0, 1, 0x65]" 5 True] by (simp add: config_ok_def)

subsection \<open>Replies are bound to their offer\<close>

lemma reply_made:
  "(v, r) \<in> set (al_sent (fast_run L ops cap)) \<Longrightarrow>
   \<exists>oc sdp. Sig oc (v, Offer sdp) \<in> set ops \<and> (r = Closed (offer_tag L sdp)
     \<or> (\<exists>a. r = Answer (offer_tag L sdp) a \<and> \<not> oc_off oc \<and> oc_answer oc = Some a))"
proof (induction ops rule: rev_induct)
  case Nil
  then show ?case by (simp add: fast_run_def)
next
  case (snoc op ops)
  let ?al = "fast_run L ops cap"
  show ?case
  proof (cases "(v, r) \<in> set (al_sent ?al)")
    case True
    then show ?thesis using snoc.IH by auto
  next
    case False
    then obtain oc sdp where op: "op = Sig oc (v, Offer sdp)" "(v, r) \<in> set (al_sent (on_offer L oc v sdp ?al))"
      using snoc.prems
      by (cases op) (auto simp: fast_run_snoc on_fast_signal_def on_offer_def Let_def split: signal_msg.splits if_splits prod.splits)
    then have "r = Closed (offer_tag L sdp) \<or> (\<exists>a. r = Answer (offer_tag L sdp) a \<and> \<not> oc_off oc \<and> oc_answer oc = Some a)"
      using False by (auto simp: on_offer_def accept_offer_def Let_def split: if_splits option.splits prod.splits)
    then show ?thesis using op(1) by auto
  qed
qed

lemma reader_found: "reader_scan p w sigs = Some (Answered a) \<Longrightarrow> (p, Answer w a) \<in> set sigs"
  by (induction p w sigs rule: reader_scan.induct) (auto split: if_splits signal_msg.splits)

text \<open>
  C31: A viewer that toggles the fast tier never applies a stale answer. If everything it reads
  from the publisher was sent by the publisher's accept loop to it, in any order and however often it is
  read again, and its own offers do not collide in their tags, then the answer it hands to its peer
  connection was made for this very offer while the tier was on.
\<close>

theorem fast_answer_binds:
  assumes "\<forall>msg. (publisher, msg) \<in> set sigs \<longrightarrow> (me, msg) \<in> set (al_sent (fast_run L ops cap))"
    and "\<forall>oc sdp. Sig oc (me, Offer sdp) \<in> set ops \<longrightarrow> offer_tag L sdp = offer_tag L offer \<longrightarrow> sdp = offer"
    and "reader_scan publisher (offer_tag L offer) sigs = Some (Answered a)"
  shows "\<exists>oc. Sig oc (me, Offer offer) \<in> set ops \<and> \<not> oc_off oc \<and> oc_answer oc = Some a"
proof -
  have "(me, Answer (offer_tag L offer) a) \<in> set (al_sent (fast_run L ops cap))" using assms(1) reader_found [OF assms(3)] by blast
  from reply_made [OF this] obtain oc sdp where "Sig oc (me, Offer sdp) \<in> set ops" "offer_tag L sdp = offer_tag L offer"
    "\<not> oc_off oc" "oc_answer oc = Some a"
    by auto
  then show ?thesis using assms(2) by blast
qed

theorem fast_answer_binds_witness:
  "\<exists>oc. Sig oc ([1], Offer [4]) \<in> set [Sig \<lparr>oc_off = False, oc_spawned = True, oc_channel = 3, oc_answer = Some [9]\<rparr> ([1], Offer [4])]
    \<and> \<not> oc_off oc \<and> oc_answer oc = Some [9]"
  by (rule fast_answer_binds [where publisher = "[8]" and L = toy_libs and cap = 1 and sigs = "[([8], Answer (offer_tag toy_libs [4]) [9])]"])
     (simp_all add: fast_run_def on_fast_signal_def on_offer_def accept_offer_def fast_new_def hm_has_def)

subsection \<open>When the thread of a viewer ends\<close>

definition connected_now :: "received \<Rightarrow> bool" where
  "connected_now r = (case r of Frame _ _ c \<Rightarrow> c | Timeout c \<Rightarrow> c | Disconnected \<Rightarrow> False)"

lemma run_once_connected: "eg_connected_once e \<Longrightarrow> egress_run rs e = None \<longleftrightarrow> Timeout False \<in> set rs \<or> Disconnected \<in> set rs"
proof (induction rs arbitrary: e)
  case (Cons r rs)
  show ?case
  proof (cases r)
    case (Timeout c)
    then show ?thesis using Cons by (cases c) (simp_all add: egress_step_def)
  qed (use Cons in \<open>simp_all add: egress_step_def split_beta\<close>)
qed simp

lemma run_never_connected:
  assumes "\<forall>r \<in> set rs. \<not> connected_now r \<and> r \<noteq> Disconnected" "\<not> eg_connected_once e" "eg_idle_ticks e \<le> 20"
  shows "egress_run rs e = None \<longleftrightarrow> 20 < unat (eg_idle_ticks e) + count_list rs (Timeout False)"
  using assms
proof (induction rs arbitrary: e)
  case Nil
  then show ?case by (simp add: word_le_nat_alt)
next
  case (Cons r rs)
  show ?case
  proof (cases r)
    case (Frame au ts c)
    then show ?thesis using Cons by (simp add: egress_step_def connected_now_def split_beta)
  next
    case (Timeout c)
    then have c: "\<not> c" using Cons.prems(1) by (simp add: connected_now_def)
    have u: "unat (eg_idle_ticks e + 1) = Suc (unat (eg_idle_ticks e))" using Cons.prems(3) by (simp add: unat_word_ariths word_le_nat_alt)
    show ?thesis
    proof (cases "20 < eg_idle_ticks e + 1")
      case True
      then have "20 < Suc (unat (eg_idle_ticks e))" unfolding word_less_nat_alt u by simp
      then show ?thesis using Timeout c True Cons.prems(2) by (simp add: egress_step_def)
    next
      case False
      then show ?thesis using Timeout c Cons u by (simp add: egress_step_def)
    qed
  next
    case Disconnected
    then show ?thesis using Cons.prems(1) by simp
  qed
qed

text \<open>
  C32: The thread of a fast-tier viewer ends exactly as follows, whatever else happens. While the
  connection has never come up, with the 21st receive that times out; once it has been up, with the first
  receive that times out while it is down, or when its channel is dropped. Frames alone never end it: as
  long as the publisher is live and frames keep arriving, a session that is down is not reaped.
\<close>

theorem egress_reaped:
  assumes "\<forall>r \<in> set rs. \<not> connected_now r \<and> r \<noteq> Disconnected" "connected_now r"
  shows "(egress_run rs (egress_new pt) = None \<longleftrightarrow> 21 \<le> count_list rs (Timeout False))
    \<and> (egress_run (rs @ r # rs') (egress_new pt) = None \<longleftrightarrow>
         21 \<le> count_list rs (Timeout False) \<or> Timeout False \<in> set rs' \<or> Disconnected \<in> set rs')"
proof -
  have never: "egress_run rs (egress_new pt) = None \<longleftrightarrow> 21 \<le> count_list rs (Timeout False)"
    using run_never_connected [OF assms(1), of "egress_new pt"] by (auto simp: egress_new_def)
  have "egress_run (rs @ r # rs') e = (case egress_run rs e of Some e1 \<Rightarrow> egress_run (r # rs') e1 | None \<Rightarrow> None)" for e
    by (induction rs arbitrary: e) (simp_all split: option.splits)
  moreover have "egress_run (r # rs') e = None \<longleftrightarrow> Timeout False \<in> set rs' \<or> Disconnected \<in> set rs'" for e
  proof -
    obtain e1 where "egress_step r e = Some e1" "eg_connected_once e1"
      using assms(2) by (cases r) (auto simp: egress_step_def connected_now_def split_beta)
    then show ?thesis using run_once_connected [of e1 rs'] by simp
  qed
  ultimately show ?thesis using never by (auto split: option.splits)
qed

theorem egress_reaped_witness:
  "egress_run (replicate 30 (Frame [] 0 False) @ Timeout True # replicate 30 (Frame [] 0 False)) (egress_new 96) \<noteq> None"
  using egress_reaped [of "replicate 30 (Frame [] 0 False)" "Timeout True" 96 "replicate 30 (Frame [] 0 False)"]
  by (simp add: connected_now_def count_list_0_iff)

end
