(* ===== verification/Rtp_Bounds.thy ===== *)
theory Rtp_Bounds
  imports Rtp_Props
begin

section \<open>Hostile packets\<close>

text \<open>
  Bounds of the depacketizers that hold for every sequence of packets, well formed or not.
\<close>

unbundle bit_operations_syntax

subsection \<open>Buffers and clock\<close>

definition small :: "depacketizer \<Rightarrow> bool" where
  "small d \<longleftrightarrow> length (dp_au d) \<le> MAX_AU_BYTES \<and> length (dp_fu d) \<le> MAX_AU_BYTES"

lemma small_poison [simp]: "small (poison d)"
  by (simp add: small_def poison_def)

lemma small_take_nal: "small d \<Longrightarrow> small (take_nal nal d)"
  by (auto simp: take_nal_def note_nal_def small_def poison_def Let_def)

lemma small_stap: "small d \<Longrightarrow> small (stap_a p d)"
proof (induction p d rule: stap_a.induct)
  case (1 p d)
  then show ?case by (subst stap_a.simps) (auto simp: Let_def small_take_nal)
qed

lemma small_fu_a: "small d \<Longrightarrow> small (fu_a p d)"
  by (auto simp: fu_a_def Let_def intro!: small_take_nal) (auto simp: small_def poison_def MAX_AU_BYTES_def)

lemma small_feed: "small d \<Longrightarrow> small (take_payload p (note_ts ts (note_seq seq d)))"
proof -
  assume d: "small d"
  have "small (note_ts ts (note_seq seq d))" using d by (auto simp: small_def note_seq_def poison_def Let_def split: option.splits)
  then show ?thesis by (simp add: take_payload_def small_take_nal small_stap small_fu_a Let_def)
qed

text \<open>After \<open>n\<close> packets the clock has advanced by at most ten seconds each, and it counts from zero.\<close>

definition clock_ok :: "nat \<Rightarrow> clock \<Rightarrow> bool" where
  "clock_ok n c \<longleftrightarrow> (case c of (l, u, b) \<Rightarrow> uint u \<le> int n * MAX_TS_JUMP \<and> b \<in> {None, Some 0} \<and> (l = None \<longleftrightarrow> b = None) \<and> (l = None \<longrightarrow> u = 0))"

lemma sat_add_le: "s \<le> MAX_TS_JUMP \<Longrightarrow> uint (saturating_add_signed u s) \<le> uint u + MAX_TS_JUMP"
proof -
  assume s: "s \<le> MAX_TS_JUMP"
  let ?x = "max 0 (min (uint u + s) (2 ^ 64 - 1))"
  have "0 \<le> ?x" "?x < 2 ^ 64" by simp_all
  then have "uint (word_of_int ?x :: u64) = ?x" unfolding uint_word_of_int by simp
  then have "uint (saturating_add_signed u s) = ?x" unfolding saturating_add_signed_def .
  moreover have "0 \<le> uint u" by simp
  ultimately show ?thesis using s by (simp add: MAX_TS_JUMP_def)
qed

lemma jump_le: "i32_abs x \<le> MAX_TS_JUMP \<Longrightarrow> sint x \<le> MAX_TS_JUMP"
  by (auto simp: i32_abs_def MAX_TS_JUMP_def split: if_splits)

lemma clock_ok_clk: "clock_ok n c \<Longrightarrow> clock_ok (Suc n) (clk ts c)"
proof -
  assume ok: "clock_ok n c"
  obtain l u b where c: "c = (l, u, b)" by (metis prod_cases3)
  show ?thesis
  proof (cases l)
    case None
    then show ?thesis using ok by (simp add: c clock_ok_def clk_def MAX_TS_JUMP_def)
  next
    case (Some l')
    have "uint u \<le> int n * MAX_TS_JUMP" "b = Some 0" using ok Some by (auto simp: c clock_ok_def)
    then show ?thesis
      using Some sat_add_le [of "sint (ts - l')" u] jump_le [of "ts - l'"]
      by (auto simp: c clock_ok_def clk_def Let_def algebra_simps MAX_TS_JUMP_def)
  qed
qed

lemma clock_ok_pts:
  assumes "clock_ok n (l, u, b)" "n < 2 ^ 33"
  shows "0 \<le> pts_us u (case b of Some b \<Rightarrow> b | None \<Rightarrow> 0)"
proof -
  have "int n * MAX_TS_JUMP \<le> 2 ^ 33 * MAX_TS_JUMP" using assms(2) by (simp add: MAX_TS_JUMP_def)
  moreover have "uint u \<le> int n * MAX_TS_JUMP" using assms(1) by (simp add: clock_ok_def)
  ultimately have u: "uint u < 2 ^ 53" by (simp add: MAX_TS_JUMP_def)
  have w: "i64_wrap x = x" if "0 \<le> x" "x < 2 ^ 63" for x
    unfolding i64_wrap_def using that by (simp add: sint_sbintrunc' signed_take_bit_int_eq_self)
  have "sint u = uint u" using w [of "uint u"] u by (simp add: i64_wrap_def)
  moreover have "(case b of Some b \<Rightarrow> b | None \<Rightarrow> 0) = (0 :: u64)" using assms(1) by (auto simp: clock_ok_def)
  ultimately show ?thesis using u w [of "uint u"] w [of "uint u * 1000"] by (simp add: pts_us_def rust_div_def sgn_if pos_imp_zdiv_nonneg_iff)
qed

definition safe :: "nat \<Rightarrow> depacketizer \<Rightarrow> bool" where
  "safe n d \<longleftrightarrow> small d \<and> clock_ok n (clock_of d)"

definition fine :: "access_unit \<Rightarrow> bool" where
  "fine u \<longleftrightarrow> ac_data u \<noteq> [] \<and> length (ac_data u) \<le> MAX_AU_BYTES \<and> 0 \<le> ac_pts_us u"

lemma clock_ok_mono: "clock_ok n c \<Longrightarrow> clock_ok (Suc n) c"
  by (auto simp: clock_ok_def MAX_TS_JUMP_def algebra_simps split: prod.splits)

lemma wait_feed: "dp_wait_keyframe d \<Longrightarrow> dp_wait_keyframe (take_payload p (note_ts ts (note_seq seq d)))"
proof -
  have n: "dp_wait_keyframe (take_nal n d)" "dp_wait_keyframe (poison d)" if "dp_wait_keyframe d" for n d
    using that by (simp_all add: take_nal_def note_nal_def poison_def Let_def)
  have st: "dp_wait_keyframe d \<Longrightarrow> dp_wait_keyframe (stap_a q d)" for q d
  proof (induction q d rule: stap_a.induct)
    case (1 q d)
    then show ?case by (subst stap_a.simps) (simp add: Let_def n)
  qed
  assume "dp_wait_keyframe d"
  then have "dp_wait_keyframe (note_ts ts (note_seq seq d))" by (auto simp: note_seq_def n Let_def split: option.splits)
  then show ?thesis by (simp add: take_payload_def fu_a_def Let_def n st)
qed

lemma push_safe:
  assumes "safe n d" "Suc n < 2 ^ 33" "push_rtp pkt d = (a, d')"
  shows "safe (Suc n) d'" "dp_wait_keyframe d \<Longrightarrow> a = None \<Longrightarrow> dp_wait_keyframe d'"
    and "a = Some u \<Longrightarrow> fine u \<and> (dp_wait_keyframe d \<longrightarrow> ac_keyframe u)"
proof -
  define e where "e = (\<lambda>p. take_payload p (note_ts (rtp_ts pkt) (note_seq (rtp_seq pkt) d)))"
  have e: "small (e p)" "clock_ok (Suc n) (clock_of (e p))" "dp_wait_keyframe d \<longrightarrow> dp_wait_keyframe (e p)" for p
    using assms(1) by (auto simp: e_def safe_def note_ts_clock clock_ok_clk wait_feed intro: small_feed)
  have cases: "rtp_payload pkt = None \<and> a = None \<and> d' = d \<or> a = None \<and> (\<exists>p. d' = e p) \<or> (\<exists>p. close_au (e p) = (a, d'))"
    using assms(3) by (auto simp: push_rtp_def e_def Let_def split: option.splits if_splits)
  show "safe (Suc n) d'"
    using cases assms(1) e(1,2) clock_ok_mono
    by (auto simp: safe_def close_au_def small_def clock_of_def Let_def split: if_splits)
  show "dp_wait_keyframe d \<Longrightarrow> a = None \<Longrightarrow> dp_wait_keyframe d'"
    using cases e(3) by (auto simp: close_au_def Let_def split: if_splits)
  show "fine u \<and> (dp_wait_keyframe d \<longrightarrow> ac_keyframe u)" if a: "a = Some u"
  proof -
    obtain p where c: "close_au (e p) = (Some u, d')" using cases a by auto
    have "0 \<le> pts_us (dp_ts_unwrapped (e p)) (case dp_base_ts (e p) of Some b \<Rightarrow> b | None \<Rightarrow> 0)"
      using clock_ok_pts [OF e(2) [of p, unfolded clock_of_def] assms(2)] .
    then show ?thesis using c e(1,3) [of p] by (auto simp: close_au_def fine_def small_def Let_def split: if_splits)
  qed
qed

lemma run_safe:
  assumes "safe n d" "n + length ps < 2 ^ 33" "depacketize ps d = (us, d')"
  shows "safe (n + length ps) d' \<and> list_all fine us \<and> (dp_wait_keyframe d \<longrightarrow> us = [] \<or> ac_keyframe (hd us))"
  using assms
proof (induction ps arbitrary: n d us)
  case (Cons p ps)
  obtain a d1 where push: "push_rtp p d = (a, d1)" by fastforce
  obtain vs where run: "depacketize ps d1 = (vs, d')" "us = (case a of Some u \<Rightarrow> [u] | None \<Rightarrow> []) @ vs"
    using Cons.prems(3) push by (auto split: prod.splits)
  note step = push_safe [OF Cons.prems(1) _ push]
  have n: "Suc n < 2 ^ 33" "Suc n + length ps < 2 ^ 33" using Cons.prems(2) by simp_all
  note IH = Cons.IH [OF step(1) [OF n(1)] n(2) run(1)]
  show ?case using IH step(2,3) [OF n(1)] run(2) by (cases a) auto
qed simp

text \<open>
  C28: Whatever packets arrive, the depacketizer never buffers more than 4 MiB of a unit and 4 MiB
  of a fragmented NAL unit, every unit it shows is non-empty, at most 4 MiB long and has a
  presentation time that is not negative, and the first unit shown is a keyframe.
\<close>

theorem ingest_bounded:
  assumes "length ps < 2 ^ 33" "depacketize ps depacketizer_new = (us, d)"
  shows "length (dp_au d) \<le> MAX_AU_BYTES \<and> length (dp_fu d) \<le> MAX_AU_BYTES
    \<and> list_all (\<lambda>u. ac_data u \<noteq> [] \<and> length (ac_data u) \<le> MAX_AU_BYTES \<and> 0 \<le> ac_pts_us u) us
    \<and> (us = [] \<or> ac_keyframe (hd us))"
proof -
  have "safe 0 depacketizer_new" by (simp add: safe_def small_def clock_ok_def clock_of_def depacketizer_new_def)
  then have "safe (length ps) d \<and> list_all fine us \<and> (us = [] \<or> ac_keyframe (hd us))"
    using run_safe [of 0 depacketizer_new ps us d] assms by (simp add: depacketizer_new_def)
  then show ?thesis by (simp add: safe_def small_def fine_def [abs_def])
qed

theorem ingest_bounded_witness:
  "length (dp_au (snd (depacketize [[0x80, 0x60, 0, 1, 0, 0, 0, 0, 0, 0, 0, 1, 0x65, 2]] depacketizer_new))) \<le> MAX_AU_BYTES"
  using ingest_bounded [OF _ surjective_pairing, of "[[0x80, 0x60, 0, 1, 0, 0, 0, 0, 0, 0, 0, 1, 0x65, 2]]"] by simp

subsection \<open>Two departures from the comments\<close>

text \<open>A keyframe whose leading packet is lost is shown without it.\<close>

abbreviation demo_packet :: "u32 \<Rightarrow> u16 \<Rightarrow> bytes \<Rightarrow> bytes" where
  "demo_packet ts seq payload \<equiv> packet (packetizer_new 1 96) ts seq True payload"

lemma push_demo: "payload \<noteq> [] \<Longrightarrow> length payload \<le> 10 \<Longrightarrow> push_rtp (demo_packet ts seq payload) d = close_au (feed ts seq payload d)"
  by (simp add: push_packet packetizer_new_def pt_ok_def MAX_RTP_LEN_def)

lemmas evaluate = feed_def take_payload_def take_nal_def note_nal_def note_seq_def note_ts_def close_au_def depacketizer_new_def
  ANNEX_B_def MAX_AU_BYTES_def pts_us_def rust_div_def i64_wrap_def saturating_add_signed_def i32_abs_def MAX_TS_JUMP_def

lemma beheaded_keyframe_shown:
  "fst (depacketize [demo_packet 0 1 [0x65, 2]] depacketizer_new) = [\<lparr>ac_data = [0, 0, 0, 1, 0x65, 2], ac_pts_us = 0, ac_keyframe = True\<rparr>]"
  by (simp add: push_demo) (simp add: evaluate)

text \<open>A unit that presents 100 ticks before the first is placed at zero, and the unit 200 ticks after
  it, 100 after the first, at 200.\<close>

lemma early_frame_clamped:
  "map ac_pts_us (fst (depacketize [demo_packet 1000 1 [0x65, 2], demo_packet 900 2 [0x41, 3], demo_packet 1100 3 [0x41, 4]] depacketizer_new))
     = [0, 0, 2222]"
  by (simp add: push_demo) (simp add: evaluate)

end
