(* ===== verification/Sps_Props.thy ===== *)
theory Sps_Props
  imports Sps
begin

section \<open>The size is read back\<close>

text \<open>
  The syntax of a sequence parameter set as the H.264 standard writes it, bit by bit, and the
  proof that the parser recovers the picture size from it.
\<close>

unbundle bit_operations_syntax

subsection \<open>Codes\<close>

fun nbits :: "nat \<Rightarrow> nat \<Rightarrow> bool list" where
  "nbits 0 v = []"
| "nbits (Suc n) v = odd (v div 2 ^ n) # nbits n v"

fun ilog2 :: "nat \<Rightarrow> nat" where
  "ilog2 n = (if n < 2 then 0 else Suc (ilog2 (n div 2)))"

declare ilog2.simps [simp del]

definition ue_bits :: "nat \<Rightarrow> bool list" where
  "ue_bits v = replicate (ilog2 (v + 1)) False @ True # nbits (ilog2 (v + 1)) (v + 1 - 2 ^ ilog2 (v + 1))"

definition se_bits :: "int \<Rightarrow> bool list" where
  "se_bits v = ue_bits (nat (if 0 < v then 2 * v - 1 else - 2 * v))"

lemma length_nbits [simp]: "length (nbits n v) = n"
  by (induction n arbitrary: v) simp_all

lemma ilog2_bounds: "0 < n \<Longrightarrow> 2 ^ ilog2 n \<le> n \<and> n < 2 * 2 ^ ilog2 n"
proof (induction n rule: ilog2.induct)
  case (1 n)
  show ?case
  proof (cases "n < 2")
    case True
    then show ?thesis using "1.prems" by (simp add: ilog2.simps)
  next
    case False
    then have "2 ^ ilog2 (n div 2) \<le> n div 2 \<and> n div 2 < 2 * 2 ^ ilog2 (n div 2)" using "1.IH" by simp
    then show ?thesis using False by (subst (1 2) ilog2.simps) (auto simp: less_mult_imp_div_less)
  qed
qed

lemma ilog2_le: "0 < n \<Longrightarrow> n < 2 ^ Suc m \<Longrightarrow> ilog2 n \<le> m"
proof (rule ccontr)
  assume "0 < n" "n < 2 ^ Suc m" "\<not> ilog2 n \<le> m"
  then have "(2 :: nat) ^ Suc m \<le> 2 ^ ilog2 n" by (intro power_increasing) simp_all
  then show False using ilog2_bounds [of n] \<open>0 < n\<close> \<open>n < 2 ^ Suc m\<close> by linarith
qed

subsection \<open>Reading what was written\<close>

fun at_bits :: "bytes \<Rightarrow> nat \<Rightarrow> bool list \<Rightarrow> bool" where
  "at_bits d pos [] \<longleftrightarrow> True"
| "at_bits d pos (b # bs) \<longleftrightarrow> pos div 8 < length d \<and> bit (d ! (pos div 8)) (7 - pos mod 8) = b \<and> at_bits d (Suc pos) bs"

lemma at_append [simp]: "at_bits d pos (xs @ ys) \<longleftrightarrow> at_bits d pos xs \<and> at_bits d (pos + length xs) ys"
  by (induction xs arbitrary: pos) auto

lemma drop_bit_one: "drop_bit k (b :: u8) AND 1 = of_bool (bit b k)"
  by (simp add: and_one_eq odd_iff_mod_2_eq_one bit_iff_odd_drop_bit)

lemma shift_in: "push_bit 1 v OR of_bool b = 2 * v + (of_bool b :: u64)"
proof -
  have "push_bit 1 v + of_bool b = push_bit 1 v OR (of_bool b :: u64)"
    by (rule disjunctive_add) (simp only: bit_push_bit_iff bit_of_bool_iff, auto)
  then show ?thesis by (simp add: push_bit_eq_mult mult.commute)
qed

lemma u_loop_bits:
  "at_bits d pos (nbits n x) \<Longrightarrow> sp_u_loop n v d pos = Some (v * 2 ^ n + of_nat (x mod 2 ^ n), pos + n)"
proof (induction n arbitrary: pos v)
  case (Suc n)
  have hd: "pos div 8 < length d" "bit (d ! (pos div 8)) (7 - pos mod 8) = odd (x div 2 ^ n)" and rest: "at_bits d (Suc pos) (nbits n x)"
    using Suc.prems by simp_all
  let ?b = "of_bool (odd (x div 2 ^ n))"
  have step: "push_bit 1 v OR ucast (drop_bit (7 - pos mod 8) (d ! (pos div 8)) AND 1) = 2 * v + (?b :: u64)"
    unfolding drop_bit_one hd(2) shift_in [symmetric] by simp
  have "x mod 2 ^ Suc n = 2 ^ n * ?b + x mod 2 ^ n"
    using mod_mult2_eq [of x "2 ^ n" 2] by (simp add: mult.commute of_bool_odd_eq_mod_2)
  then have "(of_nat (x mod 2 ^ Suc n) :: u64) = 2 ^ n * ?b + of_nat (x mod 2 ^ n)" by (simp only: of_nat_add of_nat_mult of_nat_power of_nat_of_bool) simp
  then have eq: "(2 * v + ?b) * 2 ^ n + of_nat (x mod 2 ^ n) = v * 2 ^ Suc n + (of_nat (x mod 2 ^ Suc n) :: u64)"
    by (simp add: algebra_simps)
  show ?case using hd(1) Suc.IH [OF rest, of "2 * v + ?b"] unfolding sp_u_loop.simps step eq by simp
qed simp

lemma u_bits: "at_bits d pos (nbits n x) \<Longrightarrow> sp_u n d pos = Some (of_nat (x mod 2 ^ n), pos + n)"
  using u_loop_bits [of d pos n x 0] by (simp add: sp_u_def)

lemma u_bit: "at_bits d pos [b] \<Longrightarrow> sp_u 1 d pos = Some (of_bool b, Suc pos)"
  using u_bits [of d pos 1 "of_bool b"] by (cases b) simp_all

lemma skip_bit: "at_bits d pos [b] \<Longrightarrow> sp_skip 1 d pos = Some (Suc pos)"
  using u_bit [of d pos b] by (simp add: sp_skip_def)

lemma zeros_bits:
  "at_bits d pos (replicate m False @ [True]) \<Longrightarrow> z + m \<le> 63 \<Longrightarrow> sp_zeros d z pos = Some (z + m, pos + m + 1)"
proof (induction m arbitrary: z pos)
  case 0
  then have "sp_u 1 d pos = Some (1, Suc pos)" using u_bit [of d pos True] by simp
  then show ?case by (subst sp_zeros.simps) simp
next
  case (Suc m)
  have "sp_u 1 d pos = Some (0, Suc pos)" using u_bit [of d pos False] Suc.prems(1) by simp
  then show ?case using Suc.IH [of "Suc pos" "Suc z"] Suc.prems by (subst sp_zeros.simps) simp
qed

lemma ue_bits_read:
  assumes "at_bits d pos (ue_bits v)" "v < 2 ^ 63"
  shows "sp_ue d pos = Some (of_nat v, pos + length (ue_bits v))"
proof -
  define m where "m = ilog2 (v + 1)"
  have m: "2 ^ m \<le> v + 1" "v + 1 < 2 * 2 ^ m" "m \<le> 63"
    using ilog2_bounds [of "v + 1"] ilog2_le [of "v + 1" 63] assms(2) by (simp_all add: m_def)
  have code: "ue_bits v = (replicate m False @ [True]) @ nbits m (v + 1 - 2 ^ m)" by (simp add: ue_bits_def m_def)
  have r: "at_bits d pos (replicate m False @ [True])" "at_bits d (pos + m + 1) (nbits m (v + 1 - 2 ^ m))"
    using assms(1) unfolding code at_append by simp_all
  have z: "sp_zeros d 0 pos = Some (m, pos + m + 1)" using zeros_bits [OF r(1), of 0] m(3) by simp
  have "(v + 1 - 2 ^ m) mod 2 ^ m = v + 1 - 2 ^ m" using m(2) by simp
  then have u: "sp_u m d (pos + m + 1) = Some (of_nat (v + 1 - 2 ^ m), pos + m + 1 + m)" using u_bits [OF r(2)] by simp
  have "v + 1 = 2 ^ m + (v + 1 - 2 ^ m)" using m(1) by simp
  then have "(of_nat (v + 1) :: u64) = of_nat (2 ^ m + (v + 1 - 2 ^ m))" by (rule arg_cong)
  then have "(of_nat v :: u64) + 1 = 2 ^ m + of_nat (v + 1 - 2 ^ m)" by (simp only: of_nat_add of_nat_power of_nat_numeral of_nat_1)
  then have val: "push_bit m 1 - 1 + of_nat (v + 1 - 2 ^ m) = (of_nat v :: u64)" by (simp add: push_bit_eq_mult algebra_simps)
  have len: "length (ue_bits v) = m + 1 + m" by (simp add: code)
  show ?thesis
  proof (cases "m = 0")
    case True
    then have "v = 0" using m(2) by simp
    then show ?thesis using z True len by (simp add: sp_ue_def)
  next
    case False
    then show ?thesis using z u val len by (simp add: sp_ue_def)
  qed
qed

lemma se_bits_read:
  assumes "at_bits d pos (se_bits v)" "\<bar>v\<bar> < 2 ^ 61"
  shows "sp_se d pos = Some (v, pos + length (se_bits v))"
proof -
  define k where "k = nat (if 0 < v then 2 * v - 1 else - 2 * v)"
  have k: "k < 2 ^ 62" using assms(2) by (auto simp: k_def abs_if nat_less_iff split: if_splits)
  have u: "sp_ue d pos = Some (of_nat k, pos + length (se_bits v))"
    using ue_bits_read [of d pos k] assms(1) k by (simp add: se_bits_def k_def)
  have s: "sint (of_nat x :: u64) = int x" if "x < 2 ^ 63" for x
    using that by (simp add: signed_of_nat signed_take_bit_int_eq_self)
  have nat: "unat (of_nat k :: u64) = k" "unat (of_nat k + 1 :: u64) = k + 1"
    using k by (simp_all add: unat_of_nat unat_word_ariths)
  have w: "(of_nat k :: u64) mod 2 = of_nat (k mod 2)" "(of_nat k :: u64) div 2 = of_nat (k div 2)" "(of_nat k + 1 :: u64) div 2 = of_nat ((k + 1) div 2)"
    using k nat by (simp_all add: word_arith_nat_mod word_arith_nat_div)
  have "(of_nat (k mod 2) :: u64) = 0 \<longleftrightarrow> k mod 2 = 0" by (cases "even k") (simp_all add: odd_iff_mod_2_eq_one even_iff_mod_2_eq_zero)
  then have "sp_se d pos = Some (if k mod 2 = 0 then - int (k div 2) else int ((k + 1) div 2), pos + length (se_bits v))"
    using u s [of "k div 2"] s [of "(k + 1) div 2"] k by (simp add: sp_se_def w)
  moreover have "(if k mod 2 = 0 then - int (k div 2) else int ((k + 1) div 2)) = v"
  proof (cases "0 < v")
    case True
    then have "int k = 2 * v - 1" by (simp add: k_def)
    then show ?thesis by presburger
  next
    case False
    then have "int k = - 2 * v" by (simp add: k_def)
    then show ?thesis by presburger
  qed
  ultimately show ?thesis by simp
qed

subsection \<open>The syntax of the standard\<close>

text \<open>A scaling list is the differences the standard writes for it: as many as are needed until the
  list is used up or the next scale is zero.\<close>

fun deltas :: "nat \<Rightarrow> int \<Rightarrow> int \<Rightarrow> int list \<Rightarrow> bool" where
  "deltas 0 l n ds \<longleftrightarrow> ds = []"
| "deltas (Suc k) l n ds \<longleftrightarrow>
     (if n = 0 then deltas k l n ds
      else (case ds of
              [] \<Rightarrow> False
            | x # r \<Rightarrow> - 128 \<le> x \<and> x \<le> 127
                \<and> (let n1 = (l + x + 256) mod 256 in deltas k (if n1 \<noteq> 0 then n1 else l) n1 r)))"

datatype poc_syntax = Poc0 nat | Poc1 bool int int "int list" | PocOther nat

record high_syntax =
  hs_chroma :: nat
  hs_separate :: bool
  hs_luma_depth :: nat
  hs_chroma_depth :: nat
  hs_bypass :: bool
  hs_matrix :: "int list option list option"

record sps_syntax =
  ss_profile :: nat
  ss_constraints :: nat
  ss_level :: nat
  ss_id :: nat
  ss_high :: high_syntax
  ss_frame_num :: nat
  ss_poc :: poc_syntax
  ss_refs :: nat
  ss_gaps :: bool
  ss_width_mbs :: nat
  ss_height_units :: nat
  ss_frame_mbs_only :: bool
  ss_mb_adaptive :: bool
  ss_direct_8x8 :: bool
  ss_crop :: "(nat \<times> nat \<times> nat \<times> nat) option"

definition high_profile :: "nat \<Rightarrow> bool" where
  "high_profile p \<longleftrightarrow> p \<in> {100, 110, 122, 244, 44, 83, 86, 118, 128, 138, 139, 134, 135}"

definition list_bits :: "int list option \<Rightarrow> bool list" where
  "list_bits l = (case l of None \<Rightarrow> [False] | Some ds \<Rightarrow> True # concat (map se_bits ds))"

definition high_bits :: "high_syntax \<Rightarrow> bool list" where
  "high_bits h = ue_bits (hs_chroma h) @ (if hs_chroma h = 3 then [hs_separate h] else [])
     @ ue_bits (hs_luma_depth h) @ ue_bits (hs_chroma_depth h) @ [hs_bypass h]
     @ (case hs_matrix h of None \<Rightarrow> [False] | Some ls \<Rightarrow> True # concat (map list_bits ls))"

definition poc_bits :: "poc_syntax \<Rightarrow> bool list" where
  "poc_bits p = (case p of
     Poc0 lsb \<Rightarrow> ue_bits 0 @ ue_bits lsb
   | Poc1 z a b cycle \<Rightarrow> ue_bits 1 @ [z] @ se_bits a @ se_bits b @ ue_bits (length cycle) @ concat (map se_bits cycle)
   | PocOther t \<Rightarrow> ue_bits t)"

definition crop_bits :: "(nat \<times> nat \<times> nat \<times> nat) option \<Rightarrow> bool list" where
  "crop_bits c = (case c of
     None \<Rightarrow> [False]
   | Some (l, r, t, b) \<Rightarrow> [True] @ ue_bits l @ ue_bits r @ ue_bits t @ ue_bits b)"

definition sps_bits :: "sps_syntax \<Rightarrow> bool list" where
  "sps_bits s = nbits 8 (ss_profile s) @ nbits 8 (ss_constraints s) @ nbits 8 (ss_level s) @ ue_bits (ss_id s)
     @ (if high_profile (ss_profile s) then high_bits (ss_high s) else [])
     @ ue_bits (ss_frame_num s) @ poc_bits (ss_poc s) @ ue_bits (ss_refs s) @ [ss_gaps s]
     @ ue_bits (ss_width_mbs s) @ ue_bits (ss_height_units s) @ [ss_frame_mbs_only s]
     @ (if ss_frame_mbs_only s then [] else [ss_mb_adaptive s]) @ [ss_direct_8x8 s] @ crop_bits (ss_crop s)"

abbreviation code_ok :: "nat \<Rightarrow> bool" where "code_ok v \<equiv> v < 2 ^ 32"

definition high_ok :: "high_syntax \<Rightarrow> bool" where
  "high_ok h \<longleftrightarrow> code_ok (hs_chroma h) \<and> code_ok (hs_luma_depth h) \<and> code_ok (hs_chroma_depth h)
     \<and> (case hs_matrix h of
          None \<Rightarrow> True
        | Some ls \<Rightarrow> length ls = (if hs_chroma h = 3 then 12 else 8)
            \<and> (\<forall>i < length ls. case ls ! i of None \<Rightarrow> True | Some ds \<Rightarrow> deltas (if i < 6 then 16 else 64) 8 8 ds))"

definition poc_ok :: "poc_syntax \<Rightarrow> bool" where
  "poc_ok p \<longleftrightarrow> (case p of
     Poc0 lsb \<Rightarrow> code_ok lsb
   | Poc1 _ a b cycle \<Rightarrow> code_ok (length cycle) \<and> (\<forall>x \<in> set (a # b # cycle). \<bar>x\<bar> < 2 ^ 32)
   | PocOther t \<Rightarrow> 1 < t \<and> code_ok t)"

definition sps_ok :: "sps_syntax \<Rightarrow> bool" where
  "sps_ok s \<longleftrightarrow> ss_profile s < 256 \<and> list_all code_ok [ss_id s, ss_frame_num s, ss_refs s, ss_width_mbs s, ss_height_units s]
     \<and> high_ok (ss_high s) \<and> poc_ok (ss_poc s)
     \<and> (case ss_crop s of None \<Rightarrow> True | Some (l, r, t, b) \<Rightarrow> list_all code_ok [l, r, t, b])"

subsection \<open>Reading the parts\<close>

lemma scaling_list_read:
  "at_bits d pos (concat (map se_bits ds)) \<Longrightarrow> deltas k l n ds \<Longrightarrow> 0 \<le> l \<Longrightarrow> l < 256 \<Longrightarrow>
   sp_scaling_list k l n d pos = Some (pos + length (concat (map se_bits ds)))"
proof (induction k arbitrary: l n ds pos)
  case (Suc k)
  show ?case
  proof (cases "n = 0")
    case True
    then show ?thesis using Suc.IH [OF Suc.prems(1), of l n] Suc.prems by simp
  next
    case False
    obtain x r where ds: "ds = x # r" using Suc.prems(2) False by (cases ds) simp_all
    define n1 where "n1 = (l + x + 256) mod 256"
    have x: "- 128 \<le> x" "x \<le> 127" "deltas k (if n1 \<noteq> 0 then n1 else l) n1 r" using Suc.prems(2) False unfolding ds n1_def Let_def deltas.simps list.case by auto
    have se: "sp_se d pos = Some (x, pos + length (se_bits x))"
      using se_bits_read [of d pos x] Suc.prems(1) x by (simp add: ds)
    have w: "i64_wrap y = y" if "\<bar>y\<bar> < 2 ^ 63" for y
      unfolding i64_wrap_def using that by (simp add: sint_sbintrunc' signed_take_bit_int_eq_self)
    have "i64_wrap (i64_wrap (l + x) + 256) = l + x + 256" using w [of "l + x"] w [of "l + x + 256"] x Suc.prems(3,4) by simp
    then have rem: "rust_rem (i64_wrap (i64_wrap (l + x) + 256)) 256 = n1"
      using x Suc.prems(3) by (simp add: rust_rem_def n1_def sgn_if)
    have n1: "0 \<le> n1" "n1 < 256" by (simp_all add: n1_def)
    have "sp_scaling_list (Suc k) l n d pos = sp_scaling_list k (if n1 \<noteq> 0 then n1 else l) n1 d (pos + length (se_bits x))"
      using False by (simp add: se rem)
    also have "\<dots> = Some (pos + length (se_bits x) + length (concat (map se_bits r)))"
      by (rule Suc.IH) (use Suc.prems x n1 in \<open>simp_all add: ds\<close>)
    finally show ?thesis by (simp add: ds add.assoc)
  qed
qed simp

lemma scaling_matrix_read:
  "at_bits d pos (concat (map list_bits ls)) \<Longrightarrow>
   \<forall>j < length ls. (case ls ! j of None \<Rightarrow> True | Some ds \<Rightarrow> deltas (if i + j < 6 then 16 else 64) 8 8 ds) \<Longrightarrow>
   sp_scaling_matrix (length ls) i d pos = Some (pos + length (concat (map list_bits ls)))"
proof (induction ls arbitrary: i pos)
  case (Cons a ls)
  have tl: "\<forall>j < length ls. (case ls ! j of None \<Rightarrow> True | Some ds \<Rightarrow> deltas (if Suc i + j < 6 then 16 else 64) 8 8 ds)"
  proof (intro allI impI)
    fix j assume "j < length ls"
    then show "case ls ! j of None \<Rightarrow> True | Some ds \<Rightarrow> deltas (if Suc i + j < 6 then 16 else 64) 8 8 ds"
      using Cons.prems(2) [rule_format, of "Suc j"] unfolding add_Suc add_Suc_right nth_Cons_Suc by (simp only: length_Cons Suc_less_eq)
  qed
  have IH: "sp_scaling_matrix (length ls) (Suc i) d (pos + length (list_bits a)) = Some (pos + length (list_bits a) + length (concat (map list_bits ls)))"
    by (rule Cons.IH [OF _ tl]) (use Cons.prems(1) in simp)
  show ?case
  proof (cases a)
    case None
    then have l: "list_bits a = [False]" by (simp add: list_bits_def)
    then have "sp_u 1 d pos = Some (0, Suc pos)" using u_bit [of d pos False] Cons.prems(1) by simp
    then show ?thesis using IH l by (simp add: add.assoc)
  next
    case (Some ds)
    then have l: "list_bits a = True # concat (map se_bits ds)" by (simp add: list_bits_def)
    have b: "sp_u 1 d pos = Some (1, Suc pos)" and at: "at_bits d (Suc pos) (concat (map se_bits ds))"
      using u_bit [of d pos True] Cons.prems(1) l by simp_all
    have dl: "deltas (if i < 6 then 16 else 64) 8 8 ds" using Cons.prems(2) [rule_format, of 0] Some by simp
    have "sp_scaling_list (if i < 6 then 16 else 64) 8 8 d (Suc pos) = Some (Suc pos + length (concat (map se_bits ds)))"
      by (rule scaling_list_read [OF at dl]) simp_all
    then show ?thesis using IH b l by (simp add: add.assoc)
  qed
qed simp

lemma high_read:
  assumes "at_bits d pos (high_bits h)" "high_ok h"
  shows "sp_high d pos = Some (pos + length (high_bits h))"
proof -
  let ?sep = "if hs_chroma h = 3 then [hs_separate h] else []"
  let ?m = "case hs_matrix h of None \<Rightarrow> [False] | Some ls \<Rightarrow> True # concat (map list_bits ls)"
  define p1 where "p1 = pos + length (ue_bits (hs_chroma h))"
  define p2 where "p2 = p1 + length ?sep"
  define p3 where "p3 = p2 + length (ue_bits (hs_luma_depth h))"
  define p4 where "p4 = p3 + length (ue_bits (hs_chroma_depth h))"
  have at: "at_bits d pos (ue_bits (hs_chroma h))" "at_bits d p1 ?sep" "at_bits d p2 (ue_bits (hs_luma_depth h))"
    "at_bits d p3 (ue_bits (hs_chroma_depth h))" "at_bits d p4 [hs_bypass h]" "at_bits d (Suc p4) ?m"
    using assms(1) unfolding high_bits_def at_append p1_def p2_def p3_def p4_def by (simp_all add: add.assoc)
  have ok: "hs_chroma h < 2 ^ 32" "hs_luma_depth h < 2 ^ 63" "hs_chroma_depth h < 2 ^ 63" using assms(2) by (simp_all add: high_ok_def)
  have three: "(of_nat (hs_chroma h) :: u64) = 3 \<longleftrightarrow> hs_chroma h = 3"
    using ok(1) by (auto simp: word_unat_eq_iff unat_of_nat)
  have r1: "sp_ue d pos = Some (of_nat (hs_chroma h), p1)" using ue_bits_read [OF at(1)] ok(1) by (simp add: p1_def)
  have r2: "(if hs_chroma h = 3 then sp_skip 1 d p1 else Some p1) = Some p2" using skip_bit [of d p1 "hs_separate h"] at(2) by (cases "hs_chroma h = 3") (simp_all add: p2_def)
  have r3: "sp_ue d p2 = Some (of_nat (hs_luma_depth h), p3)" "sp_ue d p3 = Some (of_nat (hs_chroma_depth h), p4)"
    using ue_bits_read [OF at(3) ok(2)] ue_bits_read [OF at(4) ok(3)] by (simp_all add: p3_def p4_def)
  have r5: "sp_skip 1 d p4 = Some (Suc p4)" using skip_bit [OF at(5)] .
  have len: "pos + length (high_bits h) = Suc p4 + length ?m" by (simp add: high_bits_def p1_def p2_def p3_def p4_def)
  show ?thesis
  proof (cases "hs_matrix h")
    case None
    have "sp_u 1 d (Suc p4) = Some (0, Suc (Suc p4))" using u_bit [of d "Suc p4" False] at(6) None by simp
    then show ?thesis unfolding len sp_high_def by (simp add: r1 three r2 r3 r5 [simplified] None)
  next
    case (Some ls)
    have m: "at_bits d (Suc (Suc p4)) (concat (map list_bits ls))" "sp_u 1 d (Suc p4) = Some (1, Suc (Suc p4))"
      using u_bit [of d "Suc p4" True] at(6) Some by simp_all
    have ls: "length ls = (if hs_chroma h = 3 then 12 else 8)"
      "\<forall>j < length ls. (case ls ! j of None \<Rightarrow> True | Some ds \<Rightarrow> deltas (if 0 + j < 6 then 16 else 64) 8 8 ds)"
      using assms(2) unfolding high_ok_def Some option.case add_0 by blast+
    have "sp_scaling_matrix (if hs_chroma h = 3 then 12 else 8) 0 d (Suc (Suc p4)) = Some (Suc (Suc p4) + length (concat (map list_bits ls)))"
      using scaling_matrix_read [OF m(1) ls(2)] ls(1) by simp
    then show ?thesis unfolding len sp_high_def using m(2) by (simp add: r1 three r2 r3 r5 [simplified] Some)
  qed
qed

lemma skip_se_read:
  "at_bits d pos (concat (map se_bits cycle)) \<Longrightarrow> \<forall>x \<in> set cycle. \<bar>x\<bar> < 2 ^ 32 \<Longrightarrow>
   sp_skip_se (length cycle) d pos = Some (pos + length (concat (map se_bits cycle)))"
proof (induction cycle arbitrary: pos)
  case (Cons x cycle)
  have "sp_se d pos = Some (x, pos + length (se_bits x))" using se_bits_read [of d pos x] Cons.prems by simp
  then show ?case using Cons.IH [of "pos + length (se_bits x)"] Cons.prems by (simp add: add.assoc)
qed simp

lemma poc_read:
  assumes "at_bits d pos (poc_bits p)" "poc_ok p"
  shows "sp_poc d pos = Some (pos + length (poc_bits p))"
proof (cases p)
  case (Poc0 lsb)
  have "sp_ue d pos = Some (0, pos + length (ue_bits 0))" using ue_bits_read [of d pos 0] assms(1) by (simp add: Poc0 poc_bits_def)
  moreover have "sp_ue d (pos + length (ue_bits 0)) = Some (of_nat lsb, pos + length (ue_bits 0) + length (ue_bits lsb))"
    using ue_bits_read [of d _ lsb] assms by (simp add: Poc0 poc_bits_def poc_ok_def)
  ultimately show ?thesis by (simp add: sp_poc_def Poc0 poc_bits_def add.assoc)
next
  case (PocOther t)
  have t: "1 < t" "t < 2 ^ 32" using assms(2) by (simp_all add: PocOther poc_ok_def)
  have "sp_ue d pos = Some (of_nat t, pos + length (ue_bits t))" using ue_bits_read [of d pos t] assms(1) t by (simp add: PocOther poc_bits_def)
  moreover have "(of_nat t :: u64) \<noteq> 0" "(of_nat t :: u64) \<noteq> 1" using t by (auto simp: word_unat_eq_iff unat_of_nat)
  ultimately show ?thesis by (simp add: sp_poc_def PocOther poc_bits_def)
next
  case (Poc1 z a b cycle)
  define p1 where "p1 = pos + length (ue_bits 1)"
  define p2 where "p2 = Suc p1 + length (se_bits a)"
  define p3 where "p3 = p2 + length (se_bits b)"
  define p4 where "p4 = p3 + length (ue_bits (length cycle))"
  have at: "at_bits d pos (ue_bits 1)" "at_bits d p1 [z]" "at_bits d (Suc p1) (se_bits a)" "at_bits d p2 (se_bits b)"
    "at_bits d p3 (ue_bits (length cycle))" "at_bits d p4 (concat (map se_bits cycle))"
    using assms(1) unfolding Poc1 poc_bits_def poc_syntax.case at_append p1_def p2_def p3_def p4_def by (simp_all add: add.assoc)
  have ok: "\<bar>a\<bar> < 2 ^ 61" "\<bar>b\<bar> < 2 ^ 61" "length cycle < 2 ^ 32" "\<forall>x \<in> set cycle. \<bar>x\<bar> < 2 ^ 32" using assms(2) by (simp_all add: Poc1 poc_ok_def)
  have r: "sp_ue d pos = Some (1, p1)" "sp_skip 1 d p1 = Some (Suc p1)" "sp_se d (Suc p1) = Some (a, p2)" "sp_se d p2 = Some (b, p3)"
    "sp_ue d p3 = Some (of_nat (length cycle), p4)" "sp_skip_se (length cycle) d p4 = Some (p4 + length (concat (map se_bits cycle)))"
    using ue_bits_read [OF at(1)] skip_bit [OF at(2)] se_bits_read [OF at(3) ok(1)] se_bits_read [OF at(4) ok(2)] ue_bits_read [OF at(5)]
      skip_se_read [OF at(6) ok(4)] ok(3) by (simp_all add: p1_def p2_def p3_def p4_def)
  have "unat (of_nat (length cycle) :: u64) = length cycle" using ok(3) by (simp add: unat_of_nat)
  then show ?thesis using r by (simp add: sp_poc_def Poc1 poc_bits_def p1_def p2_def p3_def p4_def)
qed

lemma crop_read:
  assumes "at_bits d pos (crop_bits c)" "case c of None \<Rightarrow> True | Some (l, r, t, b) \<Rightarrow> list_all code_ok [l, r, t, b]"
  shows "\<exists>p. sp_crop d pos = Some (case c of None \<Rightarrow> (0, 0, 0, 0) | Some (l, r, t, b) \<Rightarrow> (of_nat l, of_nat r, of_nat t, of_nat b), p)"
proof (cases c)
  case None
  then show ?thesis using u_bit [of d pos False] assms(1) by (simp add: crop_bits_def sp_crop_def)
next
  case (Some q)
  obtain l r t b where q: "q = (l, r, t, b)" by (metis prod_cases4)
  define p1 where "p1 = Suc pos + length (ue_bits l)"
  define p2 where "p2 = p1 + length (ue_bits r)"
  define p3 where "p3 = p2 + length (ue_bits t)"
  have at: "at_bits d pos [True]" "at_bits d (Suc pos) (ue_bits l)" "at_bits d p1 (ue_bits r)" "at_bits d p2 (ue_bits t)" "at_bits d p3 (ue_bits b)"
    using assms(1) unfolding Some q crop_bits_def option.case prod.case at_append p1_def p2_def p3_def by (simp_all add: add.assoc)
  have ok: "l < 2 ^ 63" "r < 2 ^ 63" "t < 2 ^ 63" "b < 2 ^ 63" using assms(2) by (simp_all add: Some q)
  have "sp_u 1 d pos = Some (1, Suc pos)" "sp_ue d (Suc pos) = Some (of_nat l, p1)" "sp_ue d p1 = Some (of_nat r, p2)"
    "sp_ue d p2 = Some (of_nat t, p3)" "sp_ue d p3 = Some (of_nat b, p3 + length (ue_bits b))"
    using u_bit [OF at(1)] ue_bits_read [OF at(2) ok(1)] ue_bits_read [OF at(3) ok(2)] ue_bits_read [OF at(4) ok(3)] ue_bits_read [OF at(5) ok(4)]
    by (simp_all add: p1_def p2_def p3_def)
  then show ?thesis by (simp add: sp_crop_def Some q)
qed

text \<open>
  The size the standard assigns: whole macroblocks less the cropping, counted in units that
  depend on the chroma sampling (\<open>ChromaArrayType\<close>, \<open>SubWidthC\<close>, \<open>SubHeightC\<close> of section 6.2 and
  7.4.2.1.1 of H.264; a profile without the syntax element is 4:2:0, and planes coded separately
  count as monochrome). Values above 3 are reserved.
\<close>

definition crop_of :: "sps_syntax \<Rightarrow> nat \<times> nat \<times> nat \<times> nat" where
  "crop_of s = (case ss_crop s of None \<Rightarrow> (0, 0, 0, 0) | Some c \<Rightarrow> c)"

definition chroma_array :: "sps_syntax \<Rightarrow> nat" where
  "chroma_array s =
     (if \<not> high_profile (ss_profile s) then 1
      else if hs_chroma (ss_high s) = 3 \<and> hs_separate (ss_high s) then 0 else hs_chroma (ss_high s))"

definition sub_width :: "nat \<Rightarrow> int" where
  "sub_width c = (if c = 1 \<or> c = 2 then 2 else 1)"

definition sub_height :: "nat \<Rightarrow> int" where
  "sub_height c = (if c = 1 then 2 else 1)"

definition picture_size :: "int \<Rightarrow> int \<Rightarrow> sps_syntax \<Rightarrow> int \<times> int" where
  "picture_size cx cy s = (case crop_of s of (l, r, t, b) \<Rightarrow>
     (16 * (int (ss_width_mbs s) + 1) - cx * (int l + int r),
      (if ss_frame_mbs_only s then 1 else 2) * (16 * (int (ss_height_units s) + 1) - cy * (int t + int b))))"

definition standard_size :: "sps_syntax \<Rightarrow> int \<times> int" where
  "standard_size s = picture_size (sub_width (chroma_array s)) (sub_height (chroma_array s)) s"

text \<open>The parameter sets whose cropping counts as in 4:2:0: every uncropped one among them.\<close>

definition crop_as_420 :: "sps_syntax \<Rightarrow> bool" where
  "crop_as_420 s \<longleftrightarrow> (case crop_of s of (l, r, t, b) \<Rightarrow>
     (chroma_array s = 1 \<or> chroma_array s = 2 \<or> l + r = 0) \<and> (chroma_array s = 1 \<or> t + b = 0))"

text \<open>A size that is not empty and fits 16 bits.\<close>

definition as_u16s :: "int \<times> int \<Rightarrow> (u16 \<times> u16) option" where
  "as_u16s wh = (case wh of (w, h) \<Rightarrow>
     if 0 < w \<and> w \<le> 65535 \<and> 0 < h \<and> h \<le> 65535 then Some (word_of_int w, word_of_int h) else None)"

lemma standard_size_420: "standard_size s = picture_size 2 2 s \<longleftrightarrow> crop_as_420 s"
  by (auto simp: standard_size_def picture_size_def crop_as_420_def sub_width_def sub_height_def split: prod.splits)

lemma guarded:
  "(do { x \<leftarrow> (if P then Some a else None); y \<leftarrow> (if Q then Some b else None); f x y }) = (if P \<and> Q then f a b else None)"
  by simp

lemma size_read:
  fixes f :: bool
  assumes "l < 2 ^ 32" "r < 2 ^ 32" "t < 2 ^ 32" "b < 2 ^ 32" "w < 2 ^ 32" "h < 2 ^ 32"
  defines "W \<equiv> 16 * (int w + 1) - 2 * (int l + int r)"
  defines "H \<equiv> (if f then 1 else 2) * (16 * (int h + 1) - 2 * (int t + int b))"
  shows "sp_size (of_nat (w + 1)) (of_nat (h + 1)) (of_bool f) (of_nat l, of_nat r, of_nat t, of_nat b)
    = (if 0 < W \<and> W \<le> 65535 \<and> 0 < H \<and> H \<le> 65535 then Some (word_of_int W, word_of_int H) else None)"
proof -
  let ?k = "if f then 1 else 2 :: nat"
  have mul: "checked_mul (of_nat a) (of_nat c) = Some (of_nat (a * c) :: u64)" if "a * c < 2 ^ 64" "a < 2 ^ 64" "c < 2 ^ 64" for a c
    using that by (simp add: checked_mul_def unat_of_nat)
  have sub: "checked_sub (of_nat a) (of_nat c) = (if c \<le> a then Some (of_nat (a - c) :: u64) else None)" if "a < 2 ^ 64" "c < 2 ^ 64" for a c
    using that by (simp add: checked_sub_def word_le_nat_alt unat_of_nat of_nat_diff)
  have two: "2 - of_bool f = (of_nat ?k :: u64)" by simp
  have k: "?k \<le> 2" by simp
  have b1: "(h + 1) * 16 * ?k < 2 ^ 64" "(h + 1) * 16 < 2 ^ 64" "(w + 1) * 16 < 2 ^ 64" "(l + r) * 2 < 2 ^ 64" "(t + b) * 2 * ?k < 2 ^ 64"
    using assms(1-6) by (auto split: if_splits)
  have sixteen: "(of_nat 16 :: u64) = 16" by simp
  have m: "checked_mul (of_nat (w + 1)) 16 = Some (of_nat ((w + 1) * 16) :: u64)" "checked_mul (of_nat (h + 1)) 16 = Some (of_nat ((h + 1) * 16) :: u64)"
    "checked_mul (of_nat ((h + 1) * 16)) (of_nat ?k) = Some (of_nat ((h + 1) * 16 * ?k) :: u64)"
  proof -
    have lt: "w + 1 < 2 ^ 64" "h + 1 < 2 ^ 64" "(16 :: nat) < 2 ^ 64" "?k < 2 ^ 64" using b1 by (linarith | simp)+
    show "checked_mul (of_nat (w + 1)) 16 = Some (of_nat ((w + 1) * 16) :: u64)" using mul [OF b1(3) lt(1,3)] unfolding sixteen .
    show "checked_mul (of_nat (h + 1)) 16 = Some (of_nat ((h + 1) * 16) :: u64)" using mul [OF b1(2) lt(2,3)] unfolding sixteen .
    show "checked_mul (of_nat ((h + 1) * 16)) (of_nat ?k) = Some (of_nat ((h + 1) * 16 * ?k) :: u64)" by (rule mul [OF b1(1,2) lt(4)])
  qed
  have c: "((of_nat l + of_nat r) * 2 :: u64) = of_nat ((l + r) * 2)" "((of_nat t + of_nat b) * 2 * of_nat ?k :: u64) = of_nat ((t + b) * 2 * ?k)"
    by simp_all
  have WH: "W = int ((w + 1) * 16) - int ((l + r) * 2)" "H = int ((h + 1) * 16 * ?k) - int ((t + b) * 2 * ?k)"
    by (simp_all add: W_def H_def algebra_simps)
  have fit: "(if of_nat x = (0 :: u64) \<or> of_nat y = (0 :: u64) \<or> 65535 < (of_nat x :: u64) \<or> 65535 < (of_nat y :: u64) then None
      else Some (ucast (of_nat x :: u64), ucast (of_nat y :: u64)))
    = (if 0 < int x \<and> int x \<le> 65535 \<and> 0 < int y \<and> int y \<le> 65535 then Some (word_of_int (int x) :: u16, word_of_int (int y) :: u16) else None)"
    if "x < 2 ^ 64" "y < 2 ^ 64" for x y
  proof -
    have "unat (of_nat x :: u64) = x" "unat (of_nat y :: u64) = y" using that by (simp_all add: unat_of_nat)
    then show ?thesis by (auto simp: word_unat_eq_iff [of _ "0 :: u64"] word_less_nat_alt unsigned_of_nat take_bit_nat_eq_self that)
  qed
  have "sp_size (of_nat (w + 1)) (of_nat (h + 1)) (of_bool f) (of_nat l, of_nat r, of_nat t, of_nat b)
    = (if (l + r) * 2 \<le> (w + 1) * 16 \<and> (t + b) * 2 * ?k \<le> (h + 1) * 16 * ?k
       then (if of_nat ((w + 1) * 16 - (l + r) * 2) = (0 :: u64) \<or> of_nat ((h + 1) * 16 * ?k - (t + b) * 2 * ?k) = (0 :: u64)
                \<or> 65535 < (of_nat ((w + 1) * 16 - (l + r) * 2) :: u64) \<or> 65535 < (of_nat ((h + 1) * 16 * ?k - (t + b) * 2 * ?k) :: u64) then None
             else Some (ucast (of_nat ((w + 1) * 16 - (l + r) * 2) :: u64), ucast (of_nat ((h + 1) * 16 * ?k - (t + b) * 2 * ?k) :: u64)))
       else None)"
    unfolding sp_size_def prod.case two c m Option.bind_lunit sub [OF b1(3,4)] sub [OF b1(1,5)] guarded ..
  also have "\<dots> = (if 0 < W \<and> W \<le> 65535 \<and> 0 < H \<and> H \<le> 65535 then Some (word_of_int W, word_of_int H) else None)"
  proof (cases "(l + r) * 2 \<le> (w + 1) * 16 \<and> (t + b) * 2 * ?k \<le> (h + 1) * 16 * ?k")
    case True
    have x: "(w + 1) * 16 - (l + r) * 2 < 2 ^ 64" "(h + 1) * 16 * ?k - (t + b) * 2 * ?k < 2 ^ 64" using b1 by linarith+
    have "W = int ((w + 1) * 16 - (l + r) * 2)" "H = int ((h + 1) * 16 * ?k - (t + b) * 2 * ?k)"
      unfolding WH using True by (simp_all only: of_nat_diff)
    then show ?thesis unfolding if_P [OF True] fit [OF x] by (simp only:)
  next
    case False
    then have "\<not> (0 < W \<and> 0 < H)" unfolding WH by linarith
    then show ?thesis unfolding if_not_P [OF False] by auto
  qed
  finally show ?thesis .
qed

lemma sp_unescape_escape: "sp_unescape z (escape z p) = p"
proof (induction p arbitrary: z)
  case (Cons b p)
  have "sp_unescape 0 (b # q) = b # sp_unescape (if b = 0 then 1 else 0) q" for q by simp
  then show ?case using Cons.IH by auto
qed simp

lemma profile_word: "p < 256 \<Longrightarrow> (of_nat p :: u64) \<in> {100, 110, 122, 244, 44, 83, 86, 118, 128, 138, 139, 134, 135} \<longleftrightarrow> high_profile p"
  by (simp add: high_profile_def word_unat_eq_iff unat_of_nat)

lemma add_one: "v < 2 ^ 32 \<Longrightarrow> checked_add (of_nat v) 1 = Some (of_nat (v + 1) :: u64)"
  by (simp add: checked_add_def unat_of_nat)

text \<open>
  C29: The picture size of the H.264 standard is read back from every sequence parameter set,
  escaped as an encoder escapes it, with any profile, scaling matrices, order-count syntax and
  field coding, when its cropping counts as in 4:2:0 sampling: when it is 4:2:0, or is not
  cropped, or is 4:2:2 cropped at the sides only. For any other cropped parameter set the
  standard's size is different: the function always counts the cropping in 4:2:0 units. A size
  that is empty or does not fit 16 bits is refused.
\<close>

theorem sps_dimensions:
  assumes "sps_ok s" "at_bits d 0 (sps_bits s)"
  shows "dimensions (0x67 # escape 0 d) = as_u16s (picture_size 2 2 s)
    \<and> (crop_as_420 s \<longrightarrow> dimensions (0x67 # escape 0 d) = as_u16s (standard_size s))
    \<and> (\<not> crop_as_420 s \<longrightarrow> standard_size s \<noteq> picture_size 2 2 s)"
proof -
  let ?high = "if high_profile (ss_profile s) then high_bits (ss_high s) else []"
  let ?fld = "if ss_frame_mbs_only s then [] else [ss_mb_adaptive s]"
  define p1 where "p1 = 24 + length (ue_bits (ss_id s))"
  define p2 where "p2 = p1 + length ?high"
  define p3 where "p3 = p2 + length (ue_bits (ss_frame_num s))"
  define p4 where "p4 = p3 + length (poc_bits (ss_poc s))"
  define p5 where "p5 = p4 + length (ue_bits (ss_refs s))"
  define p6 where "p6 = Suc p5 + length (ue_bits (ss_width_mbs s))"
  define p7 where "p7 = p6 + length (ue_bits (ss_height_units s))"
  define p8 where "p8 = Suc p7 + length ?fld"
  have at: "at_bits d 0 (nbits 8 (ss_profile s))" "at_bits d 8 (nbits 8 (ss_constraints s))" "at_bits d 16 (nbits 8 (ss_level s))"
    "at_bits d 24 (ue_bits (ss_id s))" "at_bits d p1 ?high" "at_bits d p2 (ue_bits (ss_frame_num s))" "at_bits d p3 (poc_bits (ss_poc s))"
    "at_bits d p4 (ue_bits (ss_refs s))" "at_bits d p5 [ss_gaps s]" "at_bits d (Suc p5) (ue_bits (ss_width_mbs s))"
    "at_bits d p6 (ue_bits (ss_height_units s))" "at_bits d p7 [ss_frame_mbs_only s]" "at_bits d (Suc p7) ?fld" "at_bits d p8 [ss_direct_8x8 s]"
    "at_bits d (Suc p8) (crop_bits (ss_crop s))"
    using assms(2) unfolding sps_bits_def at_append length_nbits p1_def p2_def p3_def p4_def p5_def p6_def p7_def p8_def
    by (simp_all add: add.assoc)
  have ok: "ss_profile s < 256" "ss_id s < 2 ^ 63" "ss_frame_num s < 2 ^ 63" "ss_refs s < 2 ^ 63" "ss_width_mbs s < 2 ^ 32" "ss_height_units s < 2 ^ 32"
    "high_ok (ss_high s)" "poc_ok (ss_poc s)" "case ss_crop s of None \<Rightarrow> True | Some (l, r, t, b) \<Rightarrow> list_all code_ok [l, r, t, b]"
    using assms(1) by (simp_all add: sps_ok_def)
  have r1: "sp_u 8 d 0 = Some (of_nat (ss_profile s), 8)" "sp_skip 8 d 8 = Some 16" "sp_skip 8 d 16 = Some 24"
    using u_bits [OF at(1)] u_bits [OF at(2)] u_bits [OF at(3)] ok(1) by (simp_all add: sp_skip_def)
  have r2: "sp_ue d 24 = Some (of_nat (ss_id s), p1)" using ue_bits_read [OF at(4) ok(2)] by (simp add: p1_def)
  have r3: "(if high_profile (ss_profile s) then sp_high d p1 else Some p1) = Some p2"
    using high_read [of d p1 "ss_high s"] at(5) ok(7) by (cases "high_profile (ss_profile s)") (simp_all add: p2_def)
  have r4: "sp_ue d p2 = Some (of_nat (ss_frame_num s), p3)" "sp_poc d p3 = Some p4" "sp_ue d p4 = Some (of_nat (ss_refs s), p5)"
    using ue_bits_read [OF at(6) ok(3)] poc_read [OF at(7) ok(8)] ue_bits_read [OF at(8) ok(4)] by (simp_all add: p3_def p4_def p5_def)
  have r5: "sp_skip 1 d p5 = Some (Suc p5)" "sp_ue d (Suc p5) = Some (of_nat (ss_width_mbs s), p6)" "sp_ue d p6 = Some (of_nat (ss_height_units s), p7)"
    using skip_bit [OF at(9)] ue_bits_read [OF at(10)] ue_bits_read [OF at(11)] ok(5,6) by (simp_all add: p6_def p7_def)
  have r6: "sp_u 1 d p7 = Some (of_bool (ss_frame_mbs_only s), Suc p7)" by (rule u_bit [OF at(12)])
  have r7: "(if of_bool (ss_frame_mbs_only s) = (0 :: u64) then sp_skip 1 d (Suc p7) else Some (Suc p7)) = Some p8"
    using skip_bit [of d "Suc p7" "ss_mb_adaptive s"] at(13) by (cases "ss_frame_mbs_only s") (simp_all add: p8_def)
  have r8: "sp_skip 1 d p8 = Some (Suc p8)" by (rule skip_bit [OF at(14)])
  obtain l r t b where c: "crop_of s = (l, r, t, b)" by (metis prod_cases4)
  have lrtb: "l < 2 ^ 32" "r < 2 ^ 32" "t < 2 ^ 32" "b < 2 ^ 32" using c ok(9) by (auto simp: crop_of_def split: option.splits)
  obtain q where r9: "sp_crop d (Suc p8) = Some ((of_nat l, of_nat r, of_nat t, of_nat b), q)"
    using crop_read [OF at(15) ok(9)] c by (auto simp: crop_of_def split: option.splits)
  have hdr: "((0x67 :: u8) AND 0x1F = 7 \<and> (0x67 :: u8) AND 0x80 = 0) = True" by simp
  have "dimensions (0x67 # escape 0 d)
      = sp_size (of_nat (ss_width_mbs s + 1)) (of_nat (ss_height_units s + 1)) (of_bool (ss_frame_mbs_only s)) (of_nat l, of_nat r, of_nat t, of_nat b)"
    unfolding dimensions_def Let_def list.sel hdr if_True if_False list.simps sp_unescape_escape
    by (simp only: r1 r2 r4 r5 r6 r7 r8 r9 Option.bind_lunit prod.case profile_word [OF ok(1)] r3 add_one [OF ok(5)] add_one [OF ok(6)] list.distinct if_False)
  also have "\<dots> = as_u16s (picture_size 2 2 s)"
    unfolding size_read [OF lrtb ok(5,6)] by (simp add: as_u16s_def picture_size_def c)
  finally show ?thesis using standard_size_420 [of s] by metis
qed

text \<open>A 640 by 360 baseline parameter set as x264 writes it.\<close>

lemma nbits_numeral: "nbits (numeral k) v = odd (v div 2 ^ pred_numeral k) # nbits (pred_numeral k) v"
  by (simp add: numeral_eq_Suc)

definition demo_sps :: sps_syntax where
  "demo_sps = \<lparr>ss_profile = 66, ss_constraints = 0xc0, ss_level = 30, ss_id = 0,
     ss_high = \<lparr>hs_chroma = 1, hs_separate = False, hs_luma_depth = 0, hs_chroma_depth = 0, hs_bypass = False, hs_matrix = None\<rparr>,
     ss_frame_num = 0, ss_poc = PocOther 2, ss_refs = 3, ss_gaps = False, ss_width_mbs = 39, ss_height_units = 22,
     ss_frame_mbs_only = True, ss_mb_adaptive = False, ss_direct_8x8 = True, ss_crop = Some (0, 0, 0, 4)\<rparr>"

definition bits_of :: "bytes \<Rightarrow> bool list" where
  "bits_of d = map (\<lambda>j. bit (d ! (j div 8)) (7 - j mod 8)) [0..<8 * length d]"

lemma at_bits_nth:
  "at_bits d pos bs \<longleftrightarrow> (\<forall>j < length bs. (pos + j) div 8 < length d \<and> bit (d ! ((pos + j) div 8)) (7 - (pos + j) mod 8) = bs ! j)"
proof (induction bs arbitrary: pos)
  case (Cons b bs)
  show ?case unfolding at_bits.simps Cons.IH length_Cons All_less_Suc2 by simp
qed simp

lemma at_bits_of: "at_bits d 0 (bits_of d)"
  unfolding at_bits_nth by (simp add: bits_of_def less_mult_imp_div_less mult.commute)

lemma demo_sps_ok: "sps_ok demo_sps"
  by (simp add: sps_ok_def demo_sps_def high_ok_def poc_ok_def)

lemma demo_codes:
  "ue_bits 0 = [True]" "ue_bits 2 = [False, True, True]" "ue_bits 3 = [False, False, True, False, False]"
  "ue_bits 4 = [False, False, True, False, True]"
  "ue_bits 22 = [False, False, False, False, True, False, True, True, True]"
  "ue_bits 39 = [False, False, False, False, False, True, False, True, False, False, False]"
  "nbits 8 66 = [False, True, False, False, False, False, True, False]" "nbits 8 0xc0 = [True, True, False, False, False, False, False, False]"
  "nbits 8 30 = [False, False, False, True, True, True, True, False]"
  by (simp_all add: ue_bits_def ilog2.simps nbits_numeral)

lemma demo_sps_bits: "at_bits [0x42, 0xc0, 0x1e, 0xd9, 0x00, 0xa0, 0x2f, 0xf9, 0x50] 0 (sps_bits demo_sps)"
proof -
  let ?d = "[0x42, 0xc0, 0x1e, 0xd9, 0x00, 0xa0, 0x2f, 0xf9, 0x50] :: bytes"
  let ?bs = "map (\<lambda>b. b = (1 :: nat)) ([0,1,0,0,0,0,1,0] @ [1,1,0,0,0,0,0,0] @ [0,0,0,1,1,1,1,0] @ [1,1,0,1,1,0,0,1]
      @ [0,0,0,0,0,0,0,0] @ [1,0,1,0,0,0,0,0] @ [0,0,1,0,1,1,1,1] @ [1,1,1,1,1,0,0,1] @ [0,1])"
  have bits: "sps_bits demo_sps = ?bs"
    by (simp add: sps_bits_def demo_sps_def high_profile_def poc_bits_def crop_bits_def demo_codes)
  have "bits_of ?d = ?bs @ [False, True, False, False, False, False]"
    by (simp add: bits_of_def upt_rec)
  then have "at_bits ?d 0 (?bs @ [False, True, False, False, False, False])" using at_bits_of [of ?d] by (simp only:)
  then have "at_bits ?d 0 ?bs" unfolding at_append by (rule conjunct1)
  then show ?thesis unfolding bits .
qed

theorem sps_dimensions_witness:
  "crop_as_420 demo_sps \<and> standard_size demo_sps = (640, 360)
   \<and> dimensions (0x67 # escape 0 [0x42, 0xc0, 0x1e, 0xd9, 0x00, 0xa0, 0x2f, 0xf9, 0x50]) = Some (640, 360)"
proof -
  have c: "crop_as_420 demo_sps" by (simp add: crop_as_420_def crop_of_def chroma_array_def high_profile_def demo_sps_def)
  then have size: "standard_size demo_sps = (640, 360)"
    unfolding standard_size_420 [symmetric] by (simp add: picture_size_def crop_of_def demo_sps_def)
  have "dimensions (0x67 # escape 0 [0x42, 0xc0, 0x1e, 0xd9, 0x00, 0xa0, 0x2f, 0xf9, 0x50]) = as_u16s (standard_size demo_sps)"
    using sps_dimensions [OF demo_sps_ok demo_sps_bits] c by blast
  then show ?thesis using c size by (simp add: as_u16s_def)
qed

end
