(* ===== verification/Spec2Isabelle.thy ===== *)
theory Spec2Isabelle
  imports Node_Props Supervisor_Inv Session_Props Keydir Hls_Date Ingest Fast_Tier Rtp_Bounds Sps_Props
begin

text \<open>
  A verification development of unstation, a peer-to-peer live-video mesh.

  \<^bold>\<open>The program.\<close> A publisher encodes live video into CMAF fragments
  (\<open>src/infra/segmenter\<close>), numbers them and announces the content id of each. Every
  participant runs a mesh node (\<open>src/crates/unstation-core/src/node.rs\<close>), a single task that
  receives events (links, inbound messages, produced segments, ticks) and picks, requests,
  reassembles, verifies, stores, forwards and plays segments. Peers find each other and
  exchange SDP through a public statement store (\<open>unstation-core\<close>: topics, chat codec,
  in-memory store; \<open>unstation-chain\<close>: sealed envelopes and records on the real store), driven by
  a session (\<open>unstation-session\<close>) that owns discovery, dialling and the signal relay. Seeds run
  a daemon (\<open>unstation-node\<close>) that accepts signed recruitments and supervises one worker per
  stream.

  \<^bold>\<open>Conventions.\<close> Machine integers are words of their width, so additions wrap as in a release
  build; \<open>usize\<close> counts and lengths are natural numbers; \<open>f64\<close> is \<open>real\<close>. A \<open>HashMap\<close> is an
  association list with one entry per key (\<open>hm_*\<close> of Prelude), a \<open>BTreeMap\<close> a sorted one
  (\<open>bt_*\<close>). Byte arrays and strings are lists of bytes; where the code works on characters a
  string is a list of code points. Instants are nanoseconds. Effects (messages sent, bytes
  pushed to the player, calls of the transport) are appended to output lists of the state;
  faults (a disk write that fails, a failed read of the store) and random draws are arguments.
  Code outside the repository (the hash, signature, key agreement and AEAD libraries, the
  compact integers of parity-scale-codec) is a record of functions (\<open>libs\<close>, \<open>scale\<close>), and what
  the code relies on of it is a locale of laws (\<open>scale_codec\<close>) or a named hypothesis
  (\<open>aead_ok\<close>, \<open>dh_ok\<close>, \<open>sign_ok\<close>); each is met by a concrete instance (\<open>toy_scale\<close>, \<open>toy_libs\<close>)
  that the witnesses use. The encoders and decoders that parity-scale-codec derives for the types of
  the program are generated code: those written out here (\<open>enc_msg\<close>, \<open>dec_msg\<close>, \<open>enc_manifest\<close> and
  their like) follow the documented SCALE layout of fields and variant indices and stand for it;
  no property is about them as such.

  \<^bold>\<open>Theories, in dependency order.\<close>
  \<^item> Prelude: types, byte order, saturating arithmetic, maps, lemma collections.
  \<^item> Buffer_Map (\<open>buffermap.rs\<close>), Scale (the codec interface), Crypto (\<open>types.rs\<close>, \<open>crypto.rs\<close>),
    Wire (\<open>protocol.rs\<close>, \<open>signaling.rs\<close> records), Reassembly (\<open>reassembly.rs\<close>), Store (\<open>store.rs\<close>),
    Picker (\<open>config.rs\<close>, \<open>peer.rs\<close>, \<open>picker.rs\<close>, \<open>engine.rs\<close>), Signaling (presence book and ban
    list of \<open>signaling.rs\<close>), Rendezvous (\<open>topic.rs\<close>, \<open>chat_codec.rs\<close>, \<open>statement_store_mem.rs\<close>).
  \<^item> Node_State, Node_Events, Node_Tick: the node record and every function of \<open>node.rs\<close>.
    Node_View, Node_Inv, Node_Reach: the step relation of the node under arbitrary inputs, its
    invariant and the proof, operation by operation, that it is kept. Node_Props: what follows.
  \<^item> Volunteer (\<open>manifest.rs\<close>, \<open>origin_mem.rs\<close>, \<open>volunteer.rs\<close>), Chain (\<open>unstation-chain\<close>), Dialer
    and Session with Session_Props (\<open>unstation-session\<close>).
  \<^item> Supervisor and Supervisor_Inv (\<open>policy.rs\<close>, \<open>recruit.rs\<close>, \<open>streams.rs\<close>, \<open>worker.rs\<close>,
    \<open>supervisor.rs\<close> of \<open>unstation-node\<close>), Keydir (\<open>keydir.rs\<close> and the command line of \<open>main.rs\<close>).
  \<^item> H264_Poc (\<open>h264_poc.rs\<close>), Fmp4 with Fmp4_Props and Fragment_Builder (\<open>fmp4.rs\<close>).
  \<^item> Sps and Sps_Props (\<open>sps.rs\<close>), Rtp with Rtp_Props, Rtp_Loss and Rtp_Bounds (\<open>whip-ingest/src/rtp.rs\<close>).
  \<^item> Hls, Hls_Date, Hls_Props and Hls_Playlist (\<open>hls-server\<close>): the live window the player reads.
  \<^item> Broadcast: the track handlers of \<open>whip-ingest/src/server.rs\<close>, the feeder task of the publisher and
    the decrypting sink of the viewer (\<open>unstation-app/src/lib.rs\<close>), which join the components above.
    Ingest: the track between the depacketizer and the feeder. Fast_Tier (\<open>fasttier.rs\<close>, \<open>egress.rs\<close>): the
    publisher-direct tier. This theory: what holds across them.

  \<^bold>\<open>What is shown.\<close>
  \<^item> Node: only authentic bytes are played, kept or served whatever peers send; every resource a
    peer can make the node allocate is bounded; requests, hedges and budgets stay consistent.
  \<^item> Picker: every planned request is sound, and every segment close to its deadline is requested.
  \<^item> Data structures: the store refines a map, the buffer map holds exactly the marked window,
    reassembly yields exactly the sent segment under any order and duplication.
  \<^item> Manifests: a manifest verifies against the trust anchor only if it is, in every field, one the
    anchor signed; signed payloads determine every field.
  \<^item> Rendezvous: announced peers are found, signals are delivered in order, withdrawals and
    recruitments take effect exactly once.
  \<^item> Session: inbound signals are acted on once and never against the shield or the ban list;
    dialling is paced and bounded.
  \<^item> Daemon: stream counts, shares and budgets keep to the policy; eviction is exact; once
    a secret has been stored, the identity is one of the slot whatever writes fail.
  \<^item> Muxer: what is muxed is what is demuxed; timelines are contiguous and lose nothing.
  \<^item> Ingest: what is packetized is what is depacketized; what losses leave is characterised; picture
    sizes are those of the H.264 standard where the cropping counts as in 4:2:0, and only there.
  \<^item> Player, for parts pushed in ascending order: the live window is bounded and gapless, its
    playlists account for it exactly, what a listed address serves never changes, and a blocked
    reload returns with the next part or when a wait times out.
  \<^item> Across the components: what is sent over RTP is what is published, and what a viewer can be
    shown is what was published, through sealing, the mesh under hostile peers and the HLS window.
  \<^item> Fast tier: viewers are capped and decodable from any keyframe, answers are never stale, and the
    life of a viewer's thread is characterised.

  \<^bold>\<open>Bounds and fuel.\<close> No definition uses fuel: loops are structural recursions or have a
  termination proof (the spill loop of the store, the paced serve loop, the window trimming, the
  box and start-code scanners, the exponential-Golomb reader). Claims about reachable states
  quantify over runs of any length.

  \<^bold>\<open>Not modelled.\<close> The desktop application's window, menus and Tauri commands, the camera and the
  external encoder process, the WebRTC transport over libdatachannel, the HTTP and SDP exchange
  of the WHIP server and the statement store SDK are input and output around third-party libraries;
  tests, the network simulator's harness and logging are left out.
\<close>

section \<open>Across the components\<close>

text \<open>
  C3: From the encoder to the mesh. A stream of access units sent over RTP, each of well-formed
  NAL units and at most 4 MiB, with no timestamp before the first one (or 2^53 ticks after it) and no
  jump of more than ten seconds, whose first keyframe brings its parameter sets, goes through
  the WHIP track and the publisher's feeder (with timeouts, audio and its negotiation
  interleaved in any way) and leaves as fragments numbered from 0, each
  starting where the one before it ended, that together with what the muxer still holds contain
  exactly the samples of the stream from the first keyframe on, once and in order, with their
  keyframe flags. The node, the durable floor and the announced edges are told the same
  sequence of sealed fragments, and each opens to the fragment of the local preview.
\<close>

theorem ingest_reaches_mesh:
  assumes "us \<noteq> []" "pt_ok pt" "mtu \<le> MAX_RTP_LEN" "\<forall>u \<in> set us. unit_ok (fst u)" "in_time (snd (hd us)) us"
    and "dropWhile no_idr us \<noteq> []" "configures (fst (hd (dropWhile no_idr us)))"
    and "videos ts = track_run (send mtu (wire us) (packetizer_new ssrc pt)) depacketizer_new"
    and "\<forall>t \<in> set ts. nonces_ok t" "aead_ok L" "f = feed_run L key ts (feeder_new now)" "out = fd_out f"
  shows "\<exists>frags b. fd_fb f = Some b \<and> contiguous 0 0 frags \<and> previews out = map (\<lambda>g. (fr_seq g, sg_bytes (seg_of L g))) frags
    \<and> concat (map (units_of \<circ> fr_aus) frags) @ units_of (fb_pending b) = media_units (dropWhile no_idr us)
    \<and> edges_told out = map (\<lambda>(s, i, _). (s, i)) (produced out) \<and> durables out = map (\<lambda>(s, _, c). (s, c)) (produced out)
    \<and> list_all2 (\<lambda>(s, i, c) (s', p). s = s' \<and> i = segment_id_of L c \<and> opened L key c = Some p) (produced out) (previews out)"
proof -
  have c: "clk ts (clock_of depacketizer_new) = clk ts (None, 0, None)" for ts by (simp add: clock_of_def depacketizer_new_def)
  have m: "mid ts (clk ts (None, 0, None)) True [] (pk_seq (packetizer_new ssrc pt)) [] depacketizer_new" for ts
    by (simp add: mid_def c) (simp add: depacketizer_new_def)
  have pt: "pt_ok (pk_payload_type (packetizer_new ssrc pt))" using assms(2) by (simp add: packetizer_new_def)
  have v: "videos ts = [] \<or> (\<exists>au cfg rest. videos ts = Video au (Some cfg) # rest)"
    unfolding assms(8) by (rule stream_configured [OF m pt assms(3,4) _ assms(7)]) (simp add: untaken_def depacketizer_new_def)
  have units: "concat (map event_unit (videos ts)) = map (shown (snd (hd us))) (dropWhile no_idr us)"
    unfolding assms(8) track_units [OF refl] using stream_run [OF m pt assms(3-5)] assms(1) by (simp add: clk_first)
  then have "videos ts \<noteq> []" using assms(6) by (auto simp del: dropWhile_eq_Nil_conv)
  then have conf: "list_ex configured ts" using v configured_video by blast
  have "ingested ts = concat (map au_units (map (shown (snd (hd us))) (dropWhile no_idr us)))" unfolding units [symmetric] by (rule ingested_all [OF v])
  also have "\<dots> = media_units (dropWhile no_idr us)" by (rule shown_stream) (use assms(4) in \<open>auto dest: set_dropWhileD\<close>)
  finally have i: "ingested ts = media_units (dropWhile no_idr us)" .
  obtain frags b audio where t: "trace_ok (ingested ts) audio frags b" "told L key (map (seg_of L) frags) out" "fd_fb f = Some b"
    using feed_trace [of "feeder_new now" ts L key] assms(9,11,12) conf by (auto simp: feeder_new_def)
  have "sg_seq (seg_of L g) = fr_seq g" for g :: frag by (simp add: seg_of_def Let_def)
  then have "previews out = map (\<lambda>g. (fr_seq g, sg_bytes (seg_of L g))) frags" using t(2) by (simp add: told_def comp_def)
  then show ?thesis using t told_opens [OF assms(10) t(2)] unfolding trace_ok_def told_def i by blast
qed

theorem ingest_reaches_mesh_witness:
  "fd_fb (feed_run toy_libs (Some [7]) (map turn_of (track_run (send 16 (wire [([[0x41, 1]], 7), ([[0x67, 1], [0x68, 1], [0x65, 9]], 3007)])
     (packetizer_new 1 96)) depacketizer_new)) (feeder_new 0)) \<noteq> None"
  using ingest_reaches_mesh [of "[([[0x41, 1]], 7), ([[0x67, 1], [0x68, 1], [0x65, 9]], 3007)]" 96 16
      _ 1 toy_libs _ "Some [7]" 0, OF _ _ _ _ _ _ _ track_turns _ toy_aead_ok refl refl] turn_of_nonces
  by (auto simp: pt_ok_def unit_ok_def in_time_def nal_ok_def plain_nal_def idr_def configures_def MAX_RTP_LEN_def MAX_AU_BYTES_def
      MAX_TS_JUMP_def)

text \<open>
  C2: From the mesh to the player. Let a publisher run its feeder over any events, with or without
  a stream key, and let a viewer's node reach any state under hostile peers, trusting only edges
  that this publisher announced (directly, from the chain or by signature), with no hash collision
  between what it delivered and what was published. Then whatever the node's deliveries, in any
  order, put into the viewer's window, every address the player can fetch answers
  with published media or not at all: a part is exactly the published fragment of that number,
  and a segment is published fragments glued in ascending order. The fragments are the
  publisher's timeline, numbered from 0 without gaps, over the ingested media.
\<close>

theorem played_is_published:
  assumes "aead_ok L" "\<forall>t \<in> set ts. nonces_ok t" "f = feed_run L key ts (feeder_new now)"
    and "node_reach L sid A K n" "\<forall>s i. auth L sid A K s i \<longrightarrow> (s, i) \<in> set (edges_told (fd_out f))"
    and "\<forall>s b i c. PushSegment s b \<in> set (n_out n) \<longrightarrow> (s, i, c) \<in> set (produced (fd_out f))
       \<longrightarrow> segment_id_of L b = segment_id_of L c \<longrightarrow> b = c"
    and "snd ` set es \<subseteq> set (n_out n)" "g = sink_run L key es (started target ll part)"
  shows "\<exists>frags. contiguous 0 0 frags \<and> prefix (concat (map (units_of \<circ> fr_aus) frags)) (ingested ts)
    \<and> (\<forall>s ws h. hls_handle False (''/part/'' @ dec (unat s) @ ''.m4s'') ws g h = Some (Some Missing, h)
        \<or> (\<exists>k < length frags. s = of_nat k
            \<and> hls_handle False (''/part/'' @ dec (unat s) @ ''.m4s'') ws g h = Some (Some (Media (sg_bytes (seg_of L (frags ! k)))), s)))
    \<and> (\<forall>(m :: u64) ws h. \<exists>p h'. hls_handle False (''/seg/'' @ dec (unat m) @ ''.m4s'') ws g h = Some (Some p, h')
        \<and> (p = Missing \<or> (\<exists>ks. ks \<noteq> [] \<and> set ks \<subseteq> {..<length frags} \<and> ascending ks
            \<and> p = Media (concat (map (\<lambda>k. sg_bytes (seg_of L (frags ! k))) ks)))))"
proof -
  obtain frags b audio where f: "trace_ok (ingested ts) audio frags b" "told L key (map (seg_of L) frags) (fd_out f)"
    using feed_trace [of "feeder_new now" ts L key] assms(2,3) by (auto simp: feeder_new_def)
  have frags: "contiguous 0 0 frags" and "concat (map (units_of \<circ> fr_aus) frags) @ units_of (fb_pending b) = ingested ts"
    using f(1) by (simp_all add: trace_ok_def)
  then have media: "prefix (concat (map (units_of \<circ> fr_aus) frags)) (ingested ts)" by (metis prefixI)
  have w: "\<exists>k < length frags. s = of_nat k \<and> pt_bytes p = sg_bytes (seg_of L (frags ! k))" if "(s, p) \<in> set (sh_parts g)" for s p
    by (rule window_published [OF assms(1) f(2) frags assms(4-7)]) (use that assms(8) in simp)
  have "bt_ok (sh_parts g)" unfolding assms(8) by (rule bt_ok_sink) (simp add: started_def hls_new_def bt_ok_def)
  note answers = window_answers [OF w this]
  have parts: "hls_handle False (''/part/'' @ dec (unat s) @ ''.m4s'') ws g h = Some (Some Missing, h)
      \<or> (\<exists>k < length frags. s = of_nat k
          \<and> hls_handle False (''/part/'' @ dec (unat s) @ ''.m4s'') ws g h = Some (Some (Media (sg_bytes (seg_of L (frags ! k)))), s))" for s ws h
    unfolding handle_part using answers(1) [of s h] by auto
  have segs: "\<exists>p h'. hls_handle False (''/seg/'' @ dec (unat m) @ ''.m4s'') ws g h = Some (Some p, h')
      \<and> (p = Missing \<or> (\<exists>ks. ks \<noteq> [] \<and> set ks \<subseteq> {..<length frags} \<and> ascending ks
          \<and> p = Media (concat (map (\<lambda>k. sg_bytes (seg_of L (frags ! k))) ks))))" for m :: u64 and ws h
    unfolding handle_seg using answers(2) [of m h] by (cases "media_seg m g h") auto
  show ?thesis using frags media parts segs by blast
qed

theorem played_is_published_witness:
  "\<exists>i f n. f = feed_run toy_libs (Some [7]) demo_turns (feeder_new 0) \<and> (0, i) \<in> set (edges_told (fd_out f))
    \<and> node_reach toy_libs [7] {(0, i)} {} n
    \<and> (\<exists>frags :: frag list. contiguous 0 0 frags \<and> prefix (concat (map (units_of \<circ> fr_aus) frags)) (ingested demo_turns))"
proof -
  let ?f = "feed_run toy_libs (Some [7]) demo_turns (feeder_new 0)"
  obtain i where i: "(0, i) \<in> set (edges_told (fd_out ?f))" using demo_published by blast
  let ?n = "on_event demo_env (LiveEdge 0 i) demo_viewer"
  have r: "node_reach toy_libs [7] {(0, i)} {} ?n"
    using node_reach.event [OF demo_viewer_reach demo_env_libs, of "LiveEdge 0 i"] by (simp add: event_ok_def edges_of_def keys_of_def)
  have out: "n_out ?n = []"
    by (simp add: on_event_def demo_viewer_def with_stream_id_def new_viewer_def with_engine_def
        fetching_engine_def engine_new_def apply_edge_def try_verify_pending_def)
  have nonces: "\<forall>t \<in> set demo_turns. nonces_ok t" by (auto simp: demo_turns_def turn_of_nonces)
  have "\<forall>s j. auth toy_libs [7] {(0, i)} {} s j \<longrightarrow> (s, j) \<in> set (edges_told (fd_out ?f))" using i by (simp add: auth_def)
  from played_is_published [OF toy_aead_ok nonces refl r this _ _ refl, where es = "[]"]
  have "\<exists>frags :: frag list. contiguous 0 0 frags \<and> prefix (concat (map (units_of \<circ> fr_aus) frags)) (ingested demo_turns)"
    unfolding out by force
  with i r show ?thesis by blast
qed

end
